(* ===== verification/Gusset_Base.thy ===== *)
theory Gusset_Base
  imports Main "HOL-Library.Word" "HOL-Library.AList"
begin

text \<open>
  Prelude of the Gusset development: the machine integers and byte strings every component
  uses, the few functions of the Rust standard library the sources call (decimal and
  hexadecimal formatting, saturating arithmetic, \<open>position\<close>, byte encodings of words,
  UTF-8 character boundaries, \<open>HashMap\<close>), the collections of simp rules the component
  proofs draw on, and the map interface \<open>id_map\<close> the handle's tables are used through.
\<close>

unbundle bit_operations_syntax

named_theorems gusset_consts \<open>numeric constants of the sources\<close>
named_theorems gusset_defs \<open>small non-recursive operations that proofs usually unfold\<close>

type_synonym u8 = "8 word"
type_synonym u32 = "32 word"
type_synonym u64 = "64 word"
type_synonym i32 = int
type_synonym bytes = "u8 list"

text \<open>An \<open>Instant\<close>: nanoseconds on the monotonic clock.\<close>

type_synonym instant = nat

text \<open>A Rust \<open>String\<close> or \<open>&str\<close> is its UTF-8 bytes; \<open>lit\<close> is an ASCII literal.\<close>

type_synonym rstr = "u8 list"

definition lit :: "string \<Rightarrow> rstr" where
  "lit s = map of_char s"

lemma length_lit [simp]: "length (lit s) = length s"
  by (simp add: lit_def)

lemma lit_append: "lit (s @ t) = lit s @ lit t"
  by (simp add: lit_def)

lemma lit_Nil_iff [simp]: "lit s = [] \<longleftrightarrow> s = []"
  by (simp add: lit_def)

subsection \<open>Formatting\<close>

definition digit :: "nat \<Rightarrow> u8" where
  "digit d = (if d < 10 then 48 + of_nat d else 87 + of_nat d)"

text \<open>\<open>show_base b n\<close> is the numeral of \<open>n\<close> in base \<open>b\<close> (\<open>Display\<close> for 10, \<open>LowerHex\<close> for 16).\<close>

fun show_base :: "nat \<Rightarrow> nat \<Rightarrow> rstr" where
  "show_base b n =
     (if b \<le> 1 \<or> n < b then [digit n] else show_base b (n div b) @ [digit (n mod b)])"

declare show_base.simps [simp del]

definition show_nat :: "nat \<Rightarrow> rstr" where
  "show_nat n = show_base 10 n"

definition show_int :: "int \<Rightarrow> rstr" where
  "show_int i = (if i < 0 then lit ''-'' @ show_nat (nat (- i)) else show_nat (nat i))"

text \<open>The format \<open>{:#010x}\<close>: \<open>0x\<close> and at least eight hexadecimal digits.\<close>

definition show_hex8 :: "u32 \<Rightarrow> rstr" where
  "show_hex8 w =
     (let ds = show_base 16 (unat w) in lit ''0x'' @ replicate (8 - length ds) 48 @ ds)"

lemma show_base_nonempty [simp]: "show_base b n \<noteq> []"
  by (subst show_base.simps) simp

lemma show_nat_nonempty [simp]: "show_nat n \<noteq> []"
  by (simp add: show_nat_def)

subsection \<open>Searching lists\<close>

text \<open>\<open>Iterator::position\<close> and \<open>Iterator::rposition\<close>.\<close>

fun position :: "('a \<Rightarrow> bool) \<Rightarrow> 'a list \<Rightarrow> nat option" where
  "position P [] = None"
| "position P (x # xs) = (if P x then Some 0 else map_option Suc (position P xs))"

definition rposition :: "('a \<Rightarrow> bool) \<Rightarrow> 'a list \<Rightarrow> nat option" where
  "rposition P xs = map_option (\<lambda>i. length xs - 1 - i) (position P (rev xs))"

lemma position_None_iff: "position P xs = None \<longleftrightarrow> (\<forall>x \<in> set xs. \<not> P x)"
  by (induction xs) auto

lemma position_SomeD:
  "position P xs = Some i \<Longrightarrow> i < length xs \<and> P (xs ! i) \<and> (\<forall>j < i. \<not> P (xs ! j))"
proof (induction xs arbitrary: i)
  case (Cons x xs)
  show ?case
  proof (cases "P x")
    case False
    with Cons.prems obtain k where k: "position P xs = Some k" "i = Suc k" by auto
    from Cons.IH [OF k(1)] False k(2) show ?thesis
      by (auto simp: nth_Cons split: nat.splits)
  qed (use Cons.prems in auto)
qed simp

lemma position_eqI:
  assumes "i < length xs" and "P (xs ! i)" and "\<And>j. j < i \<Longrightarrow> \<not> P (xs ! j)"
  shows "position P xs = Some i"
  using assms
proof (induction xs arbitrary: i)
  case (Cons x xs)
  show ?case
  proof (cases i)
    case (Suc k)
    with Cons.prems have "\<not> P x" by force
    moreover have "position P xs = Some k"
      using Cons.prems Suc by (intro Cons.IH) (auto, force)
    ultimately show ?thesis by (simp add: Suc)
  qed (use Cons.prems in auto)
qed simp

lemma position_append:
  "position P (xs @ ys) =
     (case position P xs of Some i \<Rightarrow> Some i | None \<Rightarrow> map_option (\<lambda>i. length xs + i) (position P ys))"
  by (induction xs) (cases "position P ys", auto split: option.splits)+

lemma rposition_None_iff: "rposition P xs = None \<longleftrightarrow> (\<forall>x \<in> set xs. \<not> P x)"
  by (simp add: rposition_def position_None_iff)

lemma rposition_SomeD:
  assumes "rposition P xs = Some i"
  shows "i < length xs \<and> P (xs ! i)"
proof -
  from assms obtain k where k: "position P (rev xs) = Some k" "i = length xs - 1 - k"
    by (auto simp: rposition_def)
  from position_SomeD [OF k(1)] k(2) show ?thesis
    by (auto simp: rev_nth)
qed

subsection \<open>UTF-8\<close>

text \<open>A continuation byte is \<open>10xxxxxx\<close>.\<close>

definition is_cont :: "u8 \<Rightarrow> bool" where
  "is_cont b \<longleftrightarrow> b AND 0xC0 = 0x80"

text \<open>\<open>str::is_char_boundary\<close> on the bytes of a string.\<close>

definition is_char_boundary :: "rstr \<Rightarrow> nat \<Rightarrow> bool" where
  "is_char_boundary s i \<longleftrightarrow>
     i = 0 \<or> i = length s \<or> (i < length s \<and> \<not> is_cont (s ! i))"

text \<open>
  The loop \<open>while end > 0 && !s.is_char_boundary(end) { end -= 1; }\<close>, which both
  \<open>truncate_payload\<close> and \<open>append_line\<close> run.
\<close>

fun floor_boundary :: "rstr \<Rightarrow> nat \<Rightarrow> nat" where
  "floor_boundary s 0 = 0"
| "floor_boundary s (Suc n) =
     (if is_char_boundary s (Suc n) then Suc n else floor_boundary s n)"

lemma floor_boundary_le: "floor_boundary s n \<le> n"
  by (induction n) (auto simp: le_SucI)

lemma floor_boundary_is_boundary: "is_char_boundary s (floor_boundary s n)"
  by (induction n) (auto simp: is_char_boundary_def)

lemma floor_boundary_id: "is_char_boundary s n \<Longrightarrow> floor_boundary s n = n"
  by (cases n) auto

text \<open>The well-formed UTF-8 encodings of one character (Unicode, Table 3-7).\<close>

fun utf8_char :: "bytes \<Rightarrow> bool" where
  "utf8_char [a] \<longleftrightarrow> a < 0x80"
| "utf8_char [a, b] \<longleftrightarrow> 0xC2 \<le> a \<and> a \<le> 0xDF \<and> is_cont b"
| "utf8_char [a, b, c] \<longleftrightarrow>
     (a = 0xE0 \<and> 0xA0 \<le> b \<or> 0xE1 \<le> a \<and> a \<le> 0xEC \<or> a = 0xED \<and> b \<le> 0x9F
      \<or> 0xEE \<le> a \<and> a \<le> 0xEF) \<and> is_cont b \<and> is_cont c"
| "utf8_char [a, b, c, d] \<longleftrightarrow>
     (a = 0xF0 \<and> 0x90 \<le> b \<or> 0xF1 \<le> a \<and> a \<le> 0xF3 \<or> a = 0xF4 \<and> b \<le> 0x8F)
     \<and> is_cont b \<and> is_cont c \<and> is_cont d"
| "utf8_char _ \<longleftrightarrow> False"

text \<open>A string is well-formed when it splits into encoded characters.\<close>

inductive valid_utf8 :: "bytes \<Rightarrow> bool" where
  valid_Nil: "valid_utf8 []"
| valid_char: "utf8_char c \<Longrightarrow> valid_utf8 bs \<Longrightarrow> valid_utf8 (c @ bs)"

lemma is_cont_iff_range: "is_cont b \<longleftrightarrow> 0x80 \<le> b \<and> b < 0xC0"
proof -
  have all: "\<forall>n \<in> set [0..<256]. is_cont (of_nat n :: u8) \<longleftrightarrow> 128 \<le> n \<and> n < 192"
    by code_simp
  have "unat b \<in> set [0..<256]"
    using unsigned_less [of b] by simp
  with all have "is_cont (of_nat (unat b) :: u8) \<longleftrightarrow> 128 \<le> unat b \<and> unat b < 192" by blast
  then show ?thesis by (simp add: word_le_nat_alt word_less_nat_alt)
qed

lemma utf8_char_shape:
  assumes "utf8_char c"
  obtains a cs where "c = a # cs" and "\<not> is_cont a" and "\<forall>b \<in> set cs. is_cont b" and "length cs \<le> 3"
proof (rule that [of "hd c" "tl c"])
  show "c = hd c # tl c" "\<not> is_cont (hd c)" "\<forall>b \<in> set (tl c). is_cont b" "length (tl c) \<le> 3"
    using assms
    by (cases c rule: utf8_char.cases; auto simp: is_cont_iff_range word_le_nat_alt word_less_nat_alt)+
qed

lemma utf8_char_ascii [simp]: "utf8_char [a] \<longleftrightarrow> a < 0x80"
  by simp

lemma valid_utf8_append: "valid_utf8 xs \<Longrightarrow> valid_utf8 ys \<Longrightarrow> valid_utf8 (xs @ ys)"
  by (induction rule: valid_utf8.induct) (auto intro: valid_utf8.intros)

lemma valid_utf8_lead: "valid_utf8 bs \<Longrightarrow> bs \<noteq> [] \<Longrightarrow> \<not> is_cont (bs ! 0)"
  by (erule valid_utf8.cases) (auto elim: utf8_char_shape)

lemma valid_utf8_ascii: "(\<forall>b \<in> set bs. b < 0x80) \<Longrightarrow> valid_utf8 bs"
proof (induction bs)
  case (Cons b bs)
  then have "valid_utf8 ([b] @ bs)" by (intro valid_utf8.valid_char) auto
  then show ?case by simp
qed (rule valid_utf8.valid_Nil)

lemma digit_ascii: "d < 16 \<Longrightarrow> digit d < 0x80"
proof -
  have "\<forall>d \<in> set [0..<16]. digit d < 0x80" by code_simp
  then show "d < 16 \<Longrightarrow> digit d < 0x80" by simp
qed

lemma show_base_ascii: "1 < b \<Longrightarrow> b \<le> 16 \<Longrightarrow> x \<in> set (show_base b n) \<Longrightarrow> x < 0x80"
proof (induction b n rule: show_base.induct)
  case (1 b n)
  have "n mod b < 16" using "1.prems"(1,2) by (meson less_le_trans mod_less_divisor zero_less_one less_trans)
  show ?case
  proof (cases "n < b")
    case True
    with "1.prems" digit_ascii [of n] show ?thesis by (simp add: show_base.simps [of b n])
  next
    case False
    with "1" digit_ascii [OF \<open>n mod b < 16\<close>] show ?thesis by (auto simp: show_base.simps [of b n])
  qed
qed

lemma valid_show_nat: "valid_utf8 (show_nat n)"
  by (rule valid_utf8_ascii) (auto simp: show_nat_def dest: show_base_ascii [of 10, rotated 2])

lemma valid_lit: "list_all (\<lambda>c. of_char c < (0x80 :: u8)) s \<Longrightarrow> valid_utf8 (lit s)"
  by (rule valid_utf8_ascii) (auto simp: lit_def list_all_iff)

text \<open>Cutting a well-formed string at a character boundary leaves two well-formed strings.\<close>

lemma valid_utf8_cut:
  "valid_utf8 bs \<Longrightarrow> is_char_boundary bs i \<Longrightarrow> valid_utf8 (take i bs) \<and> valid_utf8 (drop i bs)"
proof (induction arbitrary: i rule: valid_utf8.induct)
  case valid_Nil
  then show ?case by (simp add: valid_utf8.valid_Nil)
next
  case (valid_char c bs)
  obtain a cs where c: "c = a # cs" "\<forall>b \<in> set cs. is_cont b"
    using utf8_char_shape [OF valid_char.hyps(1)] by metis
  consider "i = 0" | "0 < i" "i < length c" | "length c \<le> i" by linarith
  then show ?case
  proof cases
    case 1
    then show ?thesis using valid_char.hyps by (auto intro: valid_utf8.intros)
  next
    case 2
    then have "is_cont ((c @ bs) ! i)"
      using c by (auto simp: nth_append nth_Cons split: nat.splits)
    with 2 valid_char.prems have False by (auto simp: is_char_boundary_def)
    then show ?thesis ..
  next
    case 3
    then have "is_char_boundary bs (i - length c)"
      using valid_char.prems by (auto simp: is_char_boundary_def nth_append)
    from valid_char.IH [OF this] valid_char.hyps(1) 3 show ?thesis
      by (auto intro: valid_utf8.intros)
  qed
qed

lemma utf8_char_ascii_byte: "utf8_char c \<Longrightarrow> b \<in> set c \<Longrightarrow> b < 0x80 \<Longrightarrow> c = [b]"
  by (cases c rule: utf8_char.cases)
     (auto simp: is_cont_iff_range word_le_nat_alt word_less_nat_alt)

text \<open>The byte after an ASCII byte starts a character (or ends the string).\<close>

lemma valid_utf8_after_ascii:
  "valid_utf8 bs \<Longrightarrow> i < length bs \<Longrightarrow> bs ! i < 0x80 \<Longrightarrow> is_char_boundary bs (Suc i)"
proof (induction arbitrary: i rule: valid_utf8.induct)
  case (valid_char c bs)
  show ?case
  proof (cases "i < length c")
    case True
    then have "c ! i \<in> set c" "c ! i < 0x80"
      using valid_char.prems by (auto simp: nth_append)
    from utf8_char_ascii_byte [OF valid_char.hyps(1) this] have "c = [c ! i]" .
    then have "length c = 1" by (metis length_Cons list.size(3) One_nat_def)
    with True valid_utf8_lead [OF valid_char.hyps(2)] show ?thesis
      by (auto simp: is_char_boundary_def nth_append)
  next
    case False
    with valid_char.prems have i: "i - length c < length bs" "bs ! (i - length c) < 0x80"
      by (auto simp: nth_append)
    from valid_char.IH [OF this] False i(1) show ?thesis
      by (auto simp: is_char_boundary_def nth_append Suc_diff_le)
  qed
qed simp

text \<open>No character is longer than four bytes, so a boundary is never more than three back.\<close>

lemma valid_utf8_boundary_near:
  "valid_utf8 bs \<Longrightarrow> i < length bs \<Longrightarrow> \<exists>j \<le> i. i \<le> j + 3 \<and> \<not> is_cont (bs ! j)"
proof (induction arbitrary: i rule: valid_utf8.induct)
  case (valid_char c bs)
  obtain a cs where c: "c = a # cs" "\<not> is_cont a" "length cs \<le> 3"
    using utf8_char_shape [OF valid_char.hyps(1)] by metis
  show ?case
  proof (cases "i < length c")
    case True
    with c show ?thesis by (intro exI [of _ 0]) (auto simp: nth_append)
  next
    case False
    with valid_char.prems have "i - length c < length bs" by simp
    from valid_char.IH [OF this] obtain j
      where "j \<le> i - length c" "i - length c \<le> j + 3" "\<not> is_cont (bs ! j)" by blast
    with False show ?thesis
      by (intro exI [of _ "length c + j"]) (auto simp: nth_append)
  qed
qed simp

subsection \<open>Byte encodings of words\<close>

fun le_nat :: "nat \<Rightarrow> nat \<Rightarrow> bytes" where
  "le_nat 0 n = []"
| "le_nat (Suc k) n = of_nat (n mod 256) # le_nat k (n div 256)"

fun le_val :: "bytes \<Rightarrow> nat" where
  "le_val [] = 0"
| "le_val (b # bs) = unat b + 256 * le_val bs"

lemma length_le_nat [simp]: "length (le_nat k n) = k"
  by (induction k arbitrary: n) auto

lemma le_val_le_nat: "le_val (le_nat k n) = n mod 256 ^ k"
proof (induction k arbitrary: n)
  case (Suc k)
  have "unat (of_nat (n mod 256) :: u8) = n mod 256"
    by (simp add: unat_of_nat)
  with Suc show ?case
    by (simp add: mod_mult2_eq mult.commute)
qed simp

lemma le_val_less: "le_val bs < 256 ^ length bs"
proof (induction bs)
  case (Cons b bs)
  have "unat b < 256" using unsigned_less [of b] by simp
  with Cons show ?case by simp
qed simp

lemma u64_bound: "unat (w :: u64) < 18446744073709551616"
  by (rule order_less_le_trans [OF unsigned_less]) simp

lemma u32_bound: "unat (w :: u32) < 4294967296"
  by (rule order_less_le_trans [OF unsigned_less]) simp

lemma u8_bound: "unat (w :: u8) < 256"
  by (rule order_less_le_trans [OF unsigned_less]) simp

text \<open>
  \<open>u64::to_ne_bytes\<close> and \<open>u64::from_ne_bytes\<close>. The byte order is the target's; every
  statement holds for both, so it is an argument (\<open>True\<close> for big-endian).
\<close>

definition u64_to_ne_bytes :: "bool \<Rightarrow> u64 \<Rightarrow> bytes" where
  "u64_to_ne_bytes be w = (if be then rev else id) (le_nat 8 (unat w))"

definition u64_from_ne_bytes :: "bool \<Rightarrow> bytes \<Rightarrow> u64" where
  "u64_from_ne_bytes be bs = of_nat (le_val ((if be then rev else id) bs))"

lemma length_u64_to_ne_bytes [simp]: "length (u64_to_ne_bytes be w) = 8"
  by (simp add: u64_to_ne_bytes_def)

lemma u64_ne_bytes_inverse [simp]: "u64_from_ne_bytes be (u64_to_ne_bytes be w) = w"
proof -
  have "unat w mod 256 ^ 8 = unat w"
    using u64_bound [of w] by simp
  then show ?thesis
    by (simp add: u64_from_ne_bytes_def u64_to_ne_bytes_def le_val_le_nat)
qed

subsection \<open>Tables keyed by an id\<close>

text \<open>
  The pool's tables (results, cancel flags, buffers, engine registry) are hash maps keyed by
  ids. What the pool relies on is this interface: a lookup, an insert that replaces, a remove,
  and a length that counts the keys.
\<close>

locale id_map =
  fixes empty :: "'m"
    and get :: "'m \<Rightarrow> 'k \<Rightarrow> 'v option"
    and put :: "'k \<Rightarrow> 'v \<Rightarrow> 'm \<Rightarrow> 'm"
    and del :: "'k \<Rightarrow> 'm \<Rightarrow> 'm"
    and len :: "'m \<Rightarrow> nat"
    and ok :: "'m \<Rightarrow> bool"
  assumes get_empty: "get empty k = None"
    and get_put: "ok m \<Longrightarrow> get (put k v m) k' = (if k' = k then Some v else get m k')"
    and get_del: "ok m \<Longrightarrow> get (del k m) k' = (if k' = k then None else get m k')"
    and len_dom: "ok m \<Longrightarrow> len m = card (dom (get m))"
    and fin_dom: "ok m \<Longrightarrow> finite (dom (get m))"
    and ok_empty: "ok empty"
    and ok_put: "ok m \<Longrightarrow> ok (put k v m)"
    and ok_del: "ok m \<Longrightarrow> ok (del k m)"
begin

lemma dom_put: "ok m \<Longrightarrow> dom (get (put k v m)) = insert k (dom (get m))"
  by (auto simp: dom_def get_put)

lemma dom_del: "ok m \<Longrightarrow> dom (get (del k m)) = dom (get m) - {k}"
  by (auto simp: dom_def get_del split: if_splits)

lemma len_put_fresh: "ok m \<Longrightarrow> get m k = None \<Longrightarrow> len (put k v m) = Suc (len m)"
proof -
  assume ok: "ok m" and fresh: "get m k = None"
  from fresh have "k \<notin> dom (get m)" by auto
  with ok show "len (put k v m) = Suc (len m)"
    by (simp add: len_dom [OF ok_put [OF ok]] len_dom [OF ok] dom_put fin_dom)
qed

lemma len_del_present: "ok m \<Longrightarrow> get m k = Some v \<Longrightarrow> Suc (len (del k m)) = len m"
proof -
  assume ok: "ok m" and pres: "get m k = Some v"
  from pres have "k \<in> dom (get m)" by auto
  moreover from this ok have "card (dom (get m)) > 0"
    using fin_dom card_gt_0_iff by blast
  ultimately show "Suc (len (del k m)) = len m"
    using ok by (simp add: len_dom [OF ok_del [OF ok]] len_dom [OF ok] dom_del fin_dom)
qed

text \<open>A value is moved out at most once: after a remove the key is gone until the next insert.\<close>

lemma del_put_fresh: "ok m \<Longrightarrow> get m k = None \<Longrightarrow> get (del k (put k v m)) = get m"
  by (rule ext) (simp add: get_del get_put ok_put)

end

text \<open>The model of \<open>HashMap\<close> is an association list with distinct keys.\<close>

type_synonym ('k, 'v) idmap = "('k \<times> 'v) list"

definition idmap_ok :: "('k, 'v) idmap \<Rightarrow> bool" where
  "idmap_ok m \<longleftrightarrow> distinct (map fst m)"

interpretation hm: id_map "[]" map_of AList.update AList.delete length idmap_ok
proof (unfold_locales, goal_cases)
  case (4 m)
  then show ?case
    using distinct_card [of "map fst m"] by (simp add: idmap_ok_def dom_map_of_conv_image_fst)
qed (auto simp: idmap_ok_def update_conv' delete_conv' distinct_update distinct_delete finite_dom_map_of)

lemmas hm_simps = hm.get_put hm.get_del hm.ok_put hm.ok_del hm.dom_put hm.dom_del

end
