(* ===== verification/Header.thy ===== *)
theory Header
  imports Gusset_Base
begin

text \<open>
  The call header and the job context of \<^verbatim>\<open>crates/gusset/src/header.rs\<close>: the flag bits, the
  cancel reasons with the messages Go classifies, deadlines resolved from relative timeouts,
  and \<open>JobContext::check\<close>. An \<open>Instant\<close> is the number of nanoseconds on the monotonic clock;
  the current time is an argument, since the code reads the clock. A job's cancel flag is a
  shared atomic cell, named here by the job's ticket and read through \<open>cells\<close>.
\<close>

record CallHeader =
  trace_id :: bytes
  span_id :: bytes
  timeout_ns :: u64
  flags :: u32
  reserved :: u32

definition CallHeader_default :: CallHeader where
  "CallHeader_default = \<lparr>trace_id = replicate 16 0, span_id = replicate 8 0,
     timeout_ns = 0, flags = 0, reserved = 0\<rparr>"

definition GUSSET_FLAG_DIAGNOSTIC_ENGINE :: u32 where
  "GUSSET_FLAG_DIAGNOSTIC_ENGINE = push_bit 0 1"

definition GUSSET_FLAG_INLINE_COMPLETION :: u32 where
  "GUSSET_FLAG_INLINE_COMPLETION = push_bit 1 1"

definition GUSSET_FLAGS_KNOWN :: u32 where
  "GUSSET_FLAGS_KNOWN = GUSSET_FLAG_DIAGNOSTIC_ENGINE OR GUSSET_FLAG_INLINE_COMPLETION"

datatype CancelReason = Explicit | DeadlineExceeded

fun cancel_reason_string :: "CancelReason \<Rightarrow> rstr" where
  "cancel_reason_string Explicit = lit ''cancelled: Explicit''"
| "cancel_reason_string DeadlineExceeded = lit ''cancelled: DeadlineExceeded''"

text \<open>
  \<open>Instant::checked_add\<close> on Linux and macOS: an instant is a timespec with signed 64-bit
  seconds, so a sum is representable while its whole seconds fit.
\<close>

definition INSTANT_LIMIT :: nat where
  "INSTANT_LIMIT = 2 ^ 63 * 1000000000"

definition instant_checked_add :: "instant \<Rightarrow> nat \<Rightarrow> instant option" where
  "instant_checked_add t d = (if t + d < INSTANT_LIMIT then Some (t + d) else None)"

definition resolve_deadline :: "instant \<Rightarrow> u64 \<Rightarrow> instant option" where
  "resolve_deadline submit timeout =
     (if timeout = 0 then None
      else Some (case instant_checked_add submit (unat timeout) of Some t \<Rightarrow> t | None \<Rightarrow> submit))"

record JobContext =
  ctx_header :: CallHeader
  submit_instant :: instant
  deadline :: "instant option"
  cancel_flag :: u64
  dequeued_at :: "instant option"

definition JobContext_new :: "instant \<Rightarrow> CallHeader \<Rightarrow> u64 \<Rightarrow> JobContext" where
  "JobContext_new now header cell =
     \<lparr>ctx_header = header, submit_instant = now,
      deadline = resolve_deadline now (timeout_ns header),
      cancel_flag = cell, dequeued_at = None\<rparr>"

definition opcode :: "JobContext \<Rightarrow> u32" where
  "opcode ctx = reserved (ctx_header ctx)"

definition mark_dequeued :: "instant \<Rightarrow> JobContext \<Rightarrow> JobContext" where
  "mark_dequeued now ctx = ctx\<lparr>dequeued_at := Some now\<rparr>"

definition queue_delay :: "JobContext \<Rightarrow> nat option" where
  "queue_delay ctx = map_option (\<lambda>d. d - submit_instant ctx) (dequeued_at ctx)"

definition total_duration :: "instant \<Rightarrow> JobContext \<Rightarrow> nat" where
  "total_duration now ctx = now - submit_instant ctx"

definition check :: "instant \<Rightarrow> (u64 \<Rightarrow> bool) \<Rightarrow> JobContext \<Rightarrow> CancelReason + unit" where
  "check now cells ctx =
     (if cells (cancel_flag ctx) then Inl Explicit
      else case deadline ctx of
             Some dl \<Rightarrow> if now \<ge> dl then Inl DeadlineExceeded else Inr ()
           | None \<Rightarrow> Inr ())"

subsection \<open>Lemmas\<close>

lemma resolve_deadline_None_iff: "resolve_deadline t ns = None \<longleftrightarrow> ns = 0"
  by (simp add: resolve_deadline_def)

lemma resolve_deadline_ge: "resolve_deadline t ns = Some d \<Longrightarrow> t \<le> d \<and> d \<le> t + unat ns"
  by (auto simp: resolve_deadline_def instant_checked_add_def split: if_splits)

lemma check_Inr_iff:
  "check now cells ctx = Inr () \<longleftrightarrow>
     \<not> cells (cancel_flag ctx) \<and> (\<forall>dl. deadline ctx = Some dl \<longrightarrow> now < dl)"
  by (auto simp: check_def split: option.splits)

lemma check_Explicit_iff: "check now cells ctx = Inl Explicit \<longleftrightarrow> cells (cancel_flag ctx)"
  by (auto simp: check_def split: option.splits)

lemma check_mark_dequeued [simp]: "check now cells (mark_dequeued t ctx) = check now cells ctx"
  by (simp add: check_def mark_dequeued_def)

lemma JobContext_new_simps [simp]:
  "ctx_header (JobContext_new now h c) = h" "cancel_flag (JobContext_new now h c) = c"
  "deadline (JobContext_new now h c) = resolve_deadline now (timeout_ns h)"
  "submit_instant (JobContext_new now h c) = now"
  by (simp_all add: JobContext_new_def)

lemma known_flags: "GUSSET_FLAGS_KNOWN = 3"
  by (simp add: GUSSET_FLAGS_KNOWN_def GUSSET_FLAG_DIAGNOSTIC_ENGINE_def GUSSET_FLAG_INLINE_COMPLETION_def)

subsection \<open>Properties\<close>

text \<open>A relative timeout becomes a deadline the runtime enforces: a context has no deadline
  exactly when its timeout is zero; on a clock whose sum is representable the deadline is exactly
  submit time plus timeout, otherwise it is the submit instant itself (already expired, never
  "no deadline"); and a check fails from the deadline on unless the job was cancelled, which is
  reported first.\<close>

theorem deadline_enforced:
  fixes h :: CallHeader and cell :: u64 and now t :: instant
  defines "ctx \<equiv> JobContext_new now h cell"
  shows "(deadline ctx = None \<longleftrightarrow> timeout_ns h = 0)
    \<and> (timeout_ns h \<noteq> 0 \<and> now + unat (timeout_ns h) < INSTANT_LIMIT \<longrightarrow>
         check t cells ctx = (if cells cell then Inl Explicit
           else if now + unat (timeout_ns h) \<le> t then Inl DeadlineExceeded else Inr ()))
    \<and> (timeout_ns h \<noteq> 0 \<and> INSTANT_LIMIT \<le> now + unat (timeout_ns h) \<and> now \<le> t \<longrightarrow>
         check t cells ctx = (if cells cell then Inl Explicit else Inl DeadlineExceeded))"
  by (auto simp: ctx_def check_def resolve_deadline_def instant_checked_add_def)

theorem deadline_enforced_witness:
  "check 1500 (\<lambda>_. False) (JobContext_new 1000 (CallHeader_default\<lparr>timeout_ns := 500\<rparr>) 1)
     = Inl DeadlineExceeded"
  using deadline_enforced [of 1000 "CallHeader_default\<lparr>timeout_ns := 500\<rparr>" 1 1500 "\<lambda>_. False"]
  by (simp add: INSTANT_LIMIT_def)

text \<open>A failed check never recovers: once a context reports that it must stop, it keeps doing so
  at every later time, as long as cancel flags are only ever set. An explicit cancel stays
  reported as explicit.\<close>

theorem failed_check_stays_failed:
  assumes "check now cells ctx = Inl r" and "now \<le> now'"
    and "\<And>c. cells c \<Longrightarrow> cells' c"
  shows "check now' cells' ctx \<noteq> Inr () \<and> (r = Explicit \<longrightarrow> check now' cells' ctx = Inl Explicit)"
  using assms by (auto simp: check_def split: option.splits if_splits)

theorem failed_check_stays_failed_witness:
  "check 9 (\<lambda>_. True) (JobContext_new 1 (CallHeader_default\<lparr>timeout_ns := 5\<rparr>) 1) \<noteq> Inr ()"
  using failed_check_stays_failed
    [of 6 "\<lambda>_. False" "JobContext_new 1 (CallHeader_default\<lparr>timeout_ns := 5\<rparr>) 1" DeadlineExceeded 9 "\<lambda>_. True"]
  by (simp add: check_def resolve_deadline_def instant_checked_add_def INSTANT_LIMIT_def)

end
