(* ===== verification/Alloc_Stats.thy ===== *)
theory Alloc_Stats
  imports Gusset_Base
begin

text \<open>
  Allocator accounting of \<^verbatim>\<open>crates/gusset/src/ffi/alloc.rs\<close>: the process-wide counters with
  their saturating add, the \<open>Counting\<close> wrapper as a global and as a per-collection allocator,
  and \<open>BufferAlloc\<close>. The sequential definitions run one operation at a time; the inductive
  relation \<open>adder_step\<close> is the fine-grained interleaving of any number of threads adding to and
  subtracting from one counter, over which the no-wrap argument of \<open>add_saturating\<close> is proved.
  Allocations themselves are the inner allocator's: whether it returned memory is an argument.
\<close>

subsection \<open>Saturating arithmetic\<close>

definition USIZE_MAX :: u64 where
  "USIZE_MAX = - 1"

definition saturating_add :: "u64 \<Rightarrow> u64 \<Rightarrow> u64" where
  "saturating_add a b = (if unat a + unat b < 2 ^ 64 then a + b else USIZE_MAX)"

definition saturating_sub :: "u64 \<Rightarrow> u64 \<Rightarrow> u64" where
  "saturating_sub a b = (if b \<le> a then a - b else 0)"

definition SATURATED :: u64 where
  "SATURATED = drop_bit 1 USIZE_MAX"

definition FAST_ADD_MAX :: u64 where
  "FAST_ADD_MAX = drop_bit 26 USIZE_MAX"

text \<open>What a reader sees for a stored value.\<close>

definition reported :: "u64 \<Rightarrow> u64" where
  "reported stored = (if stored \<ge> SATURATED then USIZE_MAX else stored)"

text \<open>
  One \<open>add_saturating\<close> with no other thread in between: the value stored afterwards and the
  value returned. The compare-and-swap of the slow path then succeeds at once.
\<close>

definition add_saturating :: "u64 \<Rightarrow> u64 \<Rightarrow> u64 \<times> u64" where
  "add_saturating cell n =
     (if cell < SATURATED \<and> n \<le> FAST_ADD_MAX then (cell + n, saturating_add cell n)
      else if cell \<ge> SATURATED then (cell, cell)
      else let next = min (saturating_add cell n) SATURATED in (next, next))"

subsection \<open>The counters\<close>

record Counters =
  live :: u64
  count :: u64
  peak :: u64

record AllocStats =
  live_bytes :: u64
  peak_bytes :: u64
  alloc_count :: u64

definition Counters_new :: Counters where
  "Counters_new = \<lparr>live = 0, count = 0, peak = 0\<rparr>"

definition raise_peak :: "u64 \<Rightarrow> Counters \<Rightarrow> Counters" where
  "raise_peak l c = (if l > peak c then c\<lparr>peak := max (peak c) l\<rparr> else c)"

definition add_live :: "u64 \<Rightarrow> Counters \<Rightarrow> Counters" where
  "add_live sz c =
     (if sz = 0 then c
      else let (stored, next) = add_saturating (live c) sz
           in raise_peak next (c\<lparr>live := stored\<rparr>))"

definition add_count :: "Counters \<Rightarrow> Counters" where
  "add_count c = c\<lparr>count := fst (add_saturating (count c) 1)\<rparr>"

definition dec_live :: "u64 \<Rightarrow> Counters \<Rightarrow> Counters" where
  "dec_live sz c = (if sz = 0 then c else c\<lparr>live := saturating_sub (live c) sz\<rparr>)"

definition snapshot :: "Counters \<Rightarrow> AllocStats" where
  "snapshot c = \<lparr>live_bytes = reported (live c), peak_bytes = reported (peak c),
                 alloc_count = reported (count c)\<rparr>"

text \<open>The process-wide statics: \<open>COUNTERS\<close> and \<open>COUNTING_ACTIVE\<close>.\<close>

record alloc_state =
  counters :: Counters
  counting_active :: bool

definition alloc_state_init :: alloc_state where
  "alloc_state_init = \<lparr>counters = Counters_new, counting_active = False\<rparr>"

definition mark_counting_active :: "alloc_state \<Rightarrow> alloc_state" where
  "mark_counting_active st = st\<lparr>counting_active := True\<rparr>"

definition on_counters :: "(Counters \<Rightarrow> Counters) \<Rightarrow> alloc_state \<Rightarrow> alloc_state" where
  "on_counters f st = st\<lparr>counters := f (counters st)\<rparr>"

definition count_alloc_always :: "u64 \<Rightarrow> alloc_state \<Rightarrow> alloc_state" where
  "count_alloc_always sz st =
     (if sz \<noteq> 0 then on_counters (add_count \<circ> add_live sz) st else st)"

definition count_resize :: "u64 \<Rightarrow> u64 \<Rightarrow> bool \<Rightarrow> alloc_state \<Rightarrow> alloc_state" where
  "count_resize old new always st =
     (if \<not> always \<and> counting_active st then st
      else on_counters
             (add_count \<circ> (if new > old then add_live (new - old)
                          else if old > new then dec_live (old - new) else id)) st)"

text \<open>Buffer memory is counted here whatever allocator is installed.\<close>

definition count_buffer_alloc :: "u64 \<Rightarrow> alloc_state \<Rightarrow> alloc_state" where
  "count_buffer_alloc sz st =
     (if sz \<noteq> 0 then on_counters (add_count \<circ> add_live sz) st else st)"

definition count_buffer_dealloc :: "u64 \<Rightarrow> alloc_state \<Rightarrow> alloc_state" where
  "count_buffer_dealloc sz st = (if sz \<noteq> 0 then on_counters (dec_live sz) st else st)"

definition get_alloc_stats :: "alloc_state \<Rightarrow> AllocStats" where
  "get_alloc_stats st = snapshot (counters st)"

subsection \<open>\<open>Counting\<close> as the global allocator\<close>

text \<open>\<open>ok\<close> says whether the inner allocator returned memory.\<close>

definition counting_alloc :: "u64 \<Rightarrow> bool \<Rightarrow> alloc_state \<Rightarrow> alloc_state" where
  "counting_alloc sz ok st =
     (let st = mark_counting_active st
      in if ok then on_counters (add_count \<circ> add_live sz) st else st)"

definition counting_dealloc :: "u64 \<Rightarrow> alloc_state \<Rightarrow> alloc_state" where
  "counting_dealloc sz st = on_counters (dec_live sz) (mark_counting_active st)"

definition counting_alloc_zeroed :: "u64 \<Rightarrow> bool \<Rightarrow> alloc_state \<Rightarrow> alloc_state" where
  "counting_alloc_zeroed sz ok st =
     (let st = mark_counting_active st
      in if ok then on_counters (add_count \<circ> add_live sz) st else st)"

definition counting_realloc :: "u64 \<Rightarrow> u64 \<Rightarrow> bool \<Rightarrow> alloc_state \<Rightarrow> alloc_state" where
  "counting_realloc old new ok st =
     (let st = mark_counting_active st
      in if ok
         then on_counters (add_count \<circ> (if new > old then add_live (new - old)
                else if old > new then dec_live (old - new) else id)) st
         else st)"

datatype galloc_op =
    GAlloc u64 bool
  | GDealloc u64
  | GAllocZeroed u64 bool
  | GRealloc u64 u64 bool

fun galloc_step :: "galloc_op \<Rightarrow> alloc_state \<Rightarrow> alloc_state" where
  "galloc_step (GAlloc n ok) st = counting_alloc n ok st"
| "galloc_step (GDealloc n) st = counting_dealloc n st"
| "galloc_step (GAllocZeroed n ok) st = counting_alloc_zeroed n ok st"
| "galloc_step (GRealloc old new ok) st = counting_realloc old new ok st"

subsection \<open>\<open>Counting\<close> as a per-collection allocator, and \<open>BufferAlloc\<close>\<close>

text \<open>The inner allocator's type, which the code compares by \<open>TypeId\<close>.\<close>

datatype inner_kind = InnerGlobal | InnerBufferAlloc | InnerOther

definition forwards_to_counted_global :: "inner_kind \<Rightarrow> alloc_state \<Rightarrow> bool" where
  "forwards_to_counted_global k st \<longleftrightarrow>
     k = InnerBufferAlloc \<or> k = InnerGlobal \<and> counting_active st"

definition count_new :: "inner_kind \<Rightarrow> u64 \<Rightarrow> alloc_state \<Rightarrow> alloc_state" where
  "count_new k sz st =
     (if \<not> forwards_to_counted_global k st then count_alloc_always sz st else st)"

definition count_moved :: "inner_kind \<Rightarrow> u64 \<Rightarrow> u64 \<Rightarrow> alloc_state \<Rightarrow> alloc_state" where
  "count_moved k old new st =
     (if \<not> forwards_to_counted_global k st then count_resize old new True st else st)"

definition counting_allocate :: "inner_kind \<Rightarrow> u64 \<Rightarrow> bool \<Rightarrow> alloc_state \<Rightarrow> alloc_state" where
  "counting_allocate k sz ok st = (if ok then count_new k sz st else st)"

definition counting_deallocate :: "inner_kind \<Rightarrow> u64 \<Rightarrow> alloc_state \<Rightarrow> alloc_state" where
  "counting_deallocate k sz st =
     (if \<not> forwards_to_counted_global k st then on_counters (dec_live sz) st else st)"

definition counting_grow :: "inner_kind \<Rightarrow> u64 \<Rightarrow> u64 \<Rightarrow> bool \<Rightarrow> alloc_state \<Rightarrow> alloc_state" where
  "counting_grow k old new ok st = (if ok then count_moved k old new st else st)"

record Layout =
  lay_size :: nat
  lay_align :: nat

definition ISIZE_MAX :: nat where
  "ISIZE_MAX = 2 ^ 63 - 1"

definition BUFFER_ALIGN :: nat where
  "BUFFER_ALIGN = 64"

text \<open>
  \<open>Layout::from_size_align\<close>: the size, rounded up to the alignment (a power of two), must
  not exceed \<open>isize::MAX\<close>.
\<close>

definition layout_from_size_align :: "nat \<Rightarrow> nat \<Rightarrow> Layout option" where
  "layout_from_size_align sz align =
     (if sz + (align - 1) - (sz + (align - 1)) mod align \<le> ISIZE_MAX
      then Some \<lparr>lay_size = sz, lay_align = align\<rparr> else None)"

definition buffer_layout :: "Layout \<Rightarrow> Layout option" where
  "buffer_layout l = layout_from_size_align (lay_size l) (max (lay_align l) BUFFER_ALIGN)"

definition layout_pair :: "Layout \<Rightarrow> Layout \<Rightarrow> (Layout \<times> Layout) option" where
  "layout_pair old new =
     (case buffer_layout old of
        None \<Rightarrow> None
      | Some ol \<Rightarrow> (case buffer_layout new of None \<Rightarrow> None | Some nl \<Rightarrow> Some (ol, nl)))"

text \<open>
  \<open>BufferAlloc\<close>: \<open>ok\<close> is whether \<open>System\<close> returned a block. The result is the layout really
  used, or \<open>None\<close> for \<open>AllocError\<close>.
\<close>

definition buffer_allocate :: "Layout \<Rightarrow> bool \<Rightarrow> alloc_state \<Rightarrow> Layout option \<times> alloc_state" where
  "buffer_allocate l ok st =
     (case buffer_layout l of
        None \<Rightarrow> (None, st)
      | Some real \<Rightarrow>
          if ok then (Some real, count_buffer_alloc (of_nat (lay_size real)) st) else (None, st))"

definition buffer_deallocate :: "Layout \<Rightarrow> alloc_state \<Rightarrow> alloc_state" where
  "buffer_deallocate l st =
     (case buffer_layout l of
        None \<Rightarrow> st
      | Some real \<Rightarrow> count_buffer_dealloc (of_nat (lay_size real)) st)"

definition buffer_grow :: "Layout \<Rightarrow> Layout \<Rightarrow> bool \<Rightarrow> alloc_state \<Rightarrow> Layout option \<times> alloc_state" where
  "buffer_grow old new ok st =
     (case layout_pair old new of
        None \<Rightarrow> (None, st)
      | Some (ol, nl) \<Rightarrow>
          if ok then (Some nl, count_resize (of_nat (lay_size ol)) (of_nat (lay_size nl)) True st)
          else (None, st))"

definition buffer_shrink :: "Layout \<Rightarrow> Layout \<Rightarrow> bool \<Rightarrow> alloc_state \<Rightarrow> Layout option \<times> alloc_state" where
  "buffer_shrink old new ok st =
     (case layout_pair old new of
        None \<Rightarrow> (None, st)
      | Some (ol, nl) \<Rightarrow>
          if ok then (Some nl, count_resize (of_nat (lay_size ol)) (of_nat (lay_size nl)) True st)
          else (None, st))"

subsection \<open>Threads sharing one counter\<close>

text \<open>
  Where a thread is inside \<open>add_saturating\<close>: not in it, past the check and about to
  \<open>fetch_add\<close>, or in the compare-and-swap loop with the value it last read.
\<close>

datatype adder = Idle | Fast u64 | Slow u64 u64

record cell_state =
  stored :: u64
  adders :: "nat \<Rightarrow> adder"

definition cell_init :: cell_state where
  "cell_init = \<lparr>stored = 0, adders = (\<lambda>_. Idle)\<rparr>"

text \<open>
  One atomic access by one of the threads \<open>t < N\<close>. \<open>compare_exchange_weak\<close> may fail even when
  the value is the expected one. A decrement is the successful compare-and-swap of \<open>dec_live\<close>.
\<close>

inductive adder_step :: "nat \<Rightarrow> cell_state \<Rightarrow> cell_state \<Rightarrow> bool" for N where
  load_fast: "t < N \<Longrightarrow> adders s t = Idle \<Longrightarrow> stored s < SATURATED \<Longrightarrow> n \<le> FAST_ADD_MAX \<Longrightarrow>
    adder_step N s (s\<lparr>adders := (adders s)(t := Fast n)\<rparr>)"
| load_slow: "t < N \<Longrightarrow> adders s t = Idle \<Longrightarrow> \<not> (stored s < SATURATED \<and> n \<le> FAST_ADD_MAX) \<Longrightarrow>
    adder_step N s (s\<lparr>adders := (adders s)(t := Slow (stored s) n)\<rparr>)"
| fetch_add: "t < N \<Longrightarrow> adders s t = Fast n \<Longrightarrow>
    adder_step N s (s\<lparr>stored := stored s + n, adders := (adders s)(t := Idle)\<rparr>)"
| slow_saturated: "t < N \<Longrightarrow> adders s t = Slow cur n \<Longrightarrow> SATURATED \<le> cur \<Longrightarrow>
    adder_step N s (s\<lparr>adders := (adders s)(t := Idle)\<rparr>)"
| cas_ok: "t < N \<Longrightarrow> adders s t = Slow cur n \<Longrightarrow> cur < SATURATED \<Longrightarrow> stored s = cur \<Longrightarrow>
    adder_step N s (s\<lparr>stored := min (saturating_add cur n) SATURATED,
                      adders := (adders s)(t := Idle)\<rparr>)"
| cas_fail: "t < N \<Longrightarrow> adders s t = Slow cur n \<Longrightarrow> cur < SATURATED \<Longrightarrow>
    adder_step N s (s\<lparr>adders := (adders s)(t := Slow (stored s) n)\<rparr>)"
| decrement: "adder_step N s (s\<lparr>stored := saturating_sub (stored s) m\<rparr>)"

inductive adder_reachable :: "nat \<Rightarrow> cell_state \<Rightarrow> bool" for N where
  reach_init: "adder_reachable N cell_init"
| reach_step: "adder_reachable N s \<Longrightarrow> adder_step N s s' \<Longrightarrow> adder_reachable N s'"

definition fast_threads :: "cell_state \<Rightarrow> nat set" where
  "fast_threads s = {t. \<exists>n. adders s t = Fast n}"

definition adder_inv :: "nat \<Rightarrow> cell_state \<Rightarrow> bool" where
  "adder_inv N s \<longleftrightarrow>
     fast_threads s \<subseteq> {..<N} \<and> (\<forall>t n. adders s t = Fast n \<longrightarrow> n \<le> FAST_ADD_MAX)
     \<and> unat (stored s) + card (fast_threads s) * unat FAST_ADD_MAX
         \<le> unat SATURATED + N * unat FAST_ADD_MAX"

subsection \<open>Lemmas: saturating arithmetic\<close>

lemma unat_USIZE_MAX: "unat USIZE_MAX = 2 ^ 64 - 1"
  by (simp add: USIZE_MAX_def unsigned_minus_1_eq_mask mask_eq_exp_minus_1)

lemma unat_SATURATED: "unat SATURATED = 2 ^ 63 - 1"
proof -
  have *: "SATURATED = 9223372036854775807" unfolding SATURATED_def USIZE_MAX_def by (simp add: mask_eq_exp_minus_1)
  show ?thesis unfolding * by simp
qed

lemma unat_FAST_ADD_MAX: "unat FAST_ADD_MAX = 2 ^ 38 - 1"
proof -
  have *: "FAST_ADD_MAX = 274877906943" unfolding FAST_ADD_MAX_def USIZE_MAX_def by (simp add: mask_eq_exp_minus_1)
  show ?thesis unfolding * by simp
qed

lemmas usize_bounds = unat_USIZE_MAX unat_SATURATED unat_FAST_ADD_MAX

lemma u64_less_iff: "(a :: u64) < b \<longleftrightarrow> unat a < unat b"
  by (rule word_less_nat_alt)

lemma u64_le_iff: "(a :: u64) \<le> b \<longleftrightarrow> unat a \<le> unat b"
  by (rule word_le_nat_alt)

lemmas u64_order = u64_less_iff u64_le_iff

lemma unat_add_exact: "unat (a :: u64) + unat b < 2 ^ 64 \<Longrightarrow> unat (a + b) = unat a + unat b"
  by (simp add: unat_word_ariths)

lemma unat_saturating_add: "unat (saturating_add a b) = min (unat a + unat b) (2 ^ 64 - 1)"
  by (auto simp: saturating_add_def unat_add_exact unat_USIZE_MAX min_def)

lemma unat_sub_exact: "(b :: u64) \<le> a \<Longrightarrow> unat (a - b) = unat a - unat b"
  by (rule unat_sub)

lemma unat_saturating_sub: "unat (saturating_sub a b) = unat a - unat b"
  by (auto simp: saturating_sub_def unat_sub_exact u64_le_iff)

lemma unat_min_u64: "unat (min a b :: u64) = min (unat a) (unat b)"
  by (auto simp: min_def u64_le_iff)

text \<open>Without interference the stored value never wraps and is what the call returns.\<close>

lemma add_saturating_exact:
  assumes "unat cell + unat n < unat SATURATED"
  shows "unat (fst (add_saturating cell n)) = unat cell + unat n"
  using assms u64_bound [of n]
  by (auto simp: add_saturating_def Let_def u64_order unat_add_exact unat_min_u64
      unat_saturating_add usize_bounds)

lemma add_saturating_fst_snd: "fst (add_saturating cell n) = snd (add_saturating cell n)"
  by (auto simp: add_saturating_def Let_def saturating_add_def u64_order usize_bounds)

lemma add_saturating_mono: "cell \<le> fst (add_saturating cell n)"
  using u64_bound [of cell]
  by (auto simp: add_saturating_def Let_def u64_order unat_add_exact unat_min_u64
      unat_saturating_add usize_bounds)

lemma reported_exact: "unat v < unat SATURATED \<Longrightarrow> reported v = v"
  by (auto simp: reported_def u64_order)

subsection \<open>Lemmas: the counters\<close>

lemma peak_raise [simp]: "peak (raise_peak l c) = max (peak c) l"
  by (auto simp: raise_peak_def max_def)

lemma raise_peak_simps [simp]: "live (raise_peak l c) = live c" "count (raise_peak l c) = count c"
  by (simp_all add: raise_peak_def)

lemma add_saturating_zero [simp]: "fst (add_saturating cell 0) = cell"
  by (auto simp: add_saturating_def saturating_add_def Let_def u64_order min_def usize_bounds)

lemma live_add_live: "live (add_live n c) = fst (add_saturating (live c) n)"
  by (auto simp: add_live_def split: prod.splits)

lemma count_add_live [simp]: "count (add_live n c) = count c"
  by (auto simp: add_live_def split: prod.splits)

lemma peak_add_live: "live c \<le> peak c \<Longrightarrow> peak (add_live n c) = max (peak c) (live (add_live n c))"
  using add_saturating_fst_snd [of "live c" n]
  by (auto simp: add_live_def max_def split: prod.splits)

lemma dec_live_simps [simp]:
  "count (dec_live n c) = count c" "peak (dec_live n c) = peak c"
  "live (dec_live n c) = saturating_sub (live c) n"
  by (auto simp: dec_live_def saturating_sub_def)

lemma add_count_simps [simp]:
  "live (add_count c) = live c" "peak (add_count c) = peak c"
  by (simp_all add: add_count_def)

text \<open>The peak is at least the live total after every operation.\<close>

definition peak_ok :: "Counters \<Rightarrow> bool" where
  "peak_ok c \<longleftrightarrow> live c \<le> peak c"

lemma peak_ok_add_live [intro]: "peak_ok c \<Longrightarrow> peak_ok (add_live n c)"
  by (auto simp: peak_ok_def peak_add_live)

lemma peak_ok_dec_live [intro]: "peak_ok c \<Longrightarrow> peak_ok (dec_live n c)"
  by (auto simp: peak_ok_def u64_order unat_saturating_sub)

lemma peak_ok_add_count [intro]: "peak_ok c \<Longrightarrow> peak_ok (add_count c)"
  by (simp add: peak_ok_def)

lemma counters_on_counters [simp]: "counters (on_counters f st) = f (counters st)"
  by (simp add: on_counters_def)

lemma counters_mark [simp]: "counters (mark_counting_active st) = counters st"
  by (simp add: mark_counting_active_def)

lemma galloc_step_peak_ok: "peak_ok (counters st) \<Longrightarrow> peak_ok (counters (galloc_step op st))"
  by (cases op)
     (auto simp: counting_alloc_def counting_dealloc_def counting_alloc_zeroed_def
        counting_realloc_def Let_def)

subsection \<open>Lemmas: the ledger of a program\<close>

text \<open>
  What the live total should be: the bytes allocated and not yet freed. \<open>None\<close> for a program
  that frees more than it holds, or whose total would reach \<open>SATURATED\<close>.
\<close>

definition ledger_to :: "nat \<Rightarrow> nat option" where
  "ledger_to L = (if L < unat SATURATED then Some L else None)"

fun ledger_op :: "galloc_op \<Rightarrow> nat \<Rightarrow> nat option" where
  "ledger_op (GAlloc n ok) L = (if ok then ledger_to (L + unat n) else Some L)"
| "ledger_op (GDealloc n) L = (if unat n \<le> L then Some (L - unat n) else None)"
| "ledger_op (GAllocZeroed n ok) L = (if ok then ledger_to (L + unat n) else Some L)"
| "ledger_op (GRealloc old new ok) L =
     (if ok then (if unat old \<le> L then ledger_to (L - unat old + unat new) else None) else Some L)"

fun ledger_run :: "galloc_op list \<Rightarrow> nat \<Rightarrow> nat option" where
  "ledger_run [] L = Some L"
| "ledger_run (op # ops) L =
     (case ledger_op op L of None \<Rightarrow> None | Some L' \<Rightarrow> ledger_run ops L')"

lemma ledger_to_Some: "ledger_to L = Some L' \<longleftrightarrow> L' = L \<and> L < unat SATURATED"
  by (auto simp: ledger_to_def)

lemma live_add_live_exact:
  "unat (live c) + unat n < unat SATURATED \<Longrightarrow> unat (live (add_live n c)) = unat (live c) + unat n"
  by (simp add: live_add_live add_saturating_exact)

lemma live_dec_live_exact: "unat (live (dec_live n c)) = unat (live c) - unat n"
  by (simp add: unat_saturating_sub)

lemma galloc_step_exact:
  assumes "ledger_op op (unat (live (counters st))) = Some L"
  shows "unat (live (counters (galloc_step op st))) = L"
proof (cases op)
  case (GRealloc old new ok)
  show ?thesis
  proof (cases "ok")
    case True
    then have L: "unat old \<le> unat (live (counters st))"
        "L = unat (live (counters st)) - unat old + unat new" "L < unat SATURATED"
      using assms GRealloc by (auto simp: ledger_to_Some split: if_splits)
    consider "old < new" | "new < old" | "old = new" by (metis linorder_neqE)
    then show ?thesis
    proof cases
      case 1
      then have "unat (new - old) = unat new - unat old" "unat old < unat new"
        using unat_sub_exact [of old new] by (auto simp: u64_order)
      with 1 L True GRealloc show ?thesis
        by (auto simp: counting_realloc_def live_add_live_exact)
    next
      case 2
      then have "unat (old - new) = unat old - unat new" "unat new < unat old"
        using unat_sub_exact [of new old] by (auto simp: u64_order)
      with 2 L True GRealloc show ?thesis
        by (auto simp: counting_realloc_def unat_saturating_sub)
    qed (use L True GRealloc in \<open>auto simp: counting_realloc_def\<close>)
  qed (use assms GRealloc in \<open>auto simp: counting_realloc_def\<close>)
qed (use assms in \<open>auto simp: counting_alloc_def counting_alloc_zeroed_def counting_dealloc_def
      Let_def ledger_to_Some live_add_live_exact unat_saturating_sub split: if_splits\<close>)

lemma galloc_run_exact:
  "ledger_run ops (unat (live (counters st))) = Some L \<Longrightarrow>
     unat (live (counters (fold galloc_step ops st))) = L"
proof (induction ops arbitrary: st)
  case (Cons op ops)
  then obtain L' where L': "ledger_op op (unat (live (counters st))) = Some L'" "ledger_run ops L' = Some L"
    by (auto split: option.splits)
  with Cons.IH [of "galloc_step op st"] galloc_step_exact [OF L'(1)] show ?case by simp
qed simp

lemma galloc_run_peak_ok: "peak_ok (counters st) \<Longrightarrow> peak_ok (counters (fold galloc_step ops st))"
  by (induction ops arbitrary: st) (auto intro: galloc_step_peak_ok)

lemma ledger_op_bound: "ledger_op op L = Some L' \<Longrightarrow> L < unat SATURATED \<Longrightarrow> L' < unat SATURATED"
  by (cases op) (auto simp: ledger_to_Some split: if_splits)

lemma ledger_run_bound: "ledger_run ops L = Some L' \<Longrightarrow> L < unat SATURATED \<Longrightarrow> L' < unat SATURATED"
  by (induction ops arbitrary: L) (auto split: option.splits dest: ledger_op_bound)

subsection \<open>Lemmas: threads sharing one counter\<close>

lemma fast_threads_update:
  "fast_threads (s\<lparr>adders := (adders s)(t := a)\<rparr>) =
     (case a of Fast n \<Rightarrow> insert t (fast_threads s) | _ \<Rightarrow> fast_threads s - {t})"
  by (auto simp: fast_threads_def split: adder.splits)

lemma fast_threads_stored [simp]: "fast_threads (s\<lparr>stored := v\<rparr>) = fast_threads s"
  by (simp add: fast_threads_def)

lemma card_fast_le: "adder_inv N s \<Longrightarrow> card (fast_threads s) \<le> N"
  using card_mono [of "{..<N}" "fast_threads s"] by (auto simp: adder_inv_def)

lemma finite_fast: "adder_inv N s \<Longrightarrow> finite (fast_threads s)"
  by (auto simp: adder_inv_def intro: finite_subset)

lemma adder_invI:
  assumes "fast_threads s \<subseteq> {..<N}" and "\<And>t n. adders s t = Fast n \<Longrightarrow> n \<le> FAST_ADD_MAX"
    and "unat (stored s) + card (fast_threads s) * unat FAST_ADD_MAX
           \<le> unat SATURATED + N * unat FAST_ADD_MAX"
  shows "adder_inv N s"
  using assms by (auto simp: adder_inv_def)

text \<open>Lowering the value or leaving the fast path keeps the invariant.\<close>

lemma adder_inv_lower:
  assumes "adder_inv N s" and "\<And>n. a \<noteq> Fast n" and "unat v \<le> max (unat (stored s)) (unat SATURATED)"
  shows "adder_inv N (s\<lparr>stored := v, adders := (adders s)(t := a)\<rparr>)"
proof -
  let ?s = "s\<lparr>stored := v, adders := (adders s)(t := a)\<rparr>"
  have ft: "fast_threads ?s = fast_threads s - {t}"
    using assms(2) by (auto simp: fast_threads_def)
  have "card (fast_threads s - {t}) \<le> card (fast_threads s)"
    by (rule card_Diff1_le)
  then have c: "card (fast_threads s - {t}) * unat FAST_ADD_MAX \<le> card (fast_threads s) * unat FAST_ADD_MAX"
    by simp
  have N: "card (fast_threads s) * unat FAST_ADD_MAX \<le> N * unat FAST_ADD_MAX"
    using card_fast_le [OF assms(1)] by simp
  have h: "unat (stored s) + card (fast_threads s) * unat FAST_ADD_MAX
      \<le> unat SATURATED + N * unat FAST_ADD_MAX" using assms(1) by (simp add: adder_inv_def)
  have "unat v + card (fast_threads s - {t}) * unat FAST_ADD_MAX \<le> unat SATURATED + N * unat FAST_ADD_MAX"
    using h assms(3) c N by linarith
  then show ?thesis
    using assms(1,2) by (intro adder_invI) (auto simp: ft adder_inv_def split: if_splits)
qed

lemma adder_step_inv:
  assumes "adder_step N s s'" and inv: "adder_inv N s" and cap: "N \<le> 2 ^ 25"
  shows "adder_inv N s'"
  using assms(1)
proof cases
  case (load_fast t n)
  have "card (insert t (fast_threads s)) = Suc (card (fast_threads s))" "t \<notin> fast_threads s"
    using load_fast(3) finite_fast [OF inv] by (auto simp: fast_threads_def)
  moreover have "card (insert t (fast_threads s)) \<le> N"
    using inv load_fast(2) card_mono [of "{..<N}" "insert t (fast_threads s)"] by (auto simp: adder_inv_def)
  then have "card (insert t (fast_threads s)) * unat FAST_ADD_MAX \<le> N * unat FAST_ADD_MAX" by simp
  moreover have "unat (stored s) \<le> unat SATURATED" using load_fast(4) by (simp add: u64_less_iff)
  ultimately show ?thesis
    using inv load_fast(2,5) unfolding load_fast(1)
    by (intro adder_invI) (auto simp: fast_threads_update adder_inv_def split: if_splits)
next
  case (fetch_add t n)
  have t: "t \<in> fast_threads s" using fetch_add(3) by (auto simp: fast_threads_def)
  then obtain k where k: "card (fast_threads s) = Suc k" "card (fast_threads s - {t}) = k"
    using finite_fast [OF inv] by (metis card_Suc_Diff1)
  have n: "unat n \<le> unat FAST_ADD_MAX" using inv fetch_add(3) by (auto simp: adder_inv_def u64_le_iff)
  have "unat (stored s) + Suc k * unat FAST_ADD_MAX \<le> unat SATURATED + N * unat FAST_ADD_MAX"
    using inv k(1) by (simp add: adder_inv_def)
  moreover have "N * unat FAST_ADD_MAX \<le> 2 ^ 25 * unat FAST_ADD_MAX" using cap by simp
  ultimately have "unat (stored s + n) + k * unat FAST_ADD_MAX \<le> unat SATURATED + N * unat FAST_ADD_MAX"
    using n by (subst unat_add_exact) (auto simp: usize_bounds)
  moreover have "fast_threads (s\<lparr>stored := stored s + n, adders := (adders s)(t := Idle)\<rparr>) = fast_threads s - {t}"
    by (auto simp: fast_threads_def)
  ultimately show ?thesis
    using inv k unfolding fetch_add(1)
    by (intro adder_invI) (auto simp: adder_inv_def split: if_splits)
next
  case (load_slow t n)
  then show ?thesis using adder_inv_lower [OF inv, of "Slow (stored s) n" "stored s" t] by simp
next
  case (slow_saturated t cur n)
  then show ?thesis using adder_inv_lower [OF inv, of Idle "stored s" t] by simp
next
  case (cas_ok t cur n)
  then show ?thesis
    using adder_inv_lower [OF inv, of Idle "min (saturating_add cur n) SATURATED" t]
    by (simp add: unat_min_u64)
next
  case (cas_fail t cur n)
  then show ?thesis using adder_inv_lower [OF inv, of "Slow (stored s) n" "stored s" t] by simp
next
  case (decrement m)
  have "unat (saturating_sub (stored s) m) \<le> unat (stored s)" by (simp add: unat_saturating_sub)
  with inv show ?thesis unfolding decrement by (intro adder_invI) (auto simp: adder_inv_def)
qed

lemma adder_reachable_inv: "adder_reachable N s \<Longrightarrow> N \<le> 2 ^ 25 \<Longrightarrow> adder_inv N s"
proof (induction rule: adder_reachable.induct)
  case reach_init
  then show ?case by (auto simp: adder_inv_def cell_init_def fast_threads_def)
qed (rule adder_step_inv)

subsection \<open>Properties\<close>

text \<open>C34: However many threads (up to \<open>2^25\<close>, eight times the thread ids Linux hands out)
  allocate and free at once, and however their loads, \<open>fetch_add\<close>s and compare-and-swaps
  interleave, no \<open>fetch_add\<close> on a shared counter ever wraps: the stored value stays within
  \<open>SATURATED\<close> plus one maximal fast add per thread, and an add that passed its check lands exactly.\<close>

theorem fetch_add_never_wraps:
  assumes "adder_reachable N s" and "N \<le> 2 ^ 25"
  shows "unat (stored s) \<le> unat SATURATED + N * unat FAST_ADD_MAX
    \<and> (\<forall>t n. adders s t = Fast n \<longrightarrow> unat (stored s + n) = unat (stored s) + unat n)"
proof (intro conjI allI impI)
  have inv: "adder_inv N s" using assms by (rule adder_reachable_inv)
  then show "unat (stored s) \<le> unat SATURATED + N * unat FAST_ADD_MAX" by (auto simp: adder_inv_def)
  fix t n assume f: "adders s t = Fast n"
  then have "t \<in> fast_threads s" by (auto simp: fast_threads_def)
  then have "1 \<le> card (fast_threads s)"
    using finite_fast [OF inv] by (metis card_gt_0_iff empty_iff Suc_leI One_nat_def)
  then have "1 * unat FAST_ADD_MAX \<le> card (fast_threads s) * unat FAST_ADD_MAX"
    by (intro mult_le_mono1)
  moreover have "unat n \<le> unat FAST_ADD_MAX" using inv f by (auto simp: adder_inv_def u64_le_iff)
  moreover have "N * unat FAST_ADD_MAX \<le> 2 ^ 25 * unat FAST_ADD_MAX" using assms(2) by simp
  ultimately show "unat (stored s + n) = unat (stored s) + unat n"
    using inv by (intro unat_add_exact) (simp add: adder_inv_def usize_bounds)
qed

theorem fetch_add_never_wraps_witness:
  "unat (stored (cell_init\<lparr>adders := (adders cell_init)(0 := Fast 8)\<rparr>) + 8) = 8"
proof -
  have "adder_step 1 cell_init (cell_init\<lparr>adders := (adders cell_init)(0 := Fast 8)\<rparr>)"
    by (rule adder_step.load_fast) (simp_all add: cell_init_def u64_order usize_bounds)
  then have r: "adder_reachable 1 (cell_init\<lparr>adders := (adders cell_init)(0 := Fast 8)\<rparr>)"
    by (rule adder_reachable.reach_step [OF adder_reachable.reach_init])
  show ?thesis
    using fetch_add_never_wraps [OF r] by (auto simp: cell_init_def)
qed

text \<open>C33: The exported statistics are exact: after any sequence of allocations, frees and resizes
  served by the \<open>Counting\<close> global allocator whose outstanding bytes never reach the saturation
  point and which frees only what it holds, \<open>live_bytes\<close> is exactly the number of bytes
  allocated and not yet freed, and \<open>peak_bytes\<close> is at least that.\<close>

theorem alloc_stats_exact:
  assumes "ledger_run ops 0 = Some L"
  shows "unat (live_bytes (get_alloc_stats (fold galloc_step ops alloc_state_init))) = L
    \<and> live_bytes (get_alloc_stats (fold galloc_step ops alloc_state_init))
        \<le> peak_bytes (get_alloc_stats (fold galloc_step ops alloc_state_init))"
proof -
  let ?c = "counters (fold galloc_step ops alloc_state_init)"
  have live: "unat (live ?c) = L"
    using assms by (intro galloc_run_exact) (simp add: alloc_state_init_def Counters_new_def)
  moreover have "L < unat SATURATED"
    using ledger_run_bound [OF assms] by (simp add: usize_bounds)
  moreover have "peak_ok ?c"
    by (rule galloc_run_peak_ok) (simp add: peak_ok_def alloc_state_init_def Counters_new_def)
  ultimately show ?thesis
    using u64_bound [of "live ?c"]
    by (auto simp: get_alloc_stats_def snapshot_def reported_exact peak_ok_def)
       (auto simp: reported_def u64_order usize_bounds)
qed

theorem alloc_stats_exact_witness:
  "unat (live_bytes (get_alloc_stats (fold galloc_step
     [GAlloc 100 True, GAlloc 50 False, GRealloc 100 300 True, GAlloc 7 True, GDealloc 300]
     alloc_state_init))) = 7"
  using alloc_stats_exact [of "[GAlloc 100 True, GAlloc 50 False, GRealloc 100 300 True, GAlloc 7 True, GDealloc 300]" 7]
  by (simp add: ledger_to_def usize_bounds)

text \<open>No byte is counted twice: memory a collection allocates through \<open>Counting<Global>\<close> while
  \<open>Counting\<close> is also the global allocator, or through \<open>Counting<BufferAlloc>\<close>, leaves the counters
  exactly as the inner allocator's own accounting left them, for allocation, resize and free alike.\<close>

theorem counting_never_counts_twice:
  "counting_allocate InnerGlobal n ok (counting_alloc n ok st) = counting_alloc n ok st
   \<and> counting_deallocate InnerGlobal n (counting_dealloc n st) = counting_dealloc n st
   \<and> counting_grow InnerGlobal old new ok (counting_realloc old new ok st) = counting_realloc old new ok st
   \<and> counting_allocate InnerBufferAlloc n ok st = st
   \<and> counting_deallocate InnerBufferAlloc n st = st
   \<and> counting_grow InnerBufferAlloc old new ok st = st"
  by (simp add: counting_allocate_def counting_deallocate_def counting_grow_def count_new_def
      count_moved_def forwards_to_counted_global_def counting_alloc_def counting_dealloc_def
      counting_realloc_def mark_counting_active_def on_counters_def Let_def)

end
