(* ===== verification/Sys.thy ===== *)
theory Sys
  imports Alloc_Stats
begin

text \<open>
  The system layer of \<^verbatim>\<open>crates/gusset/src/pool/sys.rs\<close>: Rust-owned buffers over the \<open>System\<close>
  allocator, the completion write with its short-write handling, the checks and mode changes
  on the completion descriptor, the signal mask and stacks of a worker's thread, and the vector kernel. The kernel
  and the allocator are outside the sources: their answers are arguments (a script of \<open>write\<close>
  results, the value of each \<open>fcntl\<close>, an allocator \<open>sa\<close>), and what the code relies on is a
  named predicate on them.
\<close>

subsection \<open>Buffers\<close>

definition MAX_BUFFER_BYTES :: nat where
  "MAX_BUFFER_BYTES = 2 ^ 30"

definition check_buffer_len :: "nat \<Rightarrow> rstr + unit" where
  "check_buffer_len len =
     (if len = 0 then Inl (lit ''buffer length must be greater than zero'')
      else if len > MAX_BUFFER_BYTES
      then Inl (lit ''buffer length '' @ show_nat len @ lit '' exceeds maximum ''
                @ show_nat MAX_BUFFER_BYTES @ lit '' bytes'')
      else Inr ())"

record RawBuffer =
  rb_ptr :: nat
  rb_len :: nat
  rb_layout :: Layout

text \<open>
  Buffer memory: the blocks \<open>System\<close> has handed out, by address, with their bytes, and the
  accounting state.
\<close>

record mem =
  blocks :: "nat \<rightharpoonup> bytes"
  acct :: alloc_state

text \<open>
  The \<open>System\<close> allocator: \<open>sa_alloc\<close> gives the address of a new block of the asked size, or
  \<open>None\<close> for null; \<open>sa_junk\<close> the contents of a block that is not zeroed.
\<close>

record sys_alloc =
  sa_alloc :: "(nat \<rightharpoonup> bytes) \<Rightarrow> nat \<Rightarrow> nat option"
  sa_junk :: "nat \<Rightarrow> nat \<Rightarrow> bytes"

text \<open>What an allocator promises: a non-null, aligned address of no live block, of the asked size.\<close>

definition sys_alloc_ok :: "sys_alloc \<Rightarrow> bool" where
  "sys_alloc_ok sa \<longleftrightarrow>
     (\<forall>bl n p. sa_alloc sa bl n = Some p \<longrightarrow> p \<noteq> 0 \<and> p mod BUFFER_ALIGN = 0 \<and> bl p = None)
     \<and> (\<forall>p n. length (sa_junk sa p n) = n)"

definition allocate_with ::
    "sys_alloc \<Rightarrow> nat \<Rightarrow> bool \<Rightarrow> mem \<Rightarrow> (rstr + RawBuffer) \<times> mem" where
  "allocate_with sa len zeroed m =
     (case check_buffer_len len of
        Inl e \<Rightarrow> (Inl e, m)
      | Inr _ \<Rightarrow>
          (case layout_from_size_align len BUFFER_ALIGN of
             None \<Rightarrow> (Inl (lit ''invalid layout: invalid parameters to Layout::from_size_align''), m)
           | Some l \<Rightarrow>
               (case sa_alloc sa (blocks m) len of
                  None \<Rightarrow> (Inl (lit ''allocation failed''), m)
                | Some p \<Rightarrow>
                    (Inr \<lparr>rb_ptr = p, rb_len = len, rb_layout = l\<rparr>,
                     m\<lparr>blocks := (blocks m)(p \<mapsto> (if zeroed then replicate len 0 else sa_junk sa p len)),
                       acct := count_buffer_alloc (of_nat len) (acct m)\<rparr>))))"

definition rb_allocate :: "sys_alloc \<Rightarrow> nat \<Rightarrow> mem \<Rightarrow> (rstr + RawBuffer) \<times> mem" where
  "rb_allocate sa len m = allocate_with sa len True m"

text \<open>\<open>copy_nonoverlapping\<close> over the first bytes of a block.\<close>

definition copy_into :: "nat \<Rightarrow> bytes \<Rightarrow> mem \<Rightarrow> mem" where
  "copy_into p src m =
     (case blocks m p of
        None \<Rightarrow> m
      | Some old \<Rightarrow> m\<lparr>blocks := (blocks m)(p \<mapsto> src @ drop (length src) old)\<rparr>)"

definition rb_from_bytes :: "sys_alloc \<Rightarrow> bytes \<Rightarrow> mem \<Rightarrow> (rstr + RawBuffer) \<times> mem" where
  "rb_from_bytes sa src m =
     (case allocate_with sa (length src) False m of
        (Inl e, m1) \<Rightarrow> (Inl e, m1)
      | (Inr buf, m1) \<Rightarrow> (Inr buf, copy_into (rb_ptr buf) src m1))"

text \<open>A \<open>Vec<u8, BufferAlloc>\<close>: its block, length and capacity.\<close>

record buffer_vec =
  bv_ptr :: nat
  bv_len :: nat
  bv_cap :: nat

definition rb_adopt :: "buffer_vec \<Rightarrow> buffer_vec + RawBuffer" where
  "rb_adopt v =
     (if bv_len v = 0 \<or> bv_len v > MAX_BUFFER_BYTES \<or> bv_cap v > MAX_BUFFER_BYTES then Inl v
      else if bv_ptr v mod BUFFER_ALIGN \<noteq> 0 then Inl v
      else case layout_from_size_align (bv_cap v) BUFFER_ALIGN of
             None \<Rightarrow> Inl v
           | Some l \<Rightarrow> Inr \<lparr>rb_ptr = bv_ptr v, rb_len = bv_len v, rb_layout = l\<rparr>)"

definition rb_as_slice :: "mem \<Rightarrow> RawBuffer \<Rightarrow> bytes" where
  "rb_as_slice m buf = (case blocks m (rb_ptr buf) of Some bs \<Rightarrow> take (rb_len buf) bs | None \<Rightarrow> [])"

definition rb_drop :: "RawBuffer \<Rightarrow> mem \<Rightarrow> mem" where
  "rb_drop buf m =
     (if rb_ptr buf \<noteq> 0
      then m\<lparr>blocks := (blocks m)(rb_ptr buf := None),
             acct := count_buffer_dealloc (of_nat (lay_size (rb_layout buf))) (acct m)\<rparr>
      else m)"

subsection \<open>Writing a completion record\<close>

datatype io_error =
    WouldBlock
  | TimedOut
  | WriteZero
  | InvalidInput
  | NotConnected
  | OsError nat

text \<open>
  One \<open>write(2)\<close>: how many bytes it took, or its errno. A full pipe carries the two clock
  readings the loop makes there: when the stall is noted, and when its age is measured.
\<close>

datatype write_ret =
    Wrote nat
  | EIntr
  | EAgain instant instant
  | EOther nat

datatype pause = YieldNow | SleepNs nat

definition WRITE_TICKET_MAX_BACKOFF :: nat where
  "WRITE_TICKET_MAX_BACKOFF = 8000000"

definition TORN_WRITE_DEADLINE :: nat where
  "TORN_WRITE_DEADLINE = 2000000000"

text \<open>
  The loop's local variables. \<open>wl_sent\<close> and \<open>wl_pauses\<close> record its effects: the bytes the
  kernel accepted, and the pauses taken.
\<close>

record write_loop =
  wl_remaining :: bytes
  wl_committed :: bool
  wl_stalled :: "instant option"
  wl_backoff :: nat
  wl_sent :: bytes
  wl_pauses :: "pause list"

text \<open>
  The loop run against a script of kernel answers, one per \<open>write\<close>. \<open>None\<close> for the result is
  a call still running when the script ends. (\<open>write(2)\<close> takes at most what it was offered, so
  the slice \<open>remaining[n..]\<close> is in range.)
\<close>

fun write_record_loop :: "write_ret list \<Rightarrow> write_loop \<Rightarrow> (io_error + unit) option \<times> write_loop" where
  "write_record_loop script s =
     (if wl_remaining s = [] then (Some (Inr ()), s)
      else case script of
        [] \<Rightarrow> (None, s)
      | EIntr # rest \<Rightarrow> write_record_loop rest s
      | EOther e # rest \<Rightarrow> (Some (Inl (OsError e)), s)
      | EAgain t0 t1 # rest \<Rightarrow>
          if \<not> wl_committed s then (Some (Inl WouldBlock), s)
          else let since = (case wl_stalled s of Some t \<Rightarrow> t | None \<Rightarrow> t0);
                   s1 = s\<lparr>wl_stalled := Some since\<rparr>
               in if t1 - since \<ge> TORN_WRITE_DEADLINE then (Some (Inl TimedOut), s1)
                  else if wl_backoff s1 = 0
                  then write_record_loop rest
                         (s1\<lparr>wl_backoff := 50000, wl_pauses := wl_pauses s1 @ [YieldNow]\<rparr>)
                  else write_record_loop rest
                         (s1\<lparr>wl_backoff := min (wl_backoff s1 * 2) WRITE_TICKET_MAX_BACKOFF,
                             wl_pauses := wl_pauses s1 @ [SleepNs (wl_backoff s1)]\<rparr>)
      | Wrote n # rest \<Rightarrow>
          if n = 0 then (Some (Inl WriteZero), s)
          else write_record_loop rest
                 (s\<lparr>wl_committed := True, wl_stalled := None, wl_backoff := 0,
                    wl_sent := wl_sent s @ take n (wl_remaining s),
                    wl_remaining := drop n (wl_remaining s)\<rparr>))"

declare write_record_loop.simps [simp del]

definition write_loop_start :: "bytes \<Rightarrow> write_loop" where
  "write_loop_start bs =
     \<lparr>wl_remaining = bs, wl_committed = False, wl_stalled = None, wl_backoff = 0,
      wl_sent = [], wl_pauses = []\<rparr>"

definition write_record_attempt ::
    "int \<Rightarrow> bytes \<Rightarrow> write_ret list \<Rightarrow> (io_error + unit) option \<times> write_loop" where
  "write_record_attempt fd bs script =
     (if fd < 0 then (Some (Inl InvalidInput), write_loop_start bs)
      else write_record_loop script (write_loop_start bs))"

text \<open>
  On a pipe, a write of at most \<open>PIPE_BUF\<close> bytes is all or nothing, so no answer accepts
  a strict part of what was offered.
\<close>

definition pipe_atomic :: "nat \<Rightarrow> write_ret list \<Rightarrow> bool" where
  "pipe_atomic n script \<longleftrightarrow> (\<forall>k. Wrote k \<in> set script \<longrightarrow> k = n)"

subsection \<open>The completion descriptor\<close>

text \<open>
  \<open>getsz\<close> is what \<open>F_GETPIPE_SZ\<close> returned, \<open>setsz_ok\<close> whether \<open>F_SETPIPE_SZ\<close> succeeded,
  \<open>os_err\<close> the text of the last OS error.
\<close>

definition ensure_pipe_capacity :: "bool \<Rightarrow> int \<Rightarrow> bool \<Rightarrow> rstr \<Rightarrow> nat \<Rightarrow> rstr + unit" where
  "ensure_pipe_capacity linux getsz setsz_ok os_err n =
     (if linux
      then if getsz < 0 \<or> int n \<le> getsz then Inr ()
           else if n > 2 ^ 31 - 1
           then Inl (lit ''completion pipe capacity '' @ show_nat n @ lit '' is not representable'')
           else if \<not> setsz_ok
           then Inl (lit ''completion pipe holds '' @ show_int getsz @ lit '' bytes but this pool needs ''
                     @ show_nat n @ lit '' for its unread tickets, and growing it failed: '' @ os_err
                     @ lit '' (lower the pool size or raise /proc/sys/fs/pipe-user-pages-soft)'')
           else Inr ()
      else Inr ())"

definition O_ACCMODE :: u32 where "O_ACCMODE = 3"
definition O_WRONLY :: u32 where "O_WRONLY = 1"
definition O_RDWR :: u32 where "O_RDWR = 2"
definition S_IFMT :: u32 where "S_IFMT = 0xF000"
definition S_IFIFO :: u32 where "S_IFIFO = 0x1000"

text \<open>\<open>getfl\<close> and \<open>fstat\<close> are the kernel's answers: an errno, or the flags or mode.\<close>

definition check_pipe_write_end :: "int \<Rightarrow> nat + u32 \<Rightarrow> nat + u32 \<Rightarrow> io_error + unit" where
  "check_pipe_write_end fd getfl fstat =
     (if fd < 0 then Inl InvalidInput
      else case getfl of
        Inl e \<Rightarrow> Inl (OsError e)
      | Inr fl \<Rightarrow>
          (case fstat of
             Inl e \<Rightarrow> Inl (OsError e)
           | Inr mode \<Rightarrow>
               if mode AND S_IFMT \<noteq> S_IFIFO then Inl InvalidInput
               else let access = fl AND O_ACCMODE
                    in if access \<noteq> O_WRONLY \<and> access \<noteq> O_RDWR then Inl InvalidInput
                       else Inr ()))"

text \<open>A descriptor's status flags and, on Apple, its no-SIGPIPE mark.\<close>

record fd_state =
  fd_flags :: u32
  fd_nosigpipe :: bool

definition O_NONBLOCK :: "bool \<Rightarrow> u32" where
  "O_NONBLOCK apple = (if apple then 4 else 0x800)"

text \<open>
  \<open>fails\<close> says which of the up to four \<open>fcntl\<close> calls fail, in order: \<open>F_GETFL\<close>, the
  \<open>F_SETFL\<close> that adds \<open>O_NONBLOCK\<close>, \<open>F_SETNOSIGPIPE\<close> (Apple), the \<open>F_SETFL\<close> that restores.
  An error is the number of the call that is reported, and whether the restore failed too.
\<close>

definition set_nonblocking_with ::
    "bool \<Rightarrow> (nat \<Rightarrow> bool) \<Rightarrow> int \<Rightarrow> fd_state \<Rightarrow> ((nat \<times> bool) option) \<times> fd_state" where
  "set_nonblocking_with apple fails fd st =
     (if fd < 0 then (Some (0, False), st)
      else if fails 1 then (Some (1, False), st)
      else let fl = fd_flags st in
        if fails 2 then (Some (2, False), st)
        else let st1 = st\<lparr>fd_flags := fl OR O_NONBLOCK apple\<rparr> in
          if apple
          then if fails 3
               then if fails 4 then (Some (3, True), st1)
                    else (Some (3, False), st1\<lparr>fd_flags := fl\<rparr>)
               else (None, st1\<lparr>fd_nosigpipe := True\<rparr>)
          else (None, st1))"

text \<open>\<open>close_fd_with\<close> hands the supplied close at most one descriptor: the list of its calls.\<close>

definition close_fd_with :: "int \<Rightarrow> int list" where
  "close_fd_with fd = (if fd \<ge> 0 then [fd] else [])"

subsection \<open>A worker's thread\<close>

text \<open>The set with SIGPIPE alone goes to \<open>pthread_sigmask\<close>, whose answer is \<open>rc\<close>: the calling thread's mask grows by it
  when the call succeeds, and no other thread's does.\<close>

definition SIGPIPE :: int where "SIGPIPE = 13"

definition block_sigpipe_on_this_thread :: "int \<Rightarrow> int list \<Rightarrow> bool \<times> int list" where
  "block_sigpipe_on_this_thread rc blocked =
     (let sigs = [SIGPIPE] in (rc = 0, if rc = 0 then List.union blocked sigs else blocked))"

text \<open>What the thread library answers: on Apple the size alone; elsewhere the attributes, which have to be destroyed
  once they were read, and the size in them. The second component counts the attributes left alive.\<close>

definition current_thread_stack_size :: "bool \<Rightarrow> int \<Rightarrow> int \<Rightarrow> nat \<Rightarrow> nat option \<times> nat" where
  "current_thread_stack_size apple getattr_rc getstacksize_rc stack =
     (if apple then (if stack = 0 then None else Some stack, 0)
      else if getattr_rc \<noteq> 0 then (None, 0)
      else let attrs = 1; attrs1 = attrs - 1 in (if getstacksize_rc \<noteq> 0 \<or> stack = 0 then None else Some stack, attrs1))"

lemma block_sigpipe_masks:
  "block_sigpipe_on_this_thread rc blocked = (b, blocked') \<Longrightarrow> (b \<longleftrightarrow> rc = 0) \<and> (b \<longrightarrow> set blocked' = insert SIGPIPE (set blocked)) \<and> (\<not> b \<longrightarrow> blocked' = blocked)"
  by (auto simp: block_sigpipe_on_this_thread_def split: if_splits)

lemma stack_size_positive:
  "current_thread_stack_size apple a g n = (r, left_open) \<Longrightarrow> left_open = 0 \<and> (\<forall>k. r = Some k \<longrightarrow> k = n \<and> 0 < k)"
  by (auto simp: current_thread_stack_size_def split: if_splits)

subsection \<open>The alternate signal stack\<close>

definition SIGALTSTACK_MIN :: nat where
  "SIGALTSTACK_MIN = 64 * 1024"

definition usize_sat :: "nat \<Rightarrow> nat" where
  "usize_sat n = min n (2 ^ 64 - 1)"

text \<open>Linux reports the kernel's minimum (\<open>AT_MINSIGSTKSZ\<close>); elsewhere \<open>SIGSTKSZ\<close> is compiled in.\<close>

definition sigaltstack_size :: "bool \<Rightarrow> nat \<Rightarrow> nat" where
  "sigaltstack_size linux m =
     (if linux then max (max SIGALTSTACK_MIN (usize_sat (m * 4))) (usize_sat (m + 32 * 1024))
      else max SIGALTSTACK_MIN m)"

text \<open>
  \<open>install_sigaltstack\<close>: the answers of \<open>sysconf\<close>, \<open>mmap\<close>, \<open>mprotect\<close> and \<open>sigaltstack\<close> are
  arguments. The result is the guard (base and length of the mapping) with the base and size
  given to the kernel; \<open>unmapped\<close> is whether a failure released the mapping.
\<close>

record altstack =
  as_map_base :: nat
  as_map_len :: nat
  as_sp :: nat
  as_size :: nat

definition install_sigaltstack ::
    "nat \<Rightarrow> int \<Rightarrow> nat option \<Rightarrow> bool \<Rightarrow> bool \<Rightarrow> altstack option \<times> bool" where
  "install_sigaltstack want pagesz mmap mprotect_ok sigaltstack_ok =
     (let page = (if pagesz > 0 then nat pagesz else 4096);
          stack_size = (want + page - 1) div page * page;
          map_len = stack_size + page
      in case mmap of
           None \<Rightarrow> (None, False)
         | Some base \<Rightarrow>
             if \<not> mprotect_ok then (None, True)
             else if \<not> sigaltstack_ok then (None, True)
             else (Some \<lparr>as_map_base = base, as_map_len = map_len,
                         as_sp = base + page, as_size = stack_size\<rparr>, False))"

text \<open>
  \<open>SigAltStackGuard::drop\<close>: whether the mapping is released. \<open>disabled\<close> and \<open>readback\<close> are the
  two \<open>sigaltstack\<close> calls' successes, \<open>cur_sp\<close> and \<open>cur_disabled\<close> what the kernel reports now.
\<close>

definition sig_guard_unmaps :: "nat \<Rightarrow> nat \<Rightarrow> bool \<Rightarrow> bool \<Rightarrow> nat \<Rightarrow> bool \<Rightarrow> bool" where
  "sig_guard_unmaps map_base map_len disabled readback cur_sp cur_disabled =
     (if map_base \<noteq> 0
      then let ours = (cur_sp \<ge> map_base \<and> cur_sp < map_base + map_len);
               still_installed = (readback \<and> \<not> cur_disabled \<and> ours)
           in disabled \<and> readback \<and> \<not> still_installed
      else False)"

subsection \<open>The vector kernel\<close>

definition sum_squares_portable :: "bytes \<Rightarrow> u32" where
  "sum_squares_portable chunk = sum_list (map (\<lambda>b. (ucast b :: u32) * ucast b) chunk)"

definition sum_squares_avx2 :: "bytes \<Rightarrow> u32" where
  "sum_squares_avx2 chunk = sum_squares_portable chunk"

definition sum_squares_avx512 :: "bytes \<Rightarrow> u32" where
  "sum_squares_avx512 chunk = sum_squares_portable chunk"

text \<open>\<open>avx512bw\<close> and \<open>avx2\<close> are what the CPU reports (both false off x86-64).\<close>

definition sum_squares_chunk :: "bool \<Rightarrow> bool \<Rightarrow> bytes \<Rightarrow> u32" where
  "sum_squares_chunk avx512bw avx2 chunk =
     (if avx512bw then sum_squares_avx512 chunk
      else if avx2 then sum_squares_avx2 chunk
      else sum_squares_portable chunk)"

subsection \<open>Lemmas: buffers\<close>

lemma layout_buffer_ok: "n \<le> MAX_BUFFER_BYTES \<Longrightarrow>
    layout_from_size_align n BUFFER_ALIGN = Some \<lparr>lay_size = n, lay_align = BUFFER_ALIGN\<rparr>"
  by (simp add: layout_from_size_align_def BUFFER_ALIGN_def MAX_BUFFER_BYTES_def ISIZE_MAX_def)

lemma check_buffer_len_Inr: "check_buffer_len n = Inr u \<longleftrightarrow> 0 < n \<and> n \<le> MAX_BUFFER_BYTES"
  by (auto simp: check_buffer_len_def)

lemma allocate_with_Inr:
  assumes "allocate_with sa n z m = (Inr buf, m')"
  shows "0 < n \<and> n \<le> MAX_BUFFER_BYTES \<and> sa_alloc sa (blocks m) n = Some (rb_ptr buf)
    \<and> rb_len buf = n \<and> rb_layout buf = \<lparr>lay_size = n, lay_align = BUFFER_ALIGN\<rparr>
    \<and> m' = m\<lparr>blocks := (blocks m)(rb_ptr buf \<mapsto> (if z then replicate n 0 else sa_junk sa (rb_ptr buf) n)),
             acct := count_buffer_alloc (of_nat n) (acct m)\<rparr>"
proof -
  from assms have n: "0 < n" "n \<le> MAX_BUFFER_BYTES"
    by (auto simp: allocate_with_def check_buffer_len_def split: sum.splits if_splits)
  then have chk: "check_buffer_len n = Inr ()" by (simp add: check_buffer_len_def)
  from assms n chk show ?thesis
    by (auto simp: allocate_with_def layout_buffer_ok split: option.splits)
qed

lemma allocate_with_Inl: "allocate_with sa n z m = (Inl e, m') \<Longrightarrow> m' = m"
  by (auto simp: allocate_with_def split: sum.splits option.splits)

lemma rb_from_bytes_Inr:
  assumes ok: "sys_alloc_ok sa" and r: "rb_from_bytes sa src m = (Inr buf, m')"
  shows "0 < length src \<and> length src \<le> MAX_BUFFER_BYTES
    \<and> sa_alloc sa (blocks m) (length src) = Some (rb_ptr buf) \<and> rb_len buf = length src
    \<and> rb_layout buf = \<lparr>lay_size = length src, lay_align = BUFFER_ALIGN\<rparr>
    \<and> m' = m\<lparr>blocks := (blocks m)(rb_ptr buf \<mapsto> src),
             acct := count_buffer_alloc (of_nat (length src)) (acct m)\<rparr>"
proof -
  from r obtain m1 where a: "allocate_with sa (length src) False m = (Inr buf, m1)"
    and m': "m' = copy_into (rb_ptr buf) src m1"
    by (auto simp: rb_from_bytes_def split: prod.splits sum.splits)
  have "length (sa_junk sa (rb_ptr buf) (length src)) = length src"
    using ok by (simp add: sys_alloc_ok_def)
  with allocate_with_Inr [OF a] m' show ?thesis by (auto simp: copy_into_def)
qed

lemma rb_from_bytes_Inl: "rb_from_bytes sa src m = (Inl e, m') \<Longrightarrow> m' = m"
  by (auto simp: rb_from_bytes_def dest: allocate_with_Inl split: prod.splits sum.splits)

lemma unat_of_nat_u64: "n < 2 ^ 64 \<Longrightarrow> unat (of_nat n :: u64) = n"
  by (simp add: unat_of_nat)

text \<open>Counting a buffer in and out again leaves the live total where it was.\<close>

lemma buffer_count_balanced:
  assumes n: "n \<le> MAX_BUFFER_BYTES" and room: "unat (live (counters st)) + n < unat SATURATED"
  shows "live (counters (count_buffer_dealloc (of_nat n) (count_buffer_alloc (of_nat n) st)))
    = live (counters st)"
proof (rule word_unat_eq_iff [THEN iffD2])
  have un: "unat (of_nat n :: u64) = n" using n by (intro unat_of_nat_u64) (simp add: MAX_BUFFER_BYTES_def)
  show "unat (live (counters (count_buffer_dealloc (of_nat n) (count_buffer_alloc (of_nat n) st))))
    = unat (live (counters st))"
    using room un
    by (auto simp: count_buffer_dealloc_def count_buffer_alloc_def unat_saturating_sub live_add_live_exact)
qed

subsection \<open>Lemmas: the record write\<close>

lemma write_loop_done: "wl_remaining s = [] \<Longrightarrow> write_record_loop script s = (Some (Inr ()), s)"
  by (subst write_record_loop.simps) simp

lemma write_loop_nil: "wl_remaining s \<noteq> [] \<Longrightarrow> write_record_loop [] s = (None, s)"
  by (subst write_record_loop.simps) simp

lemma write_loop_intr: "wl_remaining s \<noteq> [] \<Longrightarrow> write_record_loop (EIntr # rest) s = write_record_loop rest s"
  by (subst write_record_loop.simps) simp

lemma write_loop_other: "wl_remaining s \<noteq> [] \<Longrightarrow>
    write_record_loop (EOther e # rest) s = (Some (Inl (OsError e)), s)"
  by (subst write_record_loop.simps) simp

lemma write_loop_wrote: "wl_remaining s \<noteq> [] \<Longrightarrow>
    write_record_loop (Wrote n # rest) s =
      (if n = 0 then (Some (Inl WriteZero), s)
       else write_record_loop rest
              (s\<lparr>wl_committed := True, wl_stalled := None, wl_backoff := 0,
                 wl_sent := wl_sent s @ take n (wl_remaining s),
                 wl_remaining := drop n (wl_remaining s)\<rparr>))"
  by (subst write_record_loop.simps) simp

lemma write_loop_again: "wl_remaining s \<noteq> [] \<Longrightarrow> wl_committed s \<Longrightarrow>
    write_record_loop (EAgain t0 t1 # rest) s =
      (let since = (case wl_stalled s of Some t \<Rightarrow> t | None \<Rightarrow> t0);
           s1 = s\<lparr>wl_stalled := Some since\<rparr>
       in if t1 - since \<ge> TORN_WRITE_DEADLINE then (Some (Inl TimedOut), s1)
          else write_record_loop rest
             (s1\<lparr>wl_backoff := (if wl_backoff s = 0 then 50000
                               else min (wl_backoff s * 2) WRITE_TICKET_MAX_BACKOFF),
                wl_pauses := wl_pauses s @ [if wl_backoff s = 0 then YieldNow else SleepNs (wl_backoff s)]\<rparr>))"
  by (subst write_record_loop.simps) (simp add: Let_def)

lemma write_loop_full: "wl_remaining s \<noteq> [] \<Longrightarrow> \<not> wl_committed s \<Longrightarrow>
    write_record_loop (EAgain t0 t1 # rest) s = (Some (Inl WouldBlock), s)"
  by (subst write_record_loop.simps) simp

lemmas write_loop_eqs = write_loop_done write_loop_nil write_loop_intr write_loop_other
  write_loop_wrote write_loop_again write_loop_full

definition write_inv :: "bytes \<Rightarrow> write_loop \<Rightarrow> bool" where
  "write_inv bs s \<longleftrightarrow> wl_sent s @ wl_remaining s = bs \<and> (wl_committed s \<longleftrightarrow> wl_sent s \<noteq> [])
     \<and> wl_backoff s \<le> WRITE_TICKET_MAX_BACKOFF
     \<and> (\<forall>n. SleepNs n \<in> set (wl_pauses s) \<longrightarrow> n \<le> WRITE_TICKET_MAX_BACKOFF)"

lemma write_inv_start: "write_inv bs (write_loop_start bs)"
  by (simp add: write_inv_def write_loop_start_def)

lemma write_inv_wrote:
  "write_inv bs s \<Longrightarrow> wl_remaining s \<noteq> [] \<Longrightarrow> n \<noteq> 0 \<Longrightarrow>
     write_inv bs (s\<lparr>wl_committed := True, wl_stalled := None, wl_backoff := 0,
       wl_sent := wl_sent s @ take n (wl_remaining s), wl_remaining := drop n (wl_remaining s)\<rparr>)"
  by (auto simp: write_inv_def)

lemma write_inv_stalled: "write_inv bs s \<Longrightarrow> write_inv bs (s\<lparr>wl_stalled := x\<rparr>)"
  by (simp add: write_inv_def)

lemma write_inv_again:
  "write_inv bs s \<Longrightarrow>
     write_inv bs (s\<lparr>wl_stalled := x, wl_backoff := (if wl_backoff s = 0 then 50000
         else min (wl_backoff s * 2) WRITE_TICKET_MAX_BACKOFF),
       wl_pauses := wl_pauses s @ [if wl_backoff s = 0 then YieldNow else SleepNs (wl_backoff s)]\<rparr>)"
  by (auto simp: write_inv_def WRITE_TICKET_MAX_BACKOFF_def split: if_splits)

text \<open>
  What every outcome of the loop guarantees, from one induction over the kernel's script: the
  invariant, the whole record on success, and nothing sent on \<open>WouldBlock\<close>.
\<close>

lemma write_record_loop_spec:
  "write_inv bs s \<Longrightarrow> write_record_loop script s = (r, s') \<Longrightarrow>
     write_inv bs s' \<and> (r = Some (Inr ()) \<longrightarrow> wl_sent s' = bs)
     \<and> (r = Some (Inl WouldBlock) \<longrightarrow> wl_sent s' = [])"
proof (induction script arbitrary: s)
  case Nil
  then show ?case by (cases "wl_remaining s = []") (auto simp: write_loop_eqs write_inv_def)
next
  case (Cons k rest)
  show ?case
  proof (cases "wl_remaining s = []")
    case True
    with Cons.prems show ?thesis by (auto simp: write_loop_eqs write_inv_def)
  next
    case rem: False
    show ?thesis
    proof (cases k)
      case (Wrote n)
      with Cons rem write_inv_wrote [OF Cons.prems(1) rem, of n] show ?thesis
        by (auto simp: write_loop_eqs split: if_splits)
    next
      case EIntr
      with Cons rem show ?thesis by (auto simp: write_loop_eqs)
    next
      case (EOther e)
      with Cons.prems rem show ?thesis by (auto simp: write_loop_eqs)
    next
      case (EAgain t0 t1)
      show ?thesis
      proof (cases "wl_committed s")
        case True
        with EAgain Cons rem write_inv_again [OF Cons.prems(1)] write_inv_stalled [OF Cons.prems(1)]
        show ?thesis by (auto simp: write_loop_eqs Let_def split: if_splits)
      next
        case False
        with EAgain Cons.prems rem show ?thesis by (auto simp: write_loop_eqs write_inv_def)
      qed
    qed
  qed
qed

text \<open>On a pipe, the first write that accepts anything accepts the whole record.\<close>

lemma write_record_loop_atomic:
  "pipe_atomic (length bs) script \<Longrightarrow> wl_remaining s = bs \<Longrightarrow> \<not> wl_committed s \<Longrightarrow> bs \<noteq> [] \<Longrightarrow>
     write_record_loop script s = (Some r, s') \<Longrightarrow>
     r \<noteq> Inl TimedOut \<and> (wl_sent s' = wl_sent s @ bs \<and> r = Inr () \<or> wl_sent s' = wl_sent s)"
proof (induction script arbitrary: s)
  case Nil
  then show ?case by (auto simp: write_loop_eqs)
next
  case (Cons k rest)
  then have rest: "pipe_atomic (length bs) rest" by (auto simp: pipe_atomic_def)
  show ?case
  proof (cases k)
    case (Wrote n)
    with Cons.prems have "n = length bs" by (auto simp: pipe_atomic_def)
    with Wrote Cons.prems show ?thesis by (auto simp: write_loop_eqs)
  next
    case EIntr
    with Cons.IH [OF rest] Cons.prems show ?thesis by (auto simp: write_loop_eqs)
  qed (use Cons.prems in \<open>auto simp: write_loop_eqs\<close>)
qed

subsection \<open>Properties\<close>

text \<open>A completion record is never duplicated or interleaved by the write path. Whatever the
  kernel answers, the bytes it accepted are a prefix of the record; success means the whole
  record was accepted and "would block" that nothing was, so the caller may retry from the start;
  no backoff sleep exceeds 8 ms; and on a pipe (where a short record is all or nothing) the record
  is never reported torn and is written entirely or not at all.\<close>

theorem write_record_framing:
  assumes "write_record_attempt fd bs script = (Some r, s)"
  shows "wl_sent s @ wl_remaining s = bs \<and> (r = Inr () \<longrightarrow> wl_sent s = bs)
    \<and> (r = Inl WouldBlock \<longrightarrow> wl_sent s = [])
    \<and> (\<forall>n. SleepNs n \<in> set (wl_pauses s) \<longrightarrow> n \<le> 8000000)
    \<and> (pipe_atomic (length bs) script \<and> bs \<noteq> [] \<longrightarrow>
         r \<noteq> Inl TimedOut \<and> (wl_sent s = bs \<and> r = Inr () \<or> wl_sent s = []))"
proof (cases "fd < 0")
  case True
  with assms show ?thesis by (auto simp: write_record_attempt_def write_loop_start_def)
next
  case False
  then have run: "write_record_loop script (write_loop_start bs) = (Some r, s)"
    using assms by (simp add: write_record_attempt_def)
  from write_record_loop_spec [OF write_inv_start run] have
    "write_inv bs s" "r = Inr () \<longrightarrow> wl_sent s = bs" "r = Inl WouldBlock \<longrightarrow> wl_sent s = []" by auto
  with write_record_loop_atomic [OF _ _ _ _ run, of bs] show ?thesis
    by (auto simp: write_inv_def WRITE_TICKET_MAX_BACKOFF_def write_loop_start_def)
qed

theorem write_record_framing_witness:
  "wl_sent (snd (write_record_attempt 5 [1, 2, 3] [EIntr, Wrote 2, EAgain 10 20, Wrote 1])) = [1, 2, 3]"
proof -
  have "write_record_attempt 5 [1, 2, 3] [EIntr, Wrote 2, EAgain 10 20, Wrote 1] =
    (Some (Inr ()), snd (write_record_attempt 5 [1, 2, 3] [EIntr, Wrote 2, EAgain 10 20, Wrote 1]))"
    by (simp add: write_record_attempt_def write_loop_start_def write_loop_eqs TORN_WRITE_DEADLINE_def)
  from write_record_framing [OF this] show ?thesis by simp
qed

text \<open>A buffer holds exactly the bytes it was made from: \<open>RawBuffer::from_bytes\<close> yields a
  64-byte-aligned block of that length with those bytes and touches no other block, and dropping
  the buffer releases the block and takes exactly its size off the live total again.\<close>

theorem buffer_roundtrip:
  assumes "sys_alloc_ok sa" and "rb_from_bytes sa src m = (Inr buf, m')"
    and "unat (live (counters (acct m))) + length src < unat SATURATED"
  shows "rb_as_slice m' buf = src \<and> rb_len buf = length src \<and> rb_ptr buf mod 64 = 0
    \<and> (\<forall>p. p \<noteq> rb_ptr buf \<longrightarrow> blocks m' p = blocks m p)
    \<and> blocks (rb_drop buf m') = blocks m
    \<and> live (counters (acct (rb_drop buf m'))) = live (counters (acct m))"
proof -
  note r = rb_from_bytes_Inr [OF assms(1,2)]
  from r assms(1) have p: "rb_ptr buf \<noteq> 0" "rb_ptr buf mod 64 = 0" "blocks m (rb_ptr buf) = None"
    by (auto simp: sys_alloc_ok_def BUFFER_ALIGN_def)
  have "(blocks m)(rb_ptr buf := None) = blocks m" using p(3) by auto
  with r p buffer_count_balanced [OF _ assms(3)] show ?thesis
    by (auto simp: rb_as_slice_def rb_drop_def)
qed

definition bump_alloc :: sys_alloc where
  "bump_alloc = \<lparr>sa_alloc = (\<lambda>bl n. if bl 64 = None then Some 64 else None),
                 sa_junk = (\<lambda>p n. replicate n 0)\<rparr>"

lemma bump_alloc_ok: "sys_alloc_ok bump_alloc"
  by (simp add: sys_alloc_ok_def bump_alloc_def BUFFER_ALIGN_def)

theorem buffer_roundtrip_witness:
  "rb_as_slice (snd (rb_from_bytes bump_alloc [1, 2] \<lparr>blocks = Map.empty, acct = alloc_state_init\<rparr>))
     \<lparr>rb_ptr = 64, rb_len = 2, rb_layout = \<lparr>lay_size = 2, lay_align = 64\<rparr>\<rparr> = [1, 2]"
proof -
  let ?m = "\<lparr>blocks = Map.empty, acct = alloc_state_init\<rparr>"
  have run: "rb_from_bytes bump_alloc [1, 2] ?m =
    (Inr \<lparr>rb_ptr = 64, rb_len = 2, rb_layout = \<lparr>lay_size = 2, lay_align = 64\<rparr>\<rparr>,
     snd (rb_from_bytes bump_alloc [1, 2] ?m))"
    by (simp add: rb_from_bytes_def allocate_with_def check_buffer_len_def MAX_BUFFER_BYTES_def
        layout_from_size_align_def BUFFER_ALIGN_def ISIZE_MAX_def bump_alloc_def)
  show ?thesis
    using buffer_roundtrip [OF bump_alloc_ok run]
    by (simp add: alloc_state_init_def Counters_new_def usize_bounds)
qed

text \<open>Refusing to open leaves the caller's descriptor as it was: when \<open>set_nonblocking\<close> reports
  an error the status flags are unchanged, with the one documented exception of Darwin's no-SIGPIPE
  call and the restoring call both failing; on success the descriptor is non-blocking.\<close>

theorem set_nonblocking_restores:
  "case set_nonblocking_with apple fails fd st of
     (Some (call, restore_failed), st') \<Rightarrow>
       (restore_failed \<longrightarrow> apple \<and> fails 3 \<and> fails 4) \<and> (\<not> restore_failed \<longrightarrow> st' = st)
   | (None, st') \<Rightarrow> 0 \<le> fd \<and> fd_flags st' = fd_flags st OR O_NONBLOCK apple
                     \<and> fd_nosigpipe st' = (apple \<or> fd_nosigpipe st)"
  by (simp add: set_nonblocking_with_def Let_def)

theorem set_nonblocking_restores_witness:
  "snd (set_nonblocking_with True (\<lambda>n. n = 3) 7 \<lparr>fd_flags = 1, fd_nosigpipe = False\<rparr>)
     = \<lparr>fd_flags = 1, fd_nosigpipe = False\<rparr>"
  using set_nonblocking_restores [where apple = True and fails = "\<lambda>n. n = 3" and fd = 7
    and st = "\<lparr>fd_flags = 1, fd_nosigpipe = False\<rparr>"]
  by (simp add: set_nonblocking_with_def Let_def)

text \<open>A worker's alternate signal stack is usable and guarded: it is a whole number of pages, at
  least 64 KiB and at least four times the kernel's minimum frame, lies directly above a guard page
  inside the mapping, and the mapping is released on thread exit only when the kernel no longer
  points into it.\<close>

theorem sigaltstack_guarded:
  assumes "install_sigaltstack (sigaltstack_size True m) pagesz mp mprot sas = (Some g, leaked)"
    and "0 < pagesz" and "m < 2 ^ 32"
  shows "as_size g mod nat pagesz = 0 \<and> 64 * 1024 \<le> as_size g \<and> 4 * m \<le> as_size g
    \<and> as_sp g = as_map_base g + nat pagesz \<and> as_sp g + as_size g = as_map_base g + as_map_len g
    \<and> (sig_guard_unmaps (as_map_base g) (as_map_len g) disabled readback cur_sp cur_disabled \<longrightarrow>
         readback \<and> (cur_disabled \<or> cur_sp < as_map_base g \<or> as_map_base g + as_map_len g \<le> cur_sp))"
proof -
  let ?page = "nat pagesz" and ?want = "sigaltstack_size True m"
  have page: "0 < ?page" using assms(2) by simp
  have round: "?want \<le> (?want + ?page - 1) div ?page * ?page"
    using page div_mult_mod_eq [of "?want + ?page - 1" ?page] mod_less_divisor [OF page, of "?want + ?page - 1"]
    by linarith
  from assms obtain base where "g = \<lparr>as_map_base = base,
      as_map_len = (?want + ?page - 1) div ?page * ?page + ?page,
      as_sp = base + ?page, as_size = (?want + ?page - 1) div ?page * ?page\<rparr>"
    by (auto simp: install_sigaltstack_def Let_def split: option.splits if_splits)
  moreover have "64 * 1024 \<le> ?want" "4 * m \<le> ?want"
    using assms(3) by (auto simp: sigaltstack_size_def SIGALTSTACK_MIN_def usize_sat_def)
  ultimately show ?thesis using round
    by (auto simp: sig_guard_unmaps_def Let_def split: if_splits)
qed

theorem sigaltstack_guarded_witness:
  "64 * 1024 \<le> as_size (the (fst (install_sigaltstack (sigaltstack_size True 2048) 4096 (Some 4096) True True)))"
proof -
  have "install_sigaltstack (sigaltstack_size True 2048) 4096 (Some 4096) True True =
    (Some (the (fst (install_sigaltstack (sigaltstack_size True 2048) 4096 (Some 4096) True True))), False)"
    by (simp add: install_sigaltstack_def sigaltstack_size_def SIGALTSTACK_MIN_def usize_sat_def Let_def)
  from sigaltstack_guarded [OF this] show ?thesis by simp
qed

text \<open>The chunk kernel is exact on every CPU: for at most 4096 bytes the 32-bit sum of squares
  never overflows, and the AVX-512, AVX2 and portable versions agree.\<close>

lemma sum_squares_chunk_exact:
  assumes "length chunk \<le> 4096"
  shows "unat (sum_squares_chunk avx512bw avx2 chunk) = (\<Sum>b\<leftarrow>chunk. unat b * unat b)"
proof -
  have sq: "unat b * unat b \<le> 65025" for b :: u8
    using u8_bound [of b] mult_le_mono [of "unat b" 255 "unat b" 255] by simp
  have "(\<Sum>b\<leftarrow>chunk. unat b * unat b) \<le> length chunk * 65025
      \<and> unat (sum_squares_portable chunk) = (\<Sum>b\<leftarrow>chunk. unat b * unat b)"
    using assms
  proof (induction chunk)
    case (Cons b bs)
    have up: "unat ((ucast b :: u32) * ucast b) = unat b * unat b"
    proof -
      have "unat (ucast b :: u32) = unat b"
        using u8_bound [of b] by (simp add: unsigned_ucast_eq take_bit_nat_eq_self)
      with sq [of b] show ?thesis by (simp add: unat_word_ariths)
    qed
    from Cons up sq [of b] show ?case
      by (simp add: sum_squares_portable_def unat_word_ariths)
  qed (simp add: sum_squares_portable_def)
  then show ?thesis
    by (simp add: sum_squares_chunk_def sum_squares_avx2_def sum_squares_avx512_def)
qed

end
