(* ===== verification/Status.thy ===== *)
theory Status
  imports Gusset_Base
begin

text \<open>
  The status struct every export fills in (\<open>ffi/status.rs\<close>). A status owns its message: a boxed
  slice on the Rust heap, handed out as \<open>(ptr, len)\<close> and released by \<open>free_msg\<close>. The part of
  the heap those boxes live in is explicit here, so that leaks, double frees and frees of the wrong
  length are visible: releasing anything that is not a live box of exactly that length is undefined
  behaviour in the code and the value \<open>None\<close> here.
\<close>

subsection \<open>Codes and the struct\<close>

definition FFI_OK :: i32 where [gusset_consts]: "FFI_OK = 0"
definition FFI_ERR :: i32 where [gusset_consts]: "FFI_ERR = 1"
definition FFI_PANIC :: i32 where [gusset_consts]: "FFI_PANIC = 2"
definition FFI_POISONED :: i32 where [gusset_consts]: "FFI_POISONED = 3"
definition FFI_BAD_ARG :: i32 where [gusset_consts]: "FFI_BAD_ARG = 4"

text \<open>
  The field names carry the prefix \<open>st_\<close>. \<open>st_msg\<close> is an address (0 is null). \<open>st_file\<close> points at a string with static lifetime, which is never
  freed, so the model keeps the string itself; \<open>None\<close> is the null pointer.
\<close>

record FfiStatus =
  st_code :: i32
  st_msg :: nat
  st_msg_len :: nat
  st_file :: "rstr option"
  st_file_len :: nat
  st_line :: u32

record box_heap =
  bx_map :: "nat \<Rightarrow> bytes option"
  bx_next :: nat

definition box_heap_ok :: "box_heap \<Rightarrow> bool" where
  "box_heap_ok h \<longleftrightarrow> 0 < bx_next h \<and> bx_map h 0 = None \<and> (\<forall>p \<ge> bx_next h. bx_map h p = None)"

definition box_heap_empty :: box_heap where
  "box_heap_empty = \<lparr>bx_map = (\<lambda>_. None), bx_next = 1\<rparr>"

text \<open>\<open>Box::into_raw\<close> of a boxed slice, and \<open>drop(Box::from_raw(..))\<close>.\<close>

definition box_into_raw :: "bytes \<Rightarrow> box_heap \<Rightarrow> nat \<times> box_heap" where
  "box_into_raw bs h =
     (bx_next h, h\<lparr>bx_map := (bx_map h)(bx_next h \<mapsto> bs), bx_next := bx_next h + 1\<rparr>)"

definition box_from_raw_drop :: "nat \<Rightarrow> nat \<Rightarrow> box_heap \<Rightarrow> box_heap option" where
  "box_from_raw_drop p n h =
     (case bx_map h p of
        Some bs \<Rightarrow> if length bs = n then Some (h\<lparr>bx_map := (bx_map h)(p := None)\<rparr>) else None
      | None \<Rightarrow> None)"

subsection \<open>Constructors and release\<close>

definition FfiStatus_ok :: FfiStatus where
  "FfiStatus_ok = \<lparr>st_code = FFI_OK, st_msg = 0, st_msg_len = 0, st_file = None, st_file_len = 0, st_line = 0\<rparr>"

definition new_err :: "i32 \<Rightarrow> bytes \<Rightarrow> rstr option \<Rightarrow> nat \<Rightarrow> u32 \<Rightarrow> box_heap \<Rightarrow> FfiStatus \<times> box_heap" where
  "new_err c m f fl ln h =
     (if m = [] then
        (\<lparr>st_code = c, st_msg = 0, st_msg_len = 0, st_file = f, st_file_len = fl, st_line = ln\<rparr>, h)
      else
        (let (p, h1) = box_into_raw m h
         in (\<lparr>st_code = c, st_msg = p, st_msg_len = length m, st_file = f, st_file_len = fl, st_line = ln\<rparr>, h1)))"

definition bad_arg :: "rstr \<Rightarrow> box_heap \<Rightarrow> FfiStatus \<times> box_heap" where
  "bad_arg m h = new_err FFI_BAD_ARG m None 0 0 h"

definition poisoned :: "rstr \<Rightarrow> box_heap \<Rightarrow> FfiStatus \<times> box_heap" where
  "poisoned m h = new_err FFI_POISONED m None 0 0 h"

definition free_msg :: "FfiStatus \<Rightarrow> box_heap \<Rightarrow> (FfiStatus \<times> box_heap) option" where
  "free_msg st h =
     (if st_msg st \<noteq> 0 \<and> 0 < st_msg_len st then
        (case box_from_raw_drop (st_msg st) (st_msg_len st) h of
           Some h1 \<Rightarrow> Some (st\<lparr>st_msg := 0, st_msg_len := 0\<rparr>, h1)
         | None \<Rightarrow> None)
      else Some (st, h))"

text \<open>\<open>overwrite(status, new)\<close>: release what the slot still owns, then write the new value.\<close>

definition overwrite :: "FfiStatus \<Rightarrow> FfiStatus \<Rightarrow> box_heap \<Rightarrow> (FfiStatus \<times> box_heap) option" where
  "overwrite slot new h =
     (case free_msg slot h of Some (_, h1) \<Rightarrow> Some (new, h1) | None \<Rightarrow> None)"

subsection \<open>Ownership\<close>

text \<open>The contract of \<open>free_msg\<close>: null and 0, or exactly a live box.\<close>

definition owns_msg :: "FfiStatus \<Rightarrow> box_heap \<Rightarrow> bool" where
  "owns_msg st h \<longleftrightarrow> st_msg st = 0 \<and> st_msg_len st = 0
     \<or> st_msg st \<noteq> 0 \<and> 0 < st_msg_len st \<and> (\<exists>bs. bx_map h (st_msg st) = Some bs \<and> length bs = st_msg_len st)"

definition status_text :: "FfiStatus \<Rightarrow> box_heap \<Rightarrow> bytes" where
  "status_text st h = (case bx_map h (st_msg st) of Some bs \<Rightarrow> bs | None \<Rightarrow> [])"

lemma box_heap_empty_ok [simp]: "box_heap_ok box_heap_empty"
  by (simp add: box_heap_ok_def box_heap_empty_def)

lemma owns_ok [simp]: "owns_msg FfiStatus_ok h"
  by (simp add: owns_msg_def FfiStatus_ok_def)

lemma new_err_spec:
  assumes "box_heap_ok h" and "new_err c m f fl ln h = (st, h')"
  shows "box_heap_ok h' \<and> owns_msg st h' \<and> status_text st h' = m \<and> st_code st = c
    \<and> st_file st = f \<and> st_file_len st = fl \<and> st_line st = ln \<and> st_msg_len st = length m
    \<and> (\<forall>p. bx_map h p \<noteq> None \<longrightarrow> p \<noteq> st_msg st \<and> bx_map h' p = bx_map h p)
    \<and> (bx_map h')(st_msg st := None) = bx_map h"
  using assms
  by (auto simp: new_err_def box_into_raw_def box_heap_ok_def owns_msg_def status_text_def
      fun_eq_iff split: if_splits)

lemma free_msg_owned:
  assumes "owns_msg st h" and "box_heap_ok h"
  shows "free_msg st h = Some (st\<lparr>st_msg := 0, st_msg_len := 0\<rparr>, h\<lparr>bx_map := (bx_map h)(st_msg st := None)\<rparr>)"
  using assms by (cases st; cases h) (auto simp: owns_msg_def free_msg_def box_from_raw_drop_def box_heap_ok_def)

lemma box_heap_ok_free: "box_heap_ok h \<Longrightarrow> box_heap_ok (h\<lparr>bx_map := (bx_map h)(p := None)\<rparr>)"
  by (simp add: box_heap_ok_def)

text \<open>
  An export may report several outcomes in turn through the same status slot. \<open>report_all\<close> writes
  a sequence of errors with \<open>overwrite\<close>, each built by \<open>new_err\<close> first, as the exports do.
\<close>

fun report_all :: "(i32 \<times> bytes) list \<Rightarrow> FfiStatus \<Rightarrow> box_heap \<Rightarrow> (FfiStatus \<times> box_heap) option" where
  "report_all [] slot h = Some (slot, h)"
| "report_all ((c, m) # rest) slot h =
     (let (new, h1) = new_err c m None 0 0 h
      in case overwrite slot new h1 of
           Some (slot', h2) \<Rightarrow> report_all rest slot' h2
         | None \<Rightarrow> None)"

lemma overwrite_new_err:
  assumes "box_heap_ok h" and "owns_msg slot h" and "new_err c m None 0 0 h = (new, h1)"
  obtains h2 where "overwrite slot new h1 = Some (new, h2)" and "box_heap_ok h2" and "owns_msg new h2"
    and "(bx_map h2)(st_msg new := None) = (bx_map h)(st_msg slot := None)" and "status_text new h2 = m"
    and "st_code new = c"
proof -
  note n = new_err_spec [OF assms(1,3)]
  have slot1: "owns_msg slot h1" using n assms(2) by (auto simp: owns_msg_def)
  let ?h2 = "h1\<lparr>bx_map := (bx_map h1)(st_msg slot := None)\<rparr>"
  have ow: "overwrite slot new h1 = Some (new, ?h2)"
    using free_msg_owned [OF slot1] n by (simp add: overwrite_def)
  have diff: "st_msg new \<noteq> st_msg slot \<or> st_msg new = 0 \<and> st_msg_len new = 0"
    using n assms(2) by (auto simp: owns_msg_def)
  have own: "owns_msg new ?h2" using n diff by (auto simp: owns_msg_def)
  have "(bx_map ?h2)(st_msg new := None) = ((bx_map h1)(st_msg new := None))(st_msg slot := None)"
    by (simp add: fun_upd_twist fun_eq_iff)
  also have "\<dots> = (bx_map h)(st_msg slot := None)" using n by simp
  finally have eq: "(bx_map ?h2)(st_msg new := None) = (bx_map h)(st_msg slot := None)" .
  have "status_text new ?h2 = m"
    using n diff by (auto simp: status_text_def box_heap_ok_def)
  with that ow own eq n box_heap_ok_free show ?thesis by blast
qed

lemma report_all_spec:
  "box_heap_ok h \<Longrightarrow> owns_msg slot h \<Longrightarrow>
     \<exists>slot' h'. report_all rs slot h = Some (slot', h') \<and> box_heap_ok h' \<and> owns_msg slot' h'
       \<and> (bx_map h')(st_msg slot' := None) = (bx_map h)(st_msg slot := None)
       \<and> (rs \<noteq> [] \<longrightarrow> st_code slot' = fst (last rs) \<and> status_text slot' h' = snd (last rs))"
proof (induction rs arbitrary: slot h)
  case (Cons r rest)
  obtain c m where r: "r = (c, m)" by force
  obtain new h1 where ne: "new_err c m None 0 0 h = (new, h1)" by force
  from overwrite_new_err [OF Cons.prems ne] obtain h2 where
    h2: "overwrite slot new h1 = Some (new, h2)" "box_heap_ok h2" "owns_msg new h2"
      "(bx_map h2)(st_msg new := None) = (bx_map h)(st_msg slot := None)" "status_text new h2 = m"
      "st_code new = c" by blast
  from Cons.IH [OF h2(2,3)] h2 r ne show ?case by (cases rest) auto
qed auto

subsection \<open>Properties\<close>

text \<open>C29: A status neither leaks nor double-frees its message. However many outcomes an export
  reports through one status slot, replacing each with \<open>overwrite\<close>, and then frees it: every release
  is of a live box of exactly the recorded length (no undefined behaviour), the slot shows the last
  outcome, and afterwards the heap holds exactly the boxes it held before.\<close>

theorem status_messages_balanced:
  assumes "box_heap_ok h"
  shows "\<exists>slot h' h''. report_all rs FfiStatus_ok h = Some (slot, h')
    \<and> (rs \<noteq> [] \<longrightarrow> st_code slot = fst (last rs) \<and> status_text slot h' = snd (last rs))
    \<and> free_msg slot h' = Some (slot\<lparr>st_msg := 0, st_msg_len := 0\<rparr>, h'') \<and> bx_map h'' = bx_map h"
proof -
  from report_all_spec [OF assms owns_ok, of rs] obtain slot h' where
    r: "report_all rs FfiStatus_ok h = Some (slot, h')" "box_heap_ok h'" "owns_msg slot h'"
      "(bx_map h')(st_msg slot := None) = (bx_map h)(st_msg FfiStatus_ok := None)"
      "rs \<noteq> [] \<longrightarrow> st_code slot = fst (last rs) \<and> status_text slot h' = snd (last rs)" by blast
  moreover have "(bx_map h)(st_msg FfiStatus_ok := None) = bx_map h"
    using assms by (auto simp: FfiStatus_ok_def box_heap_ok_def)
  ultimately show ?thesis using free_msg_owned [OF r(3,2)] by auto
qed

theorem status_messages_balanced_witness:
  "\<exists>slot h' h''. report_all [(FFI_ERR, [104, 105]), (FFI_POISONED, [112])] FfiStatus_ok box_heap_empty
      = Some (slot, h') \<and> st_code slot = FFI_POISONED \<and> status_text slot h' = [112]
    \<and> free_msg slot h' = Some (slot\<lparr>st_msg := 0, st_msg_len := 0\<rparr>, h'') \<and> bx_map h'' = (\<lambda>_. None)"
  using status_messages_balanced [OF box_heap_empty_ok, of "[(FFI_ERR, [104, 105]), (FFI_POISONED, [112])]"]
  by (simp add: box_heap_empty_def)

end
