(* ===== verification/Guard.thy ===== *)
theory Guard
  imports Status "HOL-Library.Multiset"
begin

text \<open>
  The panic firewall (\<open>ffi/guard.rs\<close>): the interned file names, the table of panic locations the
  hook fills and the firewall reads, the disposal of panic payloads, and \<open>ffi_guard_code\<close>, which
  every export runs its body behind.

  A computation that may unwind yields an \<open>outcome\<close>: \<open>Done\<close> its value, or \<open>Raised\<close> the panic
  payload. A payload is engine-chosen: its destructor and, for an error object, its \<open>Display\<close> may
  panic in turn, with another payload at another place, so those behaviours are part of it.
  The state is an extensible record: the exports extend it with the rest of the process.
\<close>

subsection \<open>State\<close>

record PanicLocation =
  pl_file :: rstr
  pl_line :: u32

type_synonym source_loc = "rstr \<times> u32"

datatype payload =
    PStr rstr | PString rstr | PBoxStr rstr | PCowStr rstr
  | PErrorSendSync "rstr + (payload \<times> source_loc)" "(payload \<times> source_loc) option"
  | PErrorSend "rstr + (payload \<times> source_loc)" "(payload \<times> source_loc) option"
  | PI32 u32 | PU32 u32 | PI64 u64 | PU64 u64 | PUsize u64 | PIsize u64 | PBool bool
  | POther "(payload \<times> source_loc) option"

datatype 'r outcome = Done 'r | Raised payload

record thread =
  th_id :: nat
  th_name :: "rstr option"

text \<open>
  \<open>forgotten\<close> lists the payloads passed to \<open>mem::forget\<close> and \<open>prev_hook_calls\<close> counts the calls
  of the hook that was installed before; both only observe.
\<close>

record guard_state =
  file_cache :: "rstr list"
  panic_locations :: "(nat \<times> PanicLocation) list"
  hook_installed :: bool
  prev_hook_calls :: nat
  forgotten :: "payload list"
  msg_heap :: box_heap

definition guard_init :: guard_state where
  "guard_init = \<lparr>file_cache = [], panic_locations = [], hook_installed = False,
                 prev_hook_calls = 0, forgotten = [], msg_heap = box_heap_empty\<rparr>"

subsection \<open>Interned file names\<close>

definition MAX_INTERNED_FILES :: nat where "MAX_INTERNED_FILES = 1024"

definition unknown_file :: rstr where "unknown_file = lit ''unknown_file''"

definition intern_file_string :: "rstr \<Rightarrow> 'a guard_state_scheme \<Rightarrow> rstr \<times> 'a guard_state_scheme" where
  "intern_file_string f gs =
     (if f \<in> set (file_cache gs) then (f, gs)
      else if MAX_INTERNED_FILES \<le> length (file_cache gs) then (unknown_file, gs)
      else (f, gs\<lparr>file_cache := file_cache gs @ [f]\<rparr>))"

subsection \<open>Panic locations\<close>

definition MAX_PANIC_LOCATIONS :: nat where "MAX_PANIC_LOCATIONS = 256"

text \<open>\<open>Vec::swap_remove\<close>: the last element takes the removed one's place.\<close>

definition swap_remove :: "nat \<Rightarrow> 'a list \<Rightarrow> 'a list" where
  "swap_remove i xs = butlast (xs[i := last xs])"

definition take_panic_location ::
  "thread \<Rightarrow> 'a guard_state_scheme \<Rightarrow> PanicLocation option \<times> 'a guard_state_scheme" where
  "take_panic_location th gs =
     (case position (\<lambda>e. fst e = th_id th) (panic_locations gs) of
        None \<Rightarrow> (None, gs)
      | Some pos \<Rightarrow> (Some (snd (panic_locations gs ! pos)),
                     gs\<lparr>panic_locations := swap_remove pos (panic_locations gs)\<rparr>))"

text \<open>The hook's update of the table, on the interned location.\<close>

definition record_location ::
  "nat \<Rightarrow> PanicLocation \<Rightarrow> (nat \<times> PanicLocation) list \<Rightarrow> (nat \<times> PanicLocation) list" where
  "record_location tid l ls =
     (case position (\<lambda>e. fst e = tid) ls of
        Some pos \<Rightarrow> ls[pos := (tid, l)]
      | None \<Rightarrow> (if MAX_PANIC_LOCATIONS \<le> length ls then tl ls else ls) @ [(tid, l)])"

definition is_worker_thread :: "thread \<Rightarrow> bool" where
  "is_worker_thread th \<longleftrightarrow>
     (case th_name th of Some n \<Rightarrow> take 8 n = lit ''gusset-w'' | None \<Rightarrow> False)"

definition gusset_hook :: "thread \<Rightarrow> source_loc \<Rightarrow> 'a guard_state_scheme \<Rightarrow> 'a guard_state_scheme" where
  "gusset_hook th l gs =
     (let (f, gs1) = intern_file_string (fst l) gs;
          gs2 = gs1\<lparr>panic_locations :=
                  record_location (th_id th) \<lparr>pl_file = f, pl_line = snd l\<rparr> (panic_locations gs1)\<rparr>
      in if is_worker_thread th then gs2 else gs2\<lparr>prev_hook_calls := prev_hook_calls gs2 + 1\<rparr>)"

text \<open>A \<open>Once\<close>: installing again changes nothing.\<close>

definition install_panic_hook :: "'a guard_state_scheme \<Rightarrow> 'a guard_state_scheme" where
  "install_panic_hook gs = gs\<lparr>hook_installed := True\<rparr>"

text \<open>What the runtime does when a thread panics: run the installed hook, then unwind.\<close>

definition raise_panic :: "thread \<Rightarrow> source_loc \<Rightarrow> 'a guard_state_scheme \<Rightarrow> 'a guard_state_scheme" where
  "raise_panic th l gs =
     (if hook_installed gs then gusset_hook th l gs
      else gs\<lparr>prev_hook_calls := prev_hook_calls gs + 1\<rparr>)"

definition panic_location_count :: "'a guard_state_scheme \<Rightarrow> nat" where
  "panic_location_count gs = length (panic_locations gs)"

subsection \<open>Payloads\<close>

definition MAX_PANIC_PAYLOAD_BYTES :: nat where "MAX_PANIC_PAYLOAD_BYTES = 32 * 1024"

definition truncate_payload :: "rstr \<Rightarrow> rstr" where
  "truncate_payload s =
     (if MAX_PANIC_PAYLOAD_BYTES < length s
      then take (floor_boundary s MAX_PANIC_PAYLOAD_BYTES) s @ lit ''... [truncated]''
      else s)"

text \<open>Running a payload's destructor.\<close>

fun payload_drop :: "payload \<Rightarrow> (payload \<times> source_loc) option" where
  "payload_drop (PErrorSendSync _ d) = d"
| "payload_drop (PErrorSend _ d) = d"
| "payload_drop (POther d) = d"
| "payload_drop _ = None"

definition run_drop :: "thread \<Rightarrow> payload \<Rightarrow> 'a guard_state_scheme \<Rightarrow> unit outcome \<times> 'a guard_state_scheme" where
  "run_drop th p gs =
     (case payload_drop p of
        None \<Rightarrow> (Done (), gs)
      | Some (second, l) \<Rightarrow> (Raised second, raise_panic th l gs))"

fun is_plain_payload :: "payload \<Rightarrow> bool" where
  "is_plain_payload (PStr _) = True"
| "is_plain_payload (PString _) = True"
| "is_plain_payload _ = False"

definition drop_panic_payload :: "thread \<Rightarrow> payload \<Rightarrow> 'a guard_state_scheme \<Rightarrow> 'a guard_state_scheme" where
  "drop_panic_payload th p gs =
     (case run_drop th p gs of
        (Done _, gs1) \<Rightarrow> gs1
      | (Raised second, gs1) \<Rightarrow>
          (let gs2 = (if is_plain_payload second then snd (run_drop th second gs1)
                      else gs1\<lparr>forgotten := second # forgotten gs1\<rparr>)
           in snd (take_panic_location th gs2)))"

fun show_bool :: "bool \<Rightarrow> rstr" where
  "show_bool True = lit ''true''"
| "show_bool False = lit ''false''"

text \<open>An error object's \<open>to_string\<close>, which may panic.\<close>

fun display_error ::
  "thread \<Rightarrow> rstr + (payload \<times> source_loc) \<Rightarrow> 'a guard_state_scheme \<Rightarrow> rstr outcome \<times> 'a guard_state_scheme" where
  "display_error th (Inl s) gs = (Done (truncate_payload s), gs)"
| "display_error th (Inr (p, l)) gs = (Raised p, raise_panic th l gs)"

fun describe_panic_payload ::
  "thread \<Rightarrow> payload \<Rightarrow> 'a guard_state_scheme \<Rightarrow> rstr outcome \<times> 'a guard_state_scheme" where
  "describe_panic_payload th (PStr s) gs = (Done (truncate_payload s), gs)"
| "describe_panic_payload th (PString s) gs = (Done (truncate_payload s), gs)"
| "describe_panic_payload th (PBoxStr s) gs = (Done (truncate_payload s), gs)"
| "describe_panic_payload th (PCowStr s) gs = (Done (truncate_payload s), gs)"
| "describe_panic_payload th (PErrorSendSync e _) gs = display_error th e gs"
| "describe_panic_payload th (PErrorSend e _) gs = display_error th e gs"
| "describe_panic_payload th (PI32 i) gs = (Done (lit ''panic payload (i32): '' @ show_int (sint i)), gs)"
| "describe_panic_payload th (PU32 u) gs = (Done (lit ''panic payload (u32): '' @ show_nat (unat u)), gs)"
| "describe_panic_payload th (PI64 i) gs = (Done (lit ''panic payload (i64): '' @ show_int (sint i)), gs)"
| "describe_panic_payload th (PU64 u) gs = (Done (lit ''panic payload (u64): '' @ show_nat (unat u)), gs)"
| "describe_panic_payload th (PUsize u) gs = (Done (lit ''panic payload (usize): '' @ show_nat (unat u)), gs)"
| "describe_panic_payload th (PIsize i) gs = (Done (lit ''panic payload (isize): '' @ show_int (sint i)), gs)"
| "describe_panic_payload th (PBool b) gs = (Done (lit ''panic payload (bool): '' @ show_bool b), gs)"
| "describe_panic_payload th (POther _) gs = (Done (lit ''Unknown Rust panic payload''), gs)"

definition extract_panic_payload :: "thread \<Rightarrow> payload \<Rightarrow> 'a guard_state_scheme \<Rightarrow> rstr \<times> 'a guard_state_scheme" where
  "extract_panic_payload th p gs =
     (let (m, gs1) = (case describe_panic_payload th p gs of
                        (Done s, g) \<Rightarrow> (s, g)
                      | (Raised d, g) \<Rightarrow> (lit ''Unknown Rust panic payload (description panicked)'',
                                          drop_panic_payload th d g))
      in (m, drop_panic_payload th p gs1))"

subsection \<open>The guard\<close>

record FfiError =
  fe_code :: i32
  fe_msg :: rstr
  fe_file :: "rstr option"
  fe_line :: u32

datatype PoolError = BadArg rstr | Failed rstr

definition FfiError_from_string :: "rstr \<Rightarrow> FfiError" where
  "FfiError_from_string m = \<lparr>fe_code = FFI_ERR, fe_msg = m, fe_file = None, fe_line = 0\<rparr>"

fun FfiError_from_pool :: "PoolError \<Rightarrow> FfiError" where
  "FfiError_from_pool (BadArg m) = \<lparr>fe_code = FFI_BAD_ARG, fe_msg = m, fe_file = None, fe_line = 0\<rparr>"
| "FfiError_from_pool (Failed m) = FfiError_from_string m"

text \<open>
  \<open>has_status\<close> is \<open>!status.is_null()\<close>; the second component of the result is what the slot holds
  afterwards. The source also catches a panic of \<open>FfiStatus::new_err\<close>; \<open>new_err\<close> only allocates,
  and a failed allocation of a box aborts the process, so that branch has no counterpart here.
\<close>

definition ffi_guard_code ::
  "thread \<Rightarrow> bool \<Rightarrow> ('a guard_state_scheme \<Rightarrow> (FfiError + 'r) outcome \<times> 'a guard_state_scheme)
    \<Rightarrow> 'a guard_state_scheme \<Rightarrow> (i32 + 'r) \<times> FfiStatus option \<times> 'a guard_state_scheme" where
  "ffi_guard_code th has_status f gs =
     (let st0 = (if has_status then Some FfiStatus_ok else None);
          gs1 = snd (take_panic_location th gs)
      in case f gs1 of
           (Done (Inr v), gs2) \<Rightarrow> (Inr v, map_option (\<lambda>s. s\<lparr>st_code := FFI_OK\<rparr>) st0, gs2)
         | (Done (Inl e), gs2) \<Rightarrow>
             if has_status then
               (let (st, h) = new_err (fe_code e) (truncate_payload (fe_msg e)) (fe_file e)
                                (case fe_file e of Some s \<Rightarrow> length s | None \<Rightarrow> 0) (fe_line e) (msg_heap gs2)
                in (Inl (fe_code e), Some st, gs2\<lparr>msg_heap := h\<rparr>))
             else (Inl (fe_code e), None, gs2)
         | (Raised p, gs2) \<Rightarrow>
             (let (loc, gs3) = take_panic_location th gs2;
                  (m, gs4) = extract_panic_payload th p gs3
              in if has_status then
                   (let (st, h) = new_err FFI_PANIC m (map_option pl_file loc)
                                    (case loc of Some l \<Rightarrow> length (pl_file l) | None \<Rightarrow> 0)
                                    (case loc of Some l \<Rightarrow> pl_line l | None \<Rightarrow> 0) (msg_heap gs4)
                    in (Inl FFI_PANIC, Some st, gs4\<lparr>msg_heap := h\<rparr>))
                 else (Inl FFI_PANIC, None, gs4)))"

subsection \<open>Lemmas: the location table\<close>

lemma mset_swap_remove: "i < length xs \<Longrightarrow> mset (swap_remove i xs) = mset xs - {#xs ! i#}"
proof (cases xs rule: rev_cases)
  case (snoc ys z)
  moreover assume "i < length xs"
  ultimately show ?thesis
    by (cases "i < length ys")
      (auto simp: swap_remove_def list_update_append butlast_append mset_update nth_append)
qed simp

definition locs_ok :: "(nat \<times> PanicLocation) list \<Rightarrow> bool" where
  "locs_ok ls \<longleftrightarrow> distinct (map fst ls) \<and> length ls \<le> MAX_PANIC_LOCATIONS"

lemma swap_remove_keys:
  assumes "distinct (map fst ls)" and "i < length ls"
  shows "distinct (map fst (swap_remove i ls))" and "length (swap_remove i ls) = length ls - 1"
    and "map_of (swap_remove i ls) t = (if t = fst (ls ! i) then None else map_of ls t)"
proof -
  let ?r = "swap_remove i ls"
  have perm: "mset ls = mset (ls ! i # ?r)"
    using assms(2) by (simp add: mset_swap_remove)
  then have "mset (map fst ls) = mset (map fst (ls ! i # ?r))" by (metis mset_map)
  with assms(1) have d: "distinct (map fst (ls ! i # ?r))" by (metis mset_eq_imp_distinct_iff)
  then show "distinct (map fst ?r)" by simp
  show "length ?r = length ls - 1" using mset_eq_length [OF perm] by simp
  have "map_of ls t = map_of (ls ! i # ?r) t"
    using map_of_inject_set [OF assms(1) d] mset_eq_setD [OF perm] by simp
  moreover have "fst (ls ! i) \<notin> fst ` set ?r" using d by simp
  ultimately show "map_of ?r t = (if t = fst (ls ! i) then None else map_of ls t)"
    by (auto simp: map_of_eq_None_iff)
qed

lemma map_of_tl: "distinct (map fst ls) \<Longrightarrow> map_of (tl ls) t = Some l \<Longrightarrow> map_of ls t = Some l"
  by (cases ls) (auto dest: map_of_SomeD simp: image_iff)

lemma record_location_keys:
  assumes "locs_ok ls"
  shows "locs_ok (record_location tid l ls)"
    and "map_of (record_location tid l ls) tid = Some l"
    and "t \<noteq> tid \<Longrightarrow> map_of (record_location tid l ls) t = Some l' \<Longrightarrow> map_of ls t = Some l'"
proof -
  have *: "locs_ok (record_location tid l ls) \<and> map_of (record_location tid l ls) tid = Some l
    \<and> (t \<noteq> tid \<longrightarrow> map_of (record_location tid l ls) t = Some l' \<longrightarrow> map_of ls t = Some l')"
  proof (cases "position (\<lambda>e. fst e = tid) ls")
    case None
    then have fresh: "tid \<notin> fst ` set ls" by (auto simp: position_None_iff)
    obtain b where b: "b = (if MAX_PANIC_LOCATIONS \<le> length ls then tl ls else ls)" by blast
    have "set b \<subseteq> set ls" and dl: "distinct (map fst b)" "length b < MAX_PANIC_LOCATIONS"
      using assms by (cases ls; auto simp: b locs_ok_def MAX_PANIC_LOCATIONS_def)+
    with fresh have fb: "tid \<notin> fst ` set b" by blast
    then have "map_of b tid = None" by (simp add: map_of_eq_None_iff)
    moreover have "map_of b t = Some l' \<Longrightarrow> map_of ls t = Some l'"
      using assms map_of_tl [of ls t l'] by (auto simp: b locs_ok_def split: if_splits)
    moreover have "record_location tid l ls = b @ [(tid, l)]" by (simp add: record_location_def None b)
    ultimately show ?thesis using dl fb
      by (auto simp: locs_ok_def map_add_def split: option.splits dest: map_of_SomeD)
  next
    case (Some pos)
    from position_SomeD [OF this] have pos: "pos < length ls" "fst (ls ! pos) = tid" by auto
    then have keys: "map fst (ls[pos := (tid, l)]) = map fst ls"
      by (metis fst_conv list_update_id map_update nth_map)
    have "map_of (ls[pos := (tid, l)]) tid = Some l"
      using assms pos keys by (auto simp: locs_ok_def set_update_memI)
    moreover have "t \<noteq> tid \<Longrightarrow> map_of (ls[pos := (tid, l)]) t = Some l' \<Longrightarrow> map_of ls t = Some l'"
      using assms keys by (auto simp: locs_ok_def dest!: map_of_SomeD dest: subsetD [OF set_update_subset_insert])
    ultimately show ?thesis using Some assms keys by (auto simp: record_location_def locs_ok_def)
  qed
  then show "locs_ok (record_location tid l ls)" "map_of (record_location tid l ls) tid = Some l"
    "t \<noteq> tid \<Longrightarrow> map_of (record_location tid l ls) t = Some l' \<Longrightarrow> map_of ls t = Some l'" by auto
qed

definition guard_ok :: "'a guard_state_scheme \<Rightarrow> bool" where
  "guard_ok gs \<longleftrightarrow> locs_ok (panic_locations gs) \<and> length (file_cache gs) \<le> MAX_INTERNED_FILES
     \<and> distinct (file_cache gs) \<and> box_heap_ok (msg_heap gs)"

definition loc_of :: "thread \<Rightarrow> 'a guard_state_scheme \<Rightarrow> PanicLocation option" where
  "loc_of th gs = map_of (panic_locations gs) (th_id th)"

text \<open>A recorded location is the panic's own, up to the placeholder once 1024 files are interned.\<close>

definition loc_matches :: "PanicLocation \<Rightarrow> source_loc \<Rightarrow> bool" where
  "loc_matches pl l \<longleftrightarrow> pl_line pl = snd l \<and> (pl_file pl = fst l \<or> pl_file pl = unknown_file)"

lemma take_panic_location_spec:
  assumes "guard_ok gs" and "take_panic_location th gs = (l, gs')"
  shows "guard_ok gs'" and "l = loc_of th gs" and "loc_of th gs' = None"
    and "th_id t \<noteq> th_id th \<Longrightarrow> loc_of t gs' = loc_of t gs"
    and "hook_installed gs' = hook_installed gs" and "msg_heap gs' = msg_heap gs"
    and "forgotten gs' = forgotten gs"
proof -
  have *: "guard_ok gs' \<and> l = loc_of th gs \<and> loc_of th gs' = None
    \<and> (th_id t \<noteq> th_id th \<longrightarrow> loc_of t gs' = loc_of t gs)
    \<and> hook_installed gs' = hook_installed gs \<and> msg_heap gs' = msg_heap gs \<and> forgotten gs' = forgotten gs"
  proof (cases "position (\<lambda>e. fst e = th_id th) (panic_locations gs)")
    case None
    then have "th_id th \<notin> fst ` set (panic_locations gs)" by (auto simp: position_None_iff)
    with None assms show ?thesis
      by (auto simp: take_panic_location_def loc_of_def map_of_eq_None_iff [THEN iffD2])
  next
    case (Some pos)
    from position_SomeD [OF this]
    have pos: "pos < length (panic_locations gs)" "fst (panic_locations gs ! pos) = th_id th" by auto
    have d: "distinct (map fst (panic_locations gs))" using assms by (simp add: guard_ok_def locs_ok_def)
    have "map_of (panic_locations gs) (th_id th) = Some (snd (panic_locations gs ! pos))"
      using d pos by (metis map_of_eq_Some_iff nth_mem prod.collapse)
    with Some assms pos swap_remove_keys [OF d pos(1)] show ?thesis
      by (auto simp: take_panic_location_def loc_of_def guard_ok_def locs_ok_def)
  qed
  then show "guard_ok gs'" "l = loc_of th gs" "loc_of th gs' = None"
    "th_id t \<noteq> th_id th \<Longrightarrow> loc_of t gs' = loc_of t gs"
    "hook_installed gs' = hook_installed gs" "msg_heap gs' = msg_heap gs" "forgotten gs' = forgotten gs"
    by auto
qed

lemma raise_panic_spec:
  assumes "guard_ok gs"
  shows "guard_ok (raise_panic th l gs)"
    and "hook_installed gs \<Longrightarrow> \<exists>pl. loc_of th (raise_panic th l gs) = Some pl \<and> loc_matches pl l"
    and "th_id t \<noteq> th_id th \<Longrightarrow> loc_of t (raise_panic th l gs) = Some pl \<Longrightarrow> loc_of t gs = Some pl"
    and "hook_installed (raise_panic th l gs) = hook_installed gs"
    and "msg_heap (raise_panic th l gs) = msg_heap gs"
    and "forgotten (raise_panic th l gs) = forgotten gs"
proof -
  let ?gs' = "raise_panic th l gs"
  have lo: "locs_ok (panic_locations gs)" using assms by (simp add: guard_ok_def)
  note r = record_location_keys [OF lo]
  show "guard_ok ?gs'"
    using assms r(1) by (auto simp: raise_panic_def gusset_hook_def intern_file_string_def guard_ok_def
        MAX_INTERNED_FILES_def Let_def)
  show "hook_installed gs \<Longrightarrow> \<exists>pl. loc_of th ?gs' = Some pl \<and> loc_matches pl l"
    using r(2) by (auto simp: raise_panic_def gusset_hook_def intern_file_string_def loc_of_def loc_matches_def Let_def)
  show "th_id t \<noteq> th_id th \<Longrightarrow> loc_of t ?gs' = Some pl \<Longrightarrow> loc_of t gs = Some pl"
    using r(3) [of "th_id t" "th_id th"]
    by (auto simp: raise_panic_def gusset_hook_def intern_file_string_def loc_of_def Let_def split: if_splits)
  show "hook_installed ?gs' = hook_installed gs" "msg_heap ?gs' = msg_heap gs" "forgotten ?gs' = forgotten gs"
    by (auto simp: raise_panic_def gusset_hook_def intern_file_string_def Let_def)
qed

subsection \<open>Lemmas: payloads\<close>

lemma truncate_payload_le: "length (truncate_payload s) \<le> MAX_PANIC_PAYLOAD_BYTES + 15"
  using floor_boundary_le [of s MAX_PANIC_PAYLOAD_BYTES]
  by (auto simp: truncate_payload_def)

lemma length_show_nat_le: "n < 10 ^ Suc k \<Longrightarrow> length (show_nat n) \<le> Suc k"
  unfolding show_nat_def
proof (induction k arbitrary: n)
  case (Suc k)
  show ?case
  proof (cases "n < 10")
    case False
    from Suc.prems have "n div 10 < 10 ^ Suc k" by (simp add: less_mult_imp_div_less)
    from Suc.IH [OF this] False show ?thesis by (simp add: show_base.simps [of 10 n])
  qed (simp add: show_base.simps [of 10 n])
qed (simp add: show_base.simps [of 10])

lemma length_show_u64: "length (show_nat (unat (w :: u64))) \<le> 20"
proof -
  have "unat w < 10 ^ Suc 19" using u64_bound [of w] by simp
  from length_show_nat_le [OF this] show ?thesis by simp
qed

lemma length_show_u32: "length (show_nat (unat (w :: u32))) \<le> 10"
proof -
  have "unat w < 10 ^ Suc 9" using u32_bound [of w] by simp
  from length_show_nat_le [OF this] show ?thesis by simp
qed

lemma length_show_int: "\<bar>i\<bar> < 10 ^ 20 \<Longrightarrow> length (show_int i) \<le> 21"
  using length_show_nat_le [of "nat \<bar>i\<bar>" 19]
  by (auto simp: show_int_def nat_less_iff)

lemma sint_abs_64: "\<bar>sint (w :: u64)\<bar> < 10 ^ 20"
  using sint_greater_eq [of w] sint_less [of w] by (simp add: abs_less_iff)

lemma sint_abs_32: "\<bar>sint (w :: u32)\<bar> < 10 ^ 20"
  using sint_greater_eq [of w] sint_less [of w] by (simp add: abs_less_iff)

lemma number_lengths:
  "length (show_nat (unat (w64 :: u64))) \<le> 21" "length (show_nat (unat (w32 :: u32))) \<le> 21"
  "length (show_int (sint (w64 :: u64))) \<le> 21" "length (show_int (sint (w32 :: u32))) \<le> 21"
  "length (show_bool b) \<le> 21"
  using length_show_u64 [of w64] length_show_u32 [of w32]
    length_show_int [OF sint_abs_64 [of w64]] length_show_int [OF sint_abs_32 [of w32]]
  by (auto intro: order_trans) (cases b, auto)

lemma display_error_spec:
  assumes "guard_ok gs" and "display_error th e gs = (r, gs')"
  shows "guard_ok gs' \<and> msg_heap gs' = msg_heap gs
    \<and> (case r of Done s \<Rightarrow> length s \<le> MAX_PANIC_PAYLOAD_BYTES + 15 | Raised _ \<Rightarrow> True)"
  using assms raise_panic_spec [OF assms(1)]
  by (cases "(th, e, gs)" rule: display_error.cases) (auto simp: truncate_payload_le)

lemma describe_spec:
  assumes "guard_ok gs" and "describe_panic_payload th p gs = (r, gs')"
  shows "guard_ok gs' \<and> msg_heap gs' = msg_heap gs
    \<and> (case r of Done s \<Rightarrow> length s \<le> MAX_PANIC_PAYLOAD_BYTES + 15 | Raised _ \<Rightarrow> True)"
proof -
  have num: "length (lit m @ s) \<le> MAX_PANIC_PAYLOAD_BYTES + 15"
    if "length s \<le> 21" "length m \<le> 30" for m and s :: rstr
    using that by (simp add: MAX_PANIC_PAYLOAD_BYTES_def)
  have other: "11 \<le> MAX_PANIC_PAYLOAD_BYTES" by (simp add: MAX_PANIC_PAYLOAD_BYTES_def)
  show ?thesis
    using assms display_error_spec [OF assms(1)]
    by (cases p) (auto simp: truncate_payload_le number_lengths other intro!: num simp del: length_append)
qed

lemma run_drop_spec:
  assumes "guard_ok gs" and "run_drop th p gs = (r, gs')"
  shows "guard_ok gs' \<and> msg_heap gs' = msg_heap gs \<and> forgotten gs' = forgotten gs
    \<and> (\<forall>t. th_id t \<noteq> th_id th \<longrightarrow> loc_of t gs' \<noteq> None \<longrightarrow> loc_of t gs' = loc_of t gs)
    \<and> (payload_drop p = None \<longrightarrow> gs' = gs)"
  using assms raise_panic_spec [OF assms(1)] by (auto simp: run_drop_def split: option.splits)

lemma plain_payload_drop: "is_plain_payload p \<Longrightarrow> payload_drop p = None"
  by (cases p rule: is_plain_payload.cases) auto

lemma drop_panic_payload_spec:
  assumes ok: "guard_ok gs"
  shows "guard_ok (drop_panic_payload th p gs) \<and> msg_heap (drop_panic_payload th p gs) = msg_heap gs
    \<and> (\<forall>t. th_id t \<noteq> th_id th \<longrightarrow> loc_of t (drop_panic_payload th p gs) \<noteq> None \<longrightarrow>
          loc_of t (drop_panic_payload th p gs) = loc_of t gs)
    \<and> (case payload_drop p of
         None \<Rightarrow> drop_panic_payload th p gs = gs
       | Some (second, _) \<Rightarrow> loc_of th (drop_panic_payload th p gs) = None
           \<and> forgotten (drop_panic_payload th p gs) =
               (if is_plain_payload second then forgotten gs else second # forgotten gs))"
proof (cases "payload_drop p")
  case None
  then show ?thesis using ok by (simp add: drop_panic_payload_def run_drop_def)
next
  case (Some sl)
  obtain second l where sl: "sl = (second, l)" by (cases sl)
  let ?g1 = "raise_panic th l gs"
  obtain g2 where g2: "g2 = (if is_plain_payload second then ?g1
      else ?g1\<lparr>forgotten := second # forgotten ?g1\<rparr>)" by blast
  obtain l' g3 where t: "take_panic_location th g2 = (l', g3)" by force
  have eq: "drop_panic_payload th p gs = g3"
    using Some sl t plain_payload_drop [of second]
    by (auto simp: drop_panic_payload_def run_drop_def Let_def g2)
  note r = raise_panic_spec [OF ok]
  have g2ok: "guard_ok g2" and locs: "loc_of x g2 = loc_of x ?g1" for x
    using r(1) by (auto simp: g2 guard_ok_def loc_of_def)
  note tk = take_panic_location_spec [OF g2ok t]
  have "msg_heap g2 = msg_heap gs"
    "forgotten g2 = (if is_plain_payload second then forgotten gs else second # forgotten gs)"
    using r(5,6) [of th l] by (auto simp: g2)
  moreover have "th_id x \<noteq> th_id th \<Longrightarrow> loc_of x g3 = Some pl \<Longrightarrow> loc_of x gs = Some pl" for x pl
    using tk(4) [of x] locs [of x] r(3) [of x th l pl] by simp
  ultimately show ?thesis using Some sl eq tk(1,3,6,7) by auto
qed

lemma extract_spec:
  assumes ok: "guard_ok gs" and e: "extract_panic_payload th p gs = (m, gs')"
  shows "guard_ok gs' \<and> msg_heap gs' = msg_heap gs \<and> length m \<le> MAX_PANIC_PAYLOAD_BYTES + 15"
proof -
  obtain r g where d: "describe_panic_payload th p gs = (r, g)" by force
  note ds = describe_spec [OF ok d]
  show ?thesis
  proof (cases r)
    case (Done s)
    with d e ds drop_panic_payload_spec [of g th p] show ?thesis
      by (auto simp: extract_panic_payload_def)
  next
    case (Raised q)
    with d e ds drop_panic_payload_spec [of g th q] drop_panic_payload_spec [of "drop_panic_payload th q g" th p]
    show ?thesis by (auto simp: extract_panic_payload_def MAX_PANIC_PAYLOAD_BYTES_def)
  qed
qed

subsection \<open>Traces of panics\<close>

datatype guard_event = Panics thread source_loc | Takes thread

fun guard_event_step :: "guard_state \<Rightarrow> guard_event \<Rightarrow> guard_state" where
  "guard_event_step gs (Panics th l) = raise_panic th l gs"
| "guard_event_step gs (Takes th) = snd (take_panic_location th gs)"

definition guard_run :: "guard_event list \<Rightarrow> guard_state" where
  "guard_run evs = foldl guard_event_step (install_panic_hook guard_init) evs"

text \<open>The last panic of a thread that it has not taken yet, and the threads that panicked.\<close>

fun last_panic_step :: "nat \<Rightarrow> source_loc option \<Rightarrow> guard_event \<Rightarrow> source_loc option" where
  "last_panic_step t acc (Panics th l) = (if th_id th = t then Some l else acc)"
| "last_panic_step t acc (Takes th) = (if th_id th = t then None else acc)"

definition last_panic :: "nat \<Rightarrow> guard_event list \<Rightarrow> source_loc option" where
  "last_panic t evs = foldl (last_panic_step t) None evs"

fun panicking :: "guard_event list \<Rightarrow> nat set" where
  "panicking [] = {}"
| "panicking (Panics th _ # evs) = insert (th_id th) (panicking evs)"
| "panicking (Takes _ # evs) = panicking evs"

lemma panicking_append: "panicking (xs @ ys) = panicking xs \<union> panicking ys"
  by (induction xs rule: panicking.induct) auto

lemma finite_panicking: "finite (panicking evs)"
  by (induction evs rule: panicking.induct) auto

lemma record_location_keeps:
  assumes "locs_ok ls" and "fst ` set ls \<subseteq> T" and "tid \<in> T" and "finite T"
    and "card T \<le> MAX_PANIC_LOCATIONS" and "t \<noteq> tid"
  shows "map_of (record_location tid l ls) t = map_of ls t"
proof (cases "position (\<lambda>e. fst e = tid) ls")
  case None
  then have "tid \<notin> fst ` set ls" by (auto simp: position_None_iff)
  with assms have "card (fst ` set ls) < card T" by (intro psubset_card_mono) auto
  moreover have "card (fst ` set ls) = length ls"
    using assms(1) distinct_card [of "map fst ls"] by (simp add: locs_ok_def)
  ultimately have "\<not> MAX_PANIC_LOCATIONS \<le> length ls" using assms(5) by simp
  with None assms(6) show ?thesis by (auto simp: record_location_def map_add_def split: option.splits)
next
  case (Some pos)
  from position_SomeD [OF this] have pos: "pos < length ls" "fst (ls ! pos) = tid" by auto
  let ?u = "ls[pos := (tid, l)]"
  have keys: "map fst ?u = map fst ls"
    using pos by (metis fst_conv list_update_id map_update nth_map)
  have "map_of ?u t = Some l' \<longleftrightarrow> map_of ls t = Some l'" for l'
  proof -
    have "(t, l') \<in> set ?u" if m: "(t, l') \<in> set ls"
    proof -
      from m obtain i where i: "i < length ls" "ls ! i = (t, l')" by (auto simp: in_set_conv_nth)
      with pos assms(6) have "?u ! i = (t, l')" by (metis fst_conv nth_list_update_neq)
      with i show ?thesis by (metis length_list_update nth_mem)
    qed
    moreover have "(t, l') \<in> set ls" if "(t, l') \<in> set ?u"
      using that assms(6) set_update_subset_insert [of ls pos "(tid, l)"] by auto
    ultimately have "(t, l') \<in> set ?u \<longleftrightarrow> (t, l') \<in> set ls" by blast
    then show ?thesis using assms(1) keys by (simp add: locs_ok_def map_of_eq_Some_iff)
  qed
  then have "map_of ?u t = map_of ls t" by (metis option.exhaust)
  then show ?thesis using Some by (simp add: record_location_def)
qed

definition run_inv :: "guard_event list \<Rightarrow> guard_state \<Rightarrow> bool" where
  "run_inv evs gs \<longleftrightarrow> guard_ok gs \<and> hook_installed gs
     \<and> (\<forall>t. loc_of t gs \<noteq> None \<longrightarrow> th_id t \<in> panicking evs)
     \<and> (\<forall>t pl. loc_of t gs = Some pl \<longrightarrow>
          (\<exists>l. last_panic (th_id t) evs = Some l \<and> loc_matches pl l))
     \<and> (card (panicking evs) \<le> MAX_PANIC_LOCATIONS \<longrightarrow>
          (\<forall>t. loc_of t gs = None \<longrightarrow> last_panic (th_id t) evs = None))"

lemma run_inv_take:
  assumes inv: "run_inv evs gs"
  shows "run_inv (evs @ [Takes th]) (snd (take_panic_location th gs))"
proof -
  obtain l0 gs' where t: "take_panic_location th gs = (l0, gs')" by force
  have ok: "guard_ok gs" using inv by (simp add: run_inv_def)
  note tk = take_panic_location_spec [OF ok t]
  have "loc_of x gs' = (if th_id x = th_id th then None else loc_of x gs)" for x
    using tk(3,4) by (simp add: loc_of_def)
  with tk(1,5) inv t show ?thesis
    by (auto simp: run_inv_def panicking_append last_panic_def)
qed

lemma run_inv_panic:
  assumes inv: "run_inv evs gs"
  shows "run_inv (evs @ [Panics th l]) (raise_panic th l gs)"
proof -
  let ?gs' = "raise_panic th l gs" and ?T = "panicking (evs @ [Panics th l])"
  have ok: "guard_ok gs" and hk: "hook_installed gs" using inv by (auto simp: run_inv_def)
  note rp = raise_panic_spec [OF ok]
  obtain pl where pl: "loc_of th ?gs' = Some pl" "loc_matches pl l" using rp(2) [OF hk] by blast
  have own: "loc_of x ?gs' = Some pl" if "th_id x = th_id th" for x
    using pl(1) that by (simp add: loc_of_def)
  have locs: "\<exists>q. panic_locations ?gs' = record_location (th_id th) q (panic_locations gs)"
    using hk by (auto simp: raise_panic_def gusset_hook_def intern_file_string_def Let_def)
  have keys: "fst ` set (panic_locations gs) \<subseteq> ?T"
  proof
    fix k assume "k \<in> fst ` set (panic_locations gs)"
    then have "loc_of \<lparr>th_id = k, th_name = None\<rparr> gs \<noteq> None" by (auto simp: loc_of_def map_of_eq_None_iff)
    with inv show "k \<in> ?T" by (auto simp: run_inv_def panicking_append)
  qed
  have kept: "loc_of x ?gs' = loc_of x gs" if "th_id x \<noteq> th_id th" "card ?T \<le> MAX_PANIC_LOCATIONS" for x
    using locs record_location_keeps [OF _ keys _ finite_panicking that(2), of "th_id th" "th_id x"] ok that(1)
    by (auto simp: guard_ok_def loc_of_def panicking_append)
  have "card (panicking evs) \<le> card ?T"
    by (intro card_mono finite_panicking) (auto simp: panicking_append)
  then have mono: "card ?T \<le> MAX_PANIC_LOCATIONS \<Longrightarrow> card (panicking evs) \<le> MAX_PANIC_LOCATIONS" by simp
  have lp: "last_panic t (evs @ [Panics th l]) = (if th_id th = t then Some l else last_panic t evs)" for t
    by (simp add: last_panic_def)
  have "th_id x \<in> ?T \<and> (\<exists>l'. last_panic (th_id x) (evs @ [Panics th l]) = Some l' \<and> loc_matches q l')"
    if q: "loc_of x ?gs' = Some q" for x q
  proof (cases "th_id x = th_id th")
    case True
    with q own [OF True] pl(2) show ?thesis by (simp add: lp panicking_append)
  next
    case False
    from rp(3) [OF False q] inv False show ?thesis by (auto simp: run_inv_def lp panicking_append)
  qed
  moreover have "last_panic (th_id x) (evs @ [Panics th l]) = None"
    if c: "card ?T \<le> MAX_PANIC_LOCATIONS" and n: "loc_of x ?gs' = None" for x
  proof (cases "th_id x = th_id th")
    case False
    from kept [OF False c] n inv mono [OF c] False show ?thesis by (simp add: run_inv_def lp)
  qed (use own n in simp)
  ultimately show ?thesis using rp(1) hk rp(4) [of th l] by (auto simp: run_inv_def)
qed

lemma run_inv_guard_run: "run_inv evs (guard_run evs)"
proof (induction evs rule: rev_induct)
  case Nil
  show ?case
    by (simp add: guard_run_def guard_init_def install_panic_hook_def guard_ok_def locs_ok_def
        run_inv_def loc_of_def last_panic_def)
next
  case (snoc e evs)
  then show ?case
    using run_inv_take run_inv_panic by (cases e) (auto simp: guard_run_def)
qed

subsection \<open>Properties\<close>

text \<open>C30: The panic-location table never reports another panic's place. After any sequence of panics
  and takes on any threads, it holds at most 256 entries and at most 1024 interned file names; a
  location it holds for a thread is that of the thread's last panic that was not taken yet (the file
  name is the placeholder only after 1024 files); and while at most 256 threads have panicked, no
  such location is missing.\<close>

theorem panic_locations_sound:
  "panic_location_count (guard_run evs) \<le> 256 \<and> length (file_cache (guard_run evs)) \<le> 1024
   \<and> (case fst (take_panic_location th (guard_run evs)) of
        Some pl \<Rightarrow> \<exists>l. last_panic (th_id th) evs = Some l \<and> loc_matches pl l
      | None \<Rightarrow> card (panicking evs) \<le> 256 \<longrightarrow> last_panic (th_id th) evs = None)"
proof -
  have inv: "run_inv evs (guard_run evs)" by (rule run_inv_guard_run)
  obtain l gs' where t: "take_panic_location th (guard_run evs) = (l, gs')" by force
  have ok: "guard_ok (guard_run evs)" using inv by (simp add: run_inv_def)
  show ?thesis
    using inv ok take_panic_location_spec(2) [OF ok t] t
    by (auto simp: run_inv_def guard_ok_def locs_ok_def panic_location_count_def MAX_PANIC_LOCATIONS_def
        MAX_INTERNED_FILES_def split: option.splits)
qed

theorem panic_locations_sound_witness:
  "fst (take_panic_location \<lparr>th_id = 7, th_name = None\<rparr>
     (guard_run [Panics \<lparr>th_id = 7, th_name = None\<rparr> ([97], 3), Panics \<lparr>th_id = 8, th_name = None\<rparr> ([98], 4),
                 Takes \<lparr>th_id = 7, th_name = None\<rparr>])) = None
   \<and> last_panic 7 [Panics \<lparr>th_id = 7, th_name = None\<rparr> ([97], 3), Panics \<lparr>th_id = 8, th_name = None\<rparr> ([98], 4),
                 Takes \<lparr>th_id = 7, th_name = None\<rparr>] = None"
proof -
  let ?t7 = "\<lparr>th_id = 7, th_name = None\<rparr>" and ?t8 = "\<lparr>th_id = 8, th_name = None\<rparr>"
  let ?evs = "[Panics ?t7 ([97], 3), Panics ?t8 ([98], 4), Takes ?t7]"
  have "fst (take_panic_location ?t7 (guard_run ?evs)) = None" by code_simp
  with panic_locations_sound [of ?evs ?t7] show ?thesis by simp
qed

text \<open>A message is cut to 32 KiB (plus the marker) without breaking it: \<open>truncate_payload\<close> returns
  the string itself or a prefix that ends on a character boundary followed by the marker, and valid
  UTF-8 stays valid UTF-8, so the host always receives text it can decode.\<close>

theorem truncate_payload_safe:
  "length (truncate_payload s) \<le> 32 * 1024 + 15
   \<and> (truncate_payload s = s \<or>
      (\<exists>n \<le> 32 * 1024. is_char_boundary s n \<and> truncate_payload s = take n s @ lit ''... [truncated]''))
   \<and> (length s \<le> 32 * 1024 \<longrightarrow> truncate_payload s = s)
   \<and> (valid_utf8 s \<longrightarrow> valid_utf8 (truncate_payload s))"
proof -
  let ?n = "floor_boundary s MAX_PANIC_PAYLOAD_BYTES"
  have n: "?n \<le> 32 * 1024" "is_char_boundary s ?n"
    using floor_boundary_le [of s MAX_PANIC_PAYLOAD_BYTES]
    by (simp_all add: floor_boundary_is_boundary MAX_PANIC_PAYLOAD_BYTES_def)
  have "valid_utf8 (lit ''... [truncated]'')" by (rule valid_lit) code_simp
  then have "valid_utf8 s \<Longrightarrow> valid_utf8 (take ?n s @ lit ''... [truncated]'')"
    using valid_utf8_cut [OF _ n(2)] by (auto intro: valid_utf8_append)
  moreover have "length (truncate_payload s) \<le> 32 * 1024 + 15"
    using truncate_payload_le [of s] by (simp add: MAX_PANIC_PAYLOAD_BYTES_def)
  ultimately show ?thesis using n
    by (auto simp: truncate_payload_def MAX_PANIC_PAYLOAD_BYTES_def)
qed

theorem truncate_payload_safe_witness:
  "valid_utf8 (truncate_payload (replicate 40000 97)) \<and> length (truncate_payload (replicate 40000 97)) \<le> 32783"
  using truncate_payload_safe [of "replicate 40000 97"] valid_utf8_ascii [of "replicate 40000 97"] by simp

text \<open>A panicking payload destructor is contained: disposing of a payload never unwinds; it leaves
  every other thread's location as it was (or evicted) and every message box alone; a second payload
  thrown by the destructor is leaked only when it is not an ordinary string; and the destructor's own
  location is never left behind to be reported for a later panic.\<close>

theorem drop_panic_payload_contained:
  assumes "guard_ok gs"
  shows "guard_ok (drop_panic_payload th p gs) \<and> msg_heap (drop_panic_payload th p gs) = msg_heap gs
    \<and> (\<forall>t. th_id t \<noteq> th_id th \<longrightarrow> loc_of t (drop_panic_payload th p gs) \<noteq> None \<longrightarrow>
          loc_of t (drop_panic_payload th p gs) = loc_of t gs)
    \<and> (case payload_drop p of
         None \<Rightarrow> drop_panic_payload th p gs = gs
       | Some (second, _) \<Rightarrow> loc_of th (drop_panic_payload th p gs) = None
           \<and> forgotten (drop_panic_payload th p gs) =
               (if is_plain_payload second then forgotten gs else second # forgotten gs))"
  using drop_panic_payload_spec [OF assms] .

lemma guard_ok_init: "guard_ok (install_panic_hook guard_init)"
  by (simp add: guard_ok_def install_panic_hook_def guard_init_def locs_ok_def)

theorem drop_panic_payload_contained_witness:
  "forgotten (drop_panic_payload \<lparr>th_id = 1, th_name = None\<rparr> (POther (Some (POther None, ([97], 9))))
     (install_panic_hook guard_init)) = [POther None]"
  using drop_panic_payload_contained [OF guard_ok_init, of "\<lparr>th_id = 1, th_name = None\<rparr>"
      "POther (Some (POther None, ([97], 9)))"]
  by (simp add: guard_init_def install_panic_hook_def)

text \<open>C25: The firewall reports the code whether or not the host passed a status. For any body that
  keeps the guard's invariant, \<open>ffi_guard_code\<close> returns (nothing unwinds into the host) the same
  result with and without a status; the status carries exactly that code, owns a message of at most
  32 KiB plus the marker, and leaves every other message box as the body left it.\<close>

theorem ffi_guard_code_total:
  assumes ok: "guard_ok gs" and body: "\<And>g. guard_ok g \<Longrightarrow> guard_ok (snd (f g))"
  shows "\<exists>r st gs' gs''. ffi_guard_code th True f gs = (r, Some st, gs')
    \<and> ffi_guard_code th False f gs = (r, None, gs'') \<and> guard_ok gs' \<and> guard_ok gs''
    \<and> st_code st = (case r of Inr _ \<Rightarrow> FFI_OK | Inl c \<Rightarrow> c) \<and> owns_msg st (msg_heap gs')
    \<and> length (status_text st (msg_heap gs')) \<le> 32 * 1024 + 15
    \<and> (bx_map (msg_heap gs'))(st_msg st := None) = bx_map (msg_heap gs'')"
proof -
  obtain l0 gs1 where t: "take_panic_location th gs = (l0, gs1)" by force
  have ok1: "guard_ok gs1" by (rule take_panic_location_spec(1) [OF ok t])
  obtain o2 gs2 where f: "f gs1 = (o2, gs2)" by force
  have ok2: "guard_ok gs2" using body [OF ok1] f by simp
  have heap: "guard_ok g \<Longrightarrow> box_heap_ok h \<Longrightarrow> guard_ok (g\<lparr>msg_heap := h\<rparr>)" for g :: "'a guard_state_scheme" and h
    by (simp add: guard_ok_def)
  show ?thesis
  proof (cases o2)
    case (Done d)
    show ?thesis
    proof (cases d)
      case (Inr v)
      have "bx_map (msg_heap gs2) 0 = None" using ok2 by (simp add: guard_ok_def box_heap_ok_def)
      moreover from this have "(bx_map (msg_heap gs2))(0 := None) = bx_map (msg_heap gs2)" by auto
      ultimately show ?thesis using t f Done Inr ok2
        by (simp add: ffi_guard_code_def owns_msg_def FfiStatus_ok_def status_text_def)
    next
      case (Inl e)
      let ?n = "new_err (fe_code e) (truncate_payload (fe_msg e)) (fe_file e)
        (case fe_file e of Some s \<Rightarrow> length s | None \<Rightarrow> 0) (fe_line e) (msg_heap gs2)"
      obtain st h where n: "?n = (st, h)" by force
      have "box_heap_ok (msg_heap gs2)" using ok2 by (simp add: guard_ok_def)
      note ns = new_err_spec [OF this n]
      with t f Done Inl n heap [OF ok2, of h] ok2 truncate_payload_le [of "fe_msg e"] show ?thesis
        by (simp add: ffi_guard_code_def MAX_PANIC_PAYLOAD_BYTES_def)
    qed
  next
    case (Raised p)
    obtain l3 gs3 where t3: "take_panic_location th gs2 = (l3, gs3)" by force
    obtain m gs4 where e4: "extract_panic_payload th p gs3 = (m, gs4)" by force
    note x = extract_spec [OF take_panic_location_spec(1) [OF ok2 t3] e4]
    let ?n = "new_err FFI_PANIC m (map_option pl_file l3)
      (case l3 of Some l \<Rightarrow> length (pl_file l) | None \<Rightarrow> 0)
      (case l3 of Some l \<Rightarrow> pl_line l | None \<Rightarrow> 0) (msg_heap gs4)"
    obtain st h where n: "?n = (st, h)" by force
    have "box_heap_ok (msg_heap gs4)" using x unfolding guard_ok_def by blast
    note ns = new_err_spec [OF this n]
    with t f Raised t3 e4 n heap [of gs4 h] x show ?thesis
      by (simp add: ffi_guard_code_def MAX_PANIC_PAYLOAD_BYTES_def)
  qed
qed

theorem ffi_guard_code_total_witness:
  "\<exists>r st gs' gs''. ffi_guard_code \<lparr>th_id = 1, th_name = None\<rparr> True
       (\<lambda>g. (Done (Inl (FfiError_from_string [104, 105]) :: FfiError + unit), g)) guard_init = (r, Some st, gs')
    \<and> ffi_guard_code \<lparr>th_id = 1, th_name = None\<rparr> False
       (\<lambda>g. (Done (Inl (FfiError_from_string [104, 105]) :: FfiError + unit), g)) guard_init = (r, None, gs'')
    \<and> st_code st = (case r of Inr _ \<Rightarrow> FFI_OK | Inl c \<Rightarrow> c)"
proof -
  have "guard_ok guard_init" using guard_ok_init by (simp add: guard_ok_def install_panic_hook_def)
  from ffi_guard_code_total [OF this, of "\<lambda>g. (Done (Inl (FfiError_from_string [104, 105]) :: FfiError + unit), g)"]
  show ?thesis by auto blast
qed

text \<open>A caught panic is reported with its own place. When the body panics at some file and line,
  the host gets the panic code with that line and that file (or the placeholder once the file table
  is full), even if an earlier panic left a stale location for the thread and even if describing or
  dropping the payload panics again.\<close>

theorem ffi_guard_reports_panic:
  assumes "guard_ok gs" and "hook_installed gs"
    and "ffi_guard_code th True (\<lambda>g. (Raised p, raise_panic th l g)) gs = (r, Some st, gs')"
  shows "r = Inl FFI_PANIC \<and> st_code st = FFI_PANIC \<and> st_line st = snd l
    \<and> (st_file st = Some (fst l) \<or> st_file st = Some unknown_file)"
proof -
  obtain l0 gs1 where t: "take_panic_location th gs = (l0, gs1)" by force
  note tk = take_panic_location_spec [OF assms(1) t]
  note rp = raise_panic_spec [OF tk(1)]
  from rp(2) tk(5) assms(2) obtain pl where
    pl: "loc_of th (raise_panic th l gs1) = Some pl" "loc_matches pl l" by metis
  obtain l3 gs3 where t3: "take_panic_location th (raise_panic th l gs1) = (l3, gs3)" by force
  note tk3 = take_panic_location_spec [OF rp(1) t3]
  obtain m gs4 where e4: "extract_panic_payload th p gs3 = (m, gs4)" by force
  note x = extract_spec [OF tk3(1) e4]
  obtain st' h where n: "new_err FFI_PANIC m (Some (pl_file pl)) (length (pl_file pl)) (pl_line pl)
    (msg_heap gs4) = (st', h)" by force
  have "box_heap_ok (msg_heap gs4)" using x unfolding guard_ok_def by blast
  note ns = new_err_spec [OF this n]
  from assms(3) t t3 tk3(2) pl(1) e4 n have "r = Inl FFI_PANIC" "st = st'"
    by (auto simp: ffi_guard_code_def)
  with ns pl(2) show ?thesis by (auto simp: loc_matches_def)
qed

theorem ffi_guard_reports_panic_witness:
  "\<exists>r st gs'. ffi_guard_code \<lparr>th_id = 1, th_name = None\<rparr> True
      (\<lambda>g. (Raised (PStr [98]) :: (FfiError + unit) outcome, raise_panic \<lparr>th_id = 1, th_name = None\<rparr> ([97], 9) g))
      (install_panic_hook guard_init) = (r, Some st, gs') \<and> st_line st = 9"
proof -
  let ?th = "\<lparr>th_id = 1, th_name = None\<rparr>"
  let ?f = "\<lambda>g. (Raised (PStr [98]) :: (FfiError + unit) outcome, raise_panic ?th ([97], 9) g)"
  obtain r s gs' where run: "ffi_guard_code ?th True ?f (install_panic_hook guard_init) = (r, s, gs')"
    using prod_cases3 by blast
  moreover have "s \<noteq> None"
    using run by (auto simp: ffi_guard_code_def Let_def split: prod.splits)
  then obtain st where "s = Some st" by auto
  ultimately show ?thesis
    using ffi_guard_reports_panic [OF guard_ok_init, of ?th "PStr [98]" "([97], 9)" r st gs']
    by (auto simp: install_panic_hook_def)
qed

text \<open>
  The comment on \<open>MAX_PANIC_LOCATIONS\<close> says that overflow evicts the oldest entry. \<open>swap_remove\<close>
  moves the newest entry into the place of the one taken, so the entry evicted from the front can be
  a recent one while older ones stay: below, thread 255's entry goes and thread 1's, older by 254
  panics, survives.
\<close>

theorem overflow_may_evict_recent:
  "let ls = map (\<lambda>t. (t, l)) [0..<256];
       ls' = record_location 257 l (record_location 256 l (swap_remove 0 ls))
   in map_of ls' 255 = None \<and> map_of ls' 1 = Some l"
proof -
  obtain mid where mid: "mid = map (\<lambda>t. (t, l)) [Suc 0..<255]" by blast
  have "[0..<256] = 0 # [Suc 0..<255] @ [255]"
    using upt_conv_Cons [of 0 256] upt_Suc_append [of "Suc 0" 255] by simp
  then have "swap_remove 0 (map (\<lambda>t. (t, l)) [0..<256]) = (255, l) # mid"
    by (simp add: swap_remove_def mid)
  moreover have none: "position (\<lambda>e. fst e = t) ((255, l) # mid @ rest) = None"
    if "255 < t" "\<forall>e \<in> set rest. fst e \<noteq> t" for t rest
    using that by (auto simp: position_None_iff mid)
  have "record_location 256 l ((255, l) # mid) = (255, l) # mid @ [(256, l)]"
    using none [of 256 "[]"] by (simp add: record_location_def MAX_PANIC_LOCATIONS_def mid)
  moreover have "record_location 257 l ((255, l) # mid @ [(256, l)]) = mid @ [(256, l), (257, l)]"
    using none [of 257 "[(256, l)]"] by (simp add: record_location_def MAX_PANIC_LOCATIONS_def mid)
  moreover have "map_of mid 255 = None" "map_of mid 1 = Some l"
    using map_of_eq_Some_iff [of mid 1 l]
    by (auto simp: mid map_of_eq_None_iff distinct_map inj_on_def o_def)
  ultimately show ?thesis by (simp add: map_add_def)
qed

end
