(* ===== verification/Log_Ring.thy ===== *)
theory Log_Ring
  imports Gusset_Base
begin

text \<open>
  The bounded log ring of \<^verbatim>\<open>crates/gusset/src/ffi/mod.rs\<close>: \<open>append_line\<close> and its one-cut
  eviction \<open>evict_cut\<close>, the re-entrancy guard \<open>lock_log_ring\<close>, \<open>log_event\<close> with its count of
  dropped lines, and the draining export \<open>gusset_drain_logs\<close> with \<open>drain_cut\<close>. The lemmas show
  that the one-cut eviction is the line-by-line eviction it replaced, that the ring never
  exceeds its budget, that draining loses and reorders nothing and ends, and that neither
  splits a UTF-8 character.
\<close>

definition LOG_RING_CAPACITY :: nat where
  "LOG_RING_CAPACITY = 65536"

lemmas [gusset_consts] = LOG_RING_CAPACITY_def

abbreviation newline :: u8 where
  "newline \<equiv> 10"

subsection \<open>Eviction and append\<close>

text \<open>\<open>Vec\<close> lengths stay below \<open>isize::MAX\<close>, so \<open>ring.len() + needed\<close> cannot overflow.\<close>

definition evict_cut :: "bytes \<Rightarrow> nat \<Rightarrow> nat" where
  "evict_cut ring needed =
     (let excess = (length ring + needed) - LOG_RING_CAPACITY in
      if excess = 0 then 0
      else case (if excess - 1 \<le> length ring
                 then position (\<lambda>b. b = newline) (drop (excess - 1) ring) else None) of
             Some at \<Rightarrow> excess + at
           | None \<Rightarrow> length ring)"

definition append_line :: "bytes \<Rightarrow> rstr \<Rightarrow> bytes" where
  "append_line buf line =
     (let max_payload = LOG_RING_CAPACITY - 1;
          bs = (if length line > max_payload
                then take (floor_boundary line max_payload) line else line);
          ec = evict_cut buf (length bs + 1)
      in drop ec buf @ bs @ [newline])"

text \<open>The eviction as it is specified: drop the oldest line until the new one fits.\<close>

function evict_line_by_line :: "bytes \<Rightarrow> nat \<Rightarrow> bytes" where
  "evict_line_by_line ring needed =
     (if length ring + needed > LOG_RING_CAPACITY
      then case position (\<lambda>b. b = newline) ring of
             Some nl \<Rightarrow> evict_line_by_line (drop (Suc nl) ring) needed
           | None \<Rightarrow> []
      else ring)"
  by pat_completeness auto
termination
  by (relation "measure (\<lambda>(ring, needed). length ring)") (auto dest: position_SomeD)

declare evict_line_by_line.simps [simp del]

subsection \<open>The guarded ring\<close>

record log_state =
  log_buffer :: bytes
  log_owner :: "nat option"
  log_dropped :: u64
  log_dropped_total :: u64

text \<open>
  The ring's lock as a thread finds it: already held by this thread (\<open>None\<close> in the source),
  held by another one (the call waits), or taken.
\<close>

datatype lock_outcome = Reentered | Waits | Locked log_state

definition lock_log_ring :: "nat \<Rightarrow> log_state \<Rightarrow> lock_outcome" where
  "lock_log_ring me st =
     (if log_owner st = Some me then Reentered
      else if log_owner st \<noteq> None then Waits
      else Locked (st\<lparr>log_owner := Some me\<rparr>))"

text \<open>\<open>LogRingGuard::drop\<close>: the owner is cleared before the ring is released.\<close>

definition unlock_log_ring :: "log_state \<Rightarrow> log_state" where
  "unlock_log_ring st = st\<lparr>log_owner := None\<rparr>"

definition dropped_note :: "u64 \<Rightarrow> rstr" where
  "dropped_note n = lit ''gusset: '' @ show_nat (unat n)
     @ lit '' log line(s) dropped while the ring was busy''"

text \<open>\<open>None\<close> is a call that still waits for another thread to release the ring.\<close>

definition log_event :: "nat \<Rightarrow> rstr \<Rightarrow> log_state \<Rightarrow> log_state option" where
  "log_event me line st =
     (case lock_log_ring me st of
        Waits \<Rightarrow> None
      | Reentered \<Rightarrow> Some (st\<lparr>log_dropped := log_dropped st + 1,
                             log_dropped_total := log_dropped_total st + 1\<rparr>)
      | Locked st1 \<Rightarrow>
          let dropped = log_dropped st1;
              st2 = st1\<lparr>log_dropped := 0\<rparr>;
              buf1 = (if dropped > 0 then append_line (log_buffer st2) (dropped_note dropped)
                      else log_buffer st2);
              buf2 = append_line buf1 line
          in Some (unlock_log_ring (st2\<lparr>log_buffer := buf2\<rparr>)))"

subsection \<open>Draining\<close>

fun drain_back :: "bytes \<Rightarrow> nat \<Rightarrow> nat" where
  "drain_back ring 0 = 0"
| "drain_back ring (Suc n) = (if is_cont (ring ! Suc n) then drain_back ring n else Suc n)"

definition drain_cut :: "bytes \<Rightarrow> nat \<Rightarrow> nat" where
  "drain_cut ring cap =
     (let count = min (length ring) cap in
      if count = length ring then count
      else case rposition (\<lambda>b. b = newline) (take count ring) of
             Some nl \<Rightarrow> nl + 1
           | None \<Rightarrow> let c = drain_back ring count in if c = 0 then count else c)"

text \<open>
  What a drain call leaves: \<open>dr_written\<close> is the value stored through \<open>out_written\<close>
  (\<open>None\<close> when that pointer is null), \<open>dr_copied\<close> the bytes copied into the caller's buffer.
\<close>

record drain_result =
  dr_written :: "nat option"
  dr_copied :: bytes
  dr_state :: log_state

text \<open>
  \<open>buf_null\<close> and \<open>out_null\<close> say which pointers are null. As for \<open>log_event\<close>, \<open>None\<close> is a
  call still waiting for the ring.
\<close>

definition gusset_drain_logs ::
    "nat \<Rightarrow> bool \<Rightarrow> nat \<Rightarrow> bool \<Rightarrow> log_state \<Rightarrow> drain_result option" where
  "gusset_drain_logs me buf_null cap out_null st =
     (if buf_null \<or> cap = 0 \<or> out_null
      then Some \<lparr>dr_written = (if out_null then None else Some 0), dr_copied = [], dr_state = st\<rparr>
      else case lock_log_ring me st of
             Waits \<Rightarrow> None
           | Reentered \<Rightarrow> Some \<lparr>dr_written = Some 0, dr_copied = [], dr_state = st\<rparr>
           | Locked st1 \<Rightarrow>
               let count = drain_cut (log_buffer st1) cap
               in Some \<lparr>dr_written = Some count, dr_copied = take count (log_buffer st1),
                        dr_state = unlock_log_ring (st1\<lparr>log_buffer := drop count (log_buffer st1)\<rparr>)\<rparr>)"

text \<open>
  A caller flushing the ring drains with the same buffer until nothing is written. \<open>fuel\<close>
  bounds the calls; \<open>None\<close> means it ran out before the ring reported empty.
\<close>

fun drain_all :: "nat \<Rightarrow> nat \<Rightarrow> bytes \<Rightarrow> bytes list option" where
  "drain_all 0 cap ring = None"
| "drain_all (Suc fuel) cap ring =
     (let n = drain_cut ring cap in
      if n = 0 then Some []
      else map_option (\<lambda>cs. take n ring # cs) (drain_all fuel cap (drop n ring)))"

subsection \<open>One-cut eviction is line-by-line eviction\<close>

text \<open>A slice past the end holds no newline, so the range check of \<open>get\<close> can be dropped.\<close>

lemma evict_cut_alt:
  "evict_cut ring needed =
     (let e = (length ring + needed) - LOG_RING_CAPACITY in
      if e = 0 then 0
      else case position (\<lambda>b. b = newline) (drop (e - 1) ring) of
             Some at \<Rightarrow> e + at | None \<Rightarrow> length ring)"
  by (auto simp: evict_cut_def Let_def)

lemma evict_cut_0: "length ring + needed \<le> LOG_RING_CAPACITY \<Longrightarrow> evict_cut ring needed = 0"
  by (simp add: evict_cut_def)

lemma evict_cut_no_newline:
  assumes "position (\<lambda>b. b = newline) ring = None" and "length ring + needed > LOG_RING_CAPACITY"
  shows "evict_cut ring needed = length ring"
proof -
  have "position (\<lambda>b. b = newline) (drop k ring) = None" for k
    using assms(1) by (auto simp: position_None_iff dest: in_set_dropD)
  with assms(2) show ?thesis by (simp add: evict_cut_alt Let_def)
qed

lemma evict_cut_first_line:
  assumes nl: "position (\<lambda>b. b = newline) ring = Some nl"
    and over: "length ring + needed > LOG_RING_CAPACITY"
    and enough: "length ring + needed \<le> LOG_RING_CAPACITY + Suc nl"
  shows "evict_cut ring needed = Suc nl"
proof -
  define k where "k = (length ring + needed) - LOG_RING_CAPACITY - 1"
  have "k \<le> nl" using enough over by (simp add: k_def)
  have "position (\<lambda>b. b = newline) (drop k ring) = Some (nl - k)"
    using position_SomeD [OF nl] \<open>k \<le> nl\<close> by (intro position_eqI) auto
  with \<open>k \<le> nl\<close> over show ?thesis
    by (auto simp: evict_cut_alt Let_def k_def)
qed

lemma evict_cut_later_line:
  assumes nl: "position (\<lambda>b. b = newline) ring = Some nl"
    and more: "length ring + needed > LOG_RING_CAPACITY + Suc nl"
  shows "drop (evict_cut ring needed) ring =
         drop (evict_cut (drop (Suc nl) ring) needed) (drop (Suc nl) ring)"
proof -
  define e where "e = (length ring + needed) - LOG_RING_CAPACITY"
  have len: "Suc nl \<le> length ring" using position_SomeD [OF nl] by simp
  have e: "Suc nl < e" using more by (simp add: e_def)
  have e': "(length (drop (Suc nl) ring) + needed) - LOG_RING_CAPACITY = e - Suc nl"
    using len more by (simp add: e_def)
  have dd: "drop (e - Suc nl - 1) (drop (Suc nl) ring) = drop (e - 1) ring"
  proof -
    have "e - Suc nl - 1 + Suc nl = e - 1" using e by arith
    then show ?thesis by (simp only: drop_drop)
  qed
  show ?thesis
    unfolding evict_cut_alt Let_def e' dd e_def [symmetric]
    using e len by (auto split: option.splits)
qed

lemma evict_cut_eq_line_by_line:
  "drop (evict_cut ring needed) ring = evict_line_by_line ring needed"
proof (induction ring needed rule: evict_line_by_line.induct)
  case (1 ring needed)
  show ?case
  proof (cases "length ring + needed > LOG_RING_CAPACITY")
    case over: True
    show ?thesis
    proof (cases "position (\<lambda>b. b = newline) ring")
      case None
      with over show ?thesis
        by (simp add: evict_cut_no_newline evict_line_by_line.simps [of ring needed])
    next
      case (Some nl)
      have len: "Suc nl \<le> length ring" using position_SomeD [OF Some] by simp
      have "drop (evict_cut ring needed) ring =
            drop (evict_cut (drop (Suc nl) ring) needed) (drop (Suc nl) ring)"
      proof (cases "length ring + needed \<le> LOG_RING_CAPACITY + Suc nl")
        case True
        with len show ?thesis
          by (simp add: evict_cut_first_line [OF Some over] evict_cut_0)
      next
        case False
        then show ?thesis by (intro evict_cut_later_line [OF Some]) simp
      qed
      with 1 [OF over Some] show ?thesis
        by (simp add: evict_line_by_line.simps [of ring needed] over Some)
    qed
  next
    case False
    then show ?thesis by (simp add: evict_cut_0 evict_line_by_line.simps [of ring needed])
  qed
qed

subsection \<open>The budget\<close>

lemma evict_cut_makes_room:
  "needed \<le> LOG_RING_CAPACITY \<Longrightarrow> length ring - evict_cut ring needed + needed \<le> LOG_RING_CAPACITY"
  by (auto simp: evict_cut_alt Let_def split: option.splits)

lemma evict_cut_at_line_end:
  obtains "evict_cut ring needed = 0" | "evict_cut ring needed = length ring"
  | nl where "evict_cut ring needed = Suc nl" "nl < length ring" "ring ! nl = newline"
proof -
  define e where "e = (length ring + needed) - LOG_RING_CAPACITY"
  have ec: "evict_cut ring needed = (if e = 0 then 0
      else case position (\<lambda>b. b = newline) (drop (e - 1) ring) of
             Some at \<Rightarrow> e + at | None \<Rightarrow> length ring)"
    unfolding evict_cut_alt Let_def e_def ..
  show ?thesis
  proof (cases "position (\<lambda>b. b = newline) (drop (e - 1) ring)")
    case None
    with ec show ?thesis by (cases "e = 0") (auto intro: that(1,2))
  next
    case (Some at)
    with ec position_SomeD [OF Some] show ?thesis
      by (cases "e = 0") (auto intro: that(1) that(3) [of "e - 1 + at"])
  qed
qed

lemma append_line_shape:
  obtains k bs where "append_line buf line = drop k buf @ bs @ [newline]"
    and "k = evict_cut buf (length bs + 1)" and "length bs \<le> LOG_RING_CAPACITY - 1"
    and "bs = take (length bs) line" and "is_char_boundary line (length bs)"
    and "length line < LOG_RING_CAPACITY \<longrightarrow> bs = line"
proof (cases "length line > LOG_RING_CAPACITY - 1")
  case True
  define n where "n = floor_boundary line (LOG_RING_CAPACITY - 1)"
  have "n \<le> LOG_RING_CAPACITY - 1" unfolding n_def by (rule floor_boundary_le)
  moreover have "is_char_boundary line n" unfolding n_def by (rule floor_boundary_is_boundary)
  moreover have "append_line buf line =
      drop (evict_cut buf (length (take n line) + 1)) buf @ take n line @ [newline]"
    unfolding append_line_def Let_def n_def using True by simp
  ultimately show ?thesis using True
    by (intro that [of "evict_cut buf (length (take n line) + 1)" "take n line"]) auto
next
  case False
  then show ?thesis
    by (intro that [of "evict_cut buf (length line + 1)" line])
       (auto simp: append_line_def Let_def is_char_boundary_def)
qed

lemma append_line_ends:
  "\<exists>front n. append_line buf line = front @ take n line @ [newline] \<and> is_char_boundary line n
     \<and> (length line < LOG_RING_CAPACITY \<longrightarrow> n = length line)"
proof (rule append_line_shape [of buf line])
  fix k bs
  assume "append_line buf line = drop k buf @ bs @ [newline]" "bs = take (length bs) line"
    "is_char_boundary line (length bs)" "length line < LOG_RING_CAPACITY \<longrightarrow> bs = line"
  then show ?thesis by (intro exI [of _ "drop k buf"] exI [of _ "length bs"]) auto
qed

lemma append_line_length: "length (append_line buf line) \<le> LOG_RING_CAPACITY"
proof (rule append_line_shape [of buf line])
  fix k bs
  assume a: "append_line buf line = drop k buf @ bs @ [newline]"
    and k: "k = evict_cut buf (length bs + 1)" and bs: "length bs \<le> LOG_RING_CAPACITY - 1"
  have "length bs + 1 \<le> LOG_RING_CAPACITY" using bs by (simp add: LOG_RING_CAPACITY_def)
  from evict_cut_makes_room [OF this, of buf] show ?thesis by (simp add: a k)
qed

lemma append_line_valid:
  assumes "valid_utf8 buf" and "valid_utf8 line"
  shows "valid_utf8 (append_line buf line)"
proof (rule append_line_shape [of buf line])
  fix k bs
  assume a: "append_line buf line = drop k buf @ bs @ [newline]"
    and k: "k = evict_cut buf (length bs + 1)"
    and bs: "bs = take (length bs) line" "is_char_boundary line (length bs)"
  have "is_char_boundary buf k"
  proof (rule evict_cut_at_line_end [of buf "length bs + 1"])
    fix nl
    assume "evict_cut buf (length bs + 1) = Suc nl" "nl < length buf" "buf ! nl = newline"
    then show ?thesis using valid_utf8_after_ascii [OF assms(1), of nl] by (simp add: k)
  qed (simp_all add: k is_char_boundary_def)
  then have "valid_utf8 (drop k buf)" using valid_utf8_cut [OF assms(1)] by blast
  moreover have "valid_utf8 bs" using valid_utf8_cut [OF assms(2) bs(2)] bs(1) by simp
  moreover have "valid_utf8 [newline]" by (rule valid_utf8_ascii) simp
  ultimately show ?thesis by (simp add: a valid_utf8_append)
qed

lemma valid_dropped_note: "valid_utf8 (dropped_note n)"
  unfolding dropped_note_def
  by (intro valid_utf8_append valid_show_nat valid_lit) code_simp+

subsection \<open>What a drain hands over\<close>

lemma drain_back_le: "drain_back ring n \<le> n"
  by (induction n) auto

lemma drain_back_lead: "drain_back ring n \<noteq> 0 \<Longrightarrow> \<not> is_cont (ring ! drain_back ring n)"
  by (induction n) auto

lemma drain_back_ge: "j \<le> n \<Longrightarrow> 0 < j \<Longrightarrow> \<not> is_cont (ring ! j) \<Longrightarrow> j \<le> drain_back ring n"
  by (induction n) (auto simp: le_Suc_eq)

lemma drain_cut_cases:
  obtains "drain_cut ring cap = length ring" "length ring \<le> cap"
  | nl where "cap < length ring" "drain_cut ring cap = Suc nl" "nl < cap" "ring ! nl = newline"
  | "cap < length ring" "\<forall>b \<in> set (take cap ring). b \<noteq> newline"
    "drain_cut ring cap = (if drain_back ring cap = 0 then cap else drain_back ring cap)"
proof (cases "cap < length ring")
  case True
  then have min: "min (length ring) cap = cap" by simp
  show ?thesis
  proof (cases "rposition (\<lambda>b. b = newline) (take cap ring)")
    case None
    then have "\<forall>b \<in> set (take cap ring). b \<noteq> newline" by (simp only: rposition_None_iff not_False_eq_True)
    with None True min show ?thesis
      by (intro that(3)) (simp_all add: drain_cut_def Let_def)
  next
    case (Some nl)
    with rposition_SomeD [OF Some] True min show ?thesis
      by (intro that(2) [of nl]) (auto simp: drain_cut_def Let_def)
  qed
next
  case False
  then show ?thesis by (intro that(1)) (auto simp: drain_cut_def Let_def)
qed

lemma drain_cut_bounds:
  "drain_cut ring cap \<le> length ring \<and> drain_cut ring cap \<le> cap
   \<and> (ring \<noteq> [] \<and> 0 < cap \<longrightarrow> 0 < drain_cut ring cap)"
proof (rule drain_cut_cases [of ring cap])
qed (use drain_back_le [of ring cap] in auto)

lemma drain_cut_boundary:
  assumes valid: "valid_utf8 ring" and cap: "4 \<le> cap"
  shows "is_char_boundary ring (drain_cut ring cap)"
proof (rule drain_cut_cases [of ring cap])
  fix nl
  assume "cap < length ring" "drain_cut ring cap = Suc nl" "nl < cap" "ring ! nl = newline"
  then show ?thesis using valid_utf8_after_ascii [OF valid, of nl] by simp
next
  assume c: "cap < length ring"
    "drain_cut ring cap = (if drain_back ring cap = 0 then cap else drain_back ring cap)"
  obtain j where j: "j \<le> cap" "cap \<le> j + 3" "\<not> is_cont (ring ! j)"
    using valid_utf8_boundary_near [OF valid c(1)] by blast
  have "drain_back ring cap \<noteq> 0" using drain_back_ge [of j cap ring] j cap by auto
  with c drain_back_lead [of ring cap] drain_back_le [of ring cap] show ?thesis
    by (auto simp: is_char_boundary_def)
qed (simp add: is_char_boundary_def)

lemma drain_all_complete:
  "length ring < fuel \<Longrightarrow> 0 < cap \<Longrightarrow>
     \<exists>cs. drain_all fuel cap ring = Some cs \<and> concat cs = ring
          \<and> (\<forall>c \<in> set cs. c \<noteq> [] \<and> length c \<le> cap)"
proof (induction fuel arbitrary: ring)
  case (Suc fuel)
  define n where "n = drain_cut ring cap"
  have n: "n \<le> length ring" "n \<le> cap" "ring \<noteq> [] \<Longrightarrow> 0 < n"
    using drain_cut_bounds [of ring cap] Suc.prems(2) by (auto simp: n_def)
  show ?case
  proof (cases "n = 0")
    case True
    then have "ring = []" using n(3) by fastforce
    then show ?thesis by (simp add: drain_cut_def)
  next
    case False
    have "length (drop n ring) < fuel" using False n(1) Suc.prems(1) by simp
    from Suc.IH [OF this Suc.prems(2)] obtain cs
      where "drain_all fuel cap (drop n ring) = Some cs" "concat cs = drop n ring"
        "\<forall>c \<in> set cs. c \<noteq> [] \<and> length c \<le> cap" by blast
    with False n(1,2) show ?thesis
      by (auto simp: n_def [symmetric] Let_def)
  qed
qed simp

lemma drain_all_valid:
  "drain_all fuel cap ring = Some cs \<Longrightarrow> valid_utf8 ring \<Longrightarrow> 4 \<le> cap \<Longrightarrow> c \<in> set cs \<Longrightarrow> valid_utf8 c"
proof (induction fuel arbitrary: ring cs)
  case (Suc fuel)
  define n where "n = drain_cut ring cap"
  have v: "valid_utf8 (take n ring)" "valid_utf8 (drop n ring)"
    using valid_utf8_cut [OF Suc.prems(2) drain_cut_boundary [OF Suc.prems(2,3)]]
    by (auto simp: n_def)
  show ?case
  proof (cases "n = 0")
    case True
    with Suc.prems show ?thesis by (simp add: n_def [symmetric])
  next
    case False
    with Suc.prems(1) obtain ds where "cs = take n ring # ds" "drain_all fuel cap (drop n ring) = Some ds"
      by (auto simp: n_def [symmetric] Let_def)
    with Suc.IH [OF _ v(2) Suc.prems(3)] Suc.prems(4) v(1) show ?thesis by auto
  qed
qed simp

subsection \<open>Properties\<close>

text \<open>C31: Evicting with one cut found in one forward scan (\<open>evict_cut\<close>) keeps exactly the bytes
  that evicting the oldest whole line until the new one fits would keep, for every ring and
  every amount of room asked for.\<close>

theorem evict_cut_is_line_eviction:
  "drop (evict_cut ring needed) ring = evict_line_by_line ring needed"
  by (rule evict_cut_eq_line_by_line)

text \<open>A logging call by a thread that can take the ring always lands: the ring stays within its
  64 KiB budget, ends with the logged line (cut, at a character boundary, only when it is longer
  than the whole budget), stays well-formed UTF-8, keeps no stale drop count and is released.\<close>

theorem log_event_appends:
  assumes free: "log_owner st = None"
    and utf8: "valid_utf8 (log_buffer st)" "valid_utf8 line"
  shows "\<exists>st' front n. log_event me line st = Some st'
           \<and> log_buffer st' = front @ take n line @ [newline]
           \<and> is_char_boundary line n \<and> (length line < LOG_RING_CAPACITY \<longrightarrow> n = length line)
           \<and> length (log_buffer st') \<le> LOG_RING_CAPACITY \<and> valid_utf8 (log_buffer st')
           \<and> log_dropped st' = 0 \<and> log_dropped_total st' = log_dropped_total st
           \<and> log_owner st' = None"
proof -
  define buf1 where "buf1 = (if log_dropped st > 0
    then append_line (log_buffer st) (dropped_note (log_dropped st)) else log_buffer st)"
  define st' where "st' = st\<lparr>log_owner := None, log_dropped := 0, log_buffer := append_line buf1 line\<rparr>"
  have ev: "log_event me line st = Some st'"
    using free by (simp add: st'_def log_event_def lock_log_ring_def unlock_log_ring_def buf1_def Let_def)
  have "valid_utf8 buf1"
    using utf8(1) by (auto simp: buf1_def intro!: append_line_valid valid_dropped_note)
  then have "valid_utf8 (append_line buf1 line)" using utf8(2) by (rule append_line_valid)
  moreover have "log_owner st' = None" "log_dropped st' = 0" "log_dropped_total st' = log_dropped_total st"
    "log_buffer st' = append_line buf1 line"
    by (simp_all add: st'_def)
  ultimately show ?thesis
    using append_line_ends [of buf1 line] append_line_length [of buf1 line] ev by metis
qed

theorem log_event_appends_witness:
  "\<exists>st' front n. log_event 7 (lit ''hi'')
       \<lparr>log_buffer = [], log_owner = None, log_dropped = 0, log_dropped_total = 0\<rparr> = Some st'
     \<and> log_buffer st' = front @ take n (lit ''hi'') @ [newline] \<and> n = 2"
proof -
  have free: "log_owner \<lparr>log_buffer = [], log_owner = None, log_dropped = 0, log_dropped_total = 0\<rparr> = None"
    by simp
  have v0: "valid_utf8 (log_buffer
      \<lparr>log_buffer = [], log_owner = None, log_dropped = 0, log_dropped_total = 0\<rparr>)"
    by (simp add: valid_utf8.valid_Nil)
  have v1: "valid_utf8 (lit ''hi'')" by (rule valid_lit) code_simp
  have small: "length (lit ''hi'') < LOG_RING_CAPACITY" by (simp add: LOG_RING_CAPACITY_def)
  have len: "length (lit ''hi'') = 2" by simp
  from log_event_appends [OF free v0 v1, of 7] small show ?thesis unfolding len by blast
qed



end
