(* ===== verification/Fifo_Spec.thy ===== *)
theory Fifo_Spec
  imports Gusset_Base
begin

text \<open>
  The contract of a bounded first-in first-out buffer, as its users rely on it. The work queue
  (\<open>pool/queue.rs\<close>) and the completion ring (\<open>pool/ring.rs\<close>) both provide it; what a sequence of
  calls then does is proved once, here.

  \<open>put\<close> takes what the producer hands over and \<open>get\<close> returns what the consumer sees; the two may
  differ in form (the ring's consumer sees the words of a slot), so \<open>matches\<close> relates them.
\<close>

locale bounded_fifo =
  fixes ok :: "'s \<Rightarrow> bool"
    and contents :: "'s \<Rightarrow> 'b list"
    and bound :: "'s \<Rightarrow> nat"
    and put :: "'a \<Rightarrow> 's \<Rightarrow> bool \<times> 's"
    and get :: "'s \<Rightarrow> 'b option \<times> 's"
    and valid :: "'a \<Rightarrow> bool"
    and matches :: "'a \<Rightarrow> 'b \<Rightarrow> bool"
  assumes put_room: "ok s \<Longrightarrow> valid a \<Longrightarrow> length (contents s) < bound s \<Longrightarrow>
      \<exists>b s'. put a s = (True, s') \<and> ok s' \<and> matches a b \<and> contents s' = contents s @ [b] \<and> bound s' = bound s"
    and put_full: "ok s \<Longrightarrow> valid a \<Longrightarrow> bound s \<le> length (contents s) \<Longrightarrow> put a s = (False, s)"
    and get_empty: "ok s \<Longrightarrow> contents s = [] \<Longrightarrow> get s = (None, s)"
    and get_front: "ok s \<Longrightarrow> contents s = b # bs \<Longrightarrow>
      \<exists>s'. get s = (Some b, s') \<and> ok s' \<and> contents s' = bs \<and> bound s' = bound s"

text \<open>A sequence of calls: \<open>Some a\<close> puts, \<open>None\<close> gets; the accepted and the returned items are
  collected in order.\<close>

fun fifo_run :: "('a \<Rightarrow> 's \<Rightarrow> bool \<times> 's) \<Rightarrow> ('s \<Rightarrow> 'b option \<times> 's) \<Rightarrow> 'a option list \<Rightarrow> 's
    \<Rightarrow> 'a list \<times> 'b list \<times> 's" where
  "fifo_run put get [] s = ([], [], s)"
| "fifo_run put get (Some a # ops) s =
     (let (acc, s1) = put a s; (ins, outs, s2) = fifo_run put get ops s1
      in ((if acc then a # ins else ins), outs, s2))"
| "fifo_run put get (None # ops) s =
     (let (r, s1) = get s; (ins, outs, s2) = fifo_run put get ops s1
      in (ins, (case r of Some b \<Rightarrow> b # outs | None \<Rightarrow> outs), s2))"

context bounded_fifo
begin

lemma get_total:
  assumes "ok s"
  obtains r s' where "get s = (r, s')" "ok s'" "bound s' = bound s"
    "case r of None \<Rightarrow> contents s = [] \<and> contents s' = [] | Some b \<Rightarrow> contents s = b # contents s'"
  using assms get_empty get_front [of s] by (cases "contents s") fastforce+

lemma put_total:
  assumes "ok s" and "valid a" and "length (contents s) \<le> bound s"
  obtains acc s' where "put a s = (acc, s')" "ok s'" "bound s' = bound s"
    "length (contents s') \<le> bound s'"
    "if acc then \<exists>b. matches a b \<and> contents s' = contents s @ [b] else contents s' = contents s \<and> s' = s"
proof (cases "length (contents s) < bound s")
  case True
  from put_room [OF assms(1,2) True] obtain b s' where
    "put a s = (True, s')" "ok s'" "matches a b" "contents s' = contents s @ [b]" "bound s' = bound s" by blast
  with True show ?thesis by (intro that [of True s']) auto
next
  case False
  with put_full [OF assms(1,2)] assms show ?thesis by (intro that [of False s]) auto
qed

text \<open>First in, first out, nothing lost and nothing made up, never more than the bound.\<close>

lemma run_fifo:
  assumes "ok s" and "length (contents s) \<le> bound s" and "\<forall>a. Some a \<in> set ops \<longrightarrow> valid a"
    and "fifo_run put get ops s = (ins, outs, s')"
  shows "ok s' \<and> length (contents s') \<le> bound s \<and> bound s' = bound s
    \<and> (\<exists>bs. list_all2 matches ins bs \<and> contents s @ bs = outs @ contents s')"
  using assms
proof (induction ops arbitrary: s ins outs s')
  case Nil
  then show ?case by auto
next
  case (Cons op ops)
  show ?case
  proof (cases op)
    case None
    obtain r s1 where g: "get s = (r, s1)" "ok s1" "bound s1 = bound s"
      "case r of None \<Rightarrow> contents s = [] \<and> contents s1 = [] | Some b \<Rightarrow> contents s = b # contents s1"
      by (rule get_total [OF Cons.prems(1)])
    obtain ins1 outs1 s2 where r: "fifo_run put get ops s1 = (ins1, outs1, s2)" by (metis prod_cases3)
    have len: "length (contents s1) \<le> bound s1"
      using g Cons.prems(2) by (auto split: option.splits)
    have eq: "s' = s2" "ins = ins1" "outs = (case r of Some b \<Rightarrow> b # outs1 | None \<Rightarrow> outs1)"
      using Cons.prems(4) None g(1) r by auto
    from Cons.IH [OF g(2) len _ r] Cons.prems(3) g(3,4) eq show ?thesis
      by (auto split: option.splits)
  next
    case (Some a)
    with Cons.prems(3) have va: "valid a" by simp
    obtain acc s1 where p: "put a s = (acc, s1)" "ok s1" "bound s1 = bound s" "length (contents s1) \<le> bound s1"
      "if acc then \<exists>b. matches a b \<and> contents s1 = contents s @ [b] else contents s1 = contents s \<and> s1 = s"
      by (rule put_total [OF Cons.prems(1) va Cons.prems(2)])
    obtain ins1 outs1 s2 where r: "fifo_run put get ops s1 = (ins1, outs1, s2)" by (metis prod_cases3)
    have eq: "s' = s2" "outs = outs1" "ins = (if acc then a # ins1 else ins1)"
      using Cons.prems(4) Some p(1) r by auto
    from Cons.IH [OF p(2,4) _ r] Cons.prems(3) obtain bs where
      ih: "ok s2" "length (contents s2) \<le> bound s1" "bound s2 = bound s1" "list_all2 matches ins1 bs"
        "contents s1 @ bs = outs1 @ contents s2" by auto
    show ?thesis
    proof (cases acc)
      case True
      with p(5) obtain b where "matches a b" "contents s1 = contents s @ [b]" by auto
      with ih eq p(3) True show ?thesis by (intro conjI exI [of _ "b # bs"]) auto
    qed (use ih eq p(3,5) in auto)
  qed
qed

end

end
