(* ===== verification/Job_Queue.thy ===== *)
theory Job_Queue
  imports Fifo_Spec
begin

text \<open>
  The bounded work queue with spin-then-park workers (\<open>pool/queue.rs\<close>). Each definition below is
  one critical section or one atomic access of the code; \<open>jq_step\<close> interleaves them for any number
  of submitters and a fixed set of workers, with \<open>notify_one\<close>/\<open>notify_all\<close> made after the lock is
  released, wakes that find nobody, and spurious wakes. The mutex makes a critical section one step;
  the atomics read outside the lock (\<open>queued\<close>, \<open>closed\<close>, \<open>spinning\<close>) have their own steps.
\<close>

subsection \<open>The queue\<close>

definition WORKER_SPIN :: nat where "WORKER_SPIN = 50000"
definition WORKER_SPIN_HOT :: nat where "WORKER_SPIN_HOT = 5000"

text \<open>\<open>items\<close>, \<open>jq_closed\<close> and \<open>sleepers\<close> are the fields of \<open>State\<close>, behind the mutex.\<close>

record 'a JobQueue =
  items :: "'a list"
  jq_closed :: bool
  sleepers :: nat
  jq_cap :: nat
  spinning :: nat
  queued :: nat
  closed_flag :: bool

datatype 'a PushError = Full 'a | Closed 'a

definition JobQueue_new :: "nat \<Rightarrow> 'a JobQueue" where
  "JobQueue_new cap = \<lparr>items = [], jq_closed = False, sleepers = 0, jq_cap = max cap 1,
                       spinning = 0, queued = 0, closed_flag = False\<rparr>"

text \<open>\<open>push\<close>: the value on success is whether a sleeper has to be notified after the unlock.\<close>

definition push :: "'a \<Rightarrow> 'a JobQueue \<Rightarrow> ('a PushError + bool) \<times> 'a JobQueue" where
  "push x q =
     (if jq_closed q then (Inl (Closed x), q)
      else if jq_cap q \<le> length (items q) then (Inl (Full x), q)
      else
        (let q1 = q\<lparr>items := items q @ [x], queued := length (items q) + 1\<rparr>
         in (Inr (0 < sleepers q1 \<and> spinning q1 < length (items q1)), q1)))"

text \<open>\<open>QueueSender::try_send\<close> and the two stores of \<open>close\<close>, before its \<open>notify_all\<close>.\<close>

definition try_send :: "'a \<Rightarrow> 'a JobQueue \<Rightarrow> ('a PushError + bool) \<times> 'a JobQueue" where
  "try_send x q = push x q"

definition close_lock :: "'a JobQueue \<Rightarrow> 'a JobQueue" where
  "close_lock q = q\<lparr>jq_closed := True\<rparr>"

definition close_store :: "'a JobQueue \<Rightarrow> 'a JobQueue" where
  "close_store q = q\<lparr>closed_flag := True\<rparr>"

subsection \<open>The phases of pop\<close>

definition pop_enter :: "'a JobQueue \<Rightarrow> 'a JobQueue" where
  "pop_enter q = q\<lparr>spinning := spinning q + 1\<rparr>"

text \<open>One poll that finds the lock free: nothing to take, or a unit, taken and no longer counted as
  polling before the lock is released.\<close>

definition pop_poll :: "'a JobQueue \<Rightarrow> 'a option \<times> 'a JobQueue" where
  "pop_poll q =
     (if 0 < queued q then
        (case items q of
           x # xs \<Rightarrow> (Some x, q\<lparr>items := xs, queued := length xs, spinning := spinning q - 1\<rparr>)
         | [] \<Rightarrow> (None, q))
      else (None, q))"

text \<open>The other way out of the loop: an empty closed queue, or the poll budget, checked every 32
  polls against the elapsed time.\<close>

definition poll_sees_closed :: "'a JobQueue \<Rightarrow> bool" where
  "poll_sees_closed q \<longleftrightarrow> queued q = 0 \<and> closed_flag q"

datatype poll_pause = PollYield | PollSpin

definition poll_tick :: "u32 \<Rightarrow> bool \<Rightarrow> nat \<Rightarrow> (u32 \<times> bool \<times> poll_pause) option" where
  "poll_tick polls hot spent =
     (let polls1 = polls + 1;
          due = (polls1 mod 32 = 0);
          hot1 = (if due then spent < WORKER_SPIN_HOT else hot)
      in if due \<and> WORKER_SPIN \<le> spent then None
         else Some (polls1, hot1, if \<not> hot1 \<and> polls1 mod 4 = 0 then PollYield else PollSpin))"

definition pop_leave :: "'a JobQueue \<Rightarrow> 'a JobQueue" where
  "pop_leave q = q\<lparr>spinning := spinning q - 1\<rparr>"

text \<open>One turn of the locked loop, up to a return or the wait.\<close>

datatype 'a locked_pop = Took 'a | Drained | Sleeps

definition pop_locked :: "'a JobQueue \<Rightarrow> 'a locked_pop \<times> 'a JobQueue" where
  "pop_locked q =
     (case items q of
        x # xs \<Rightarrow> (Took x, q\<lparr>items := xs, queued := length xs\<rparr>)
      | [] \<Rightarrow> if jq_closed q then (Drained, q) else (Sleeps, q\<lparr>sleepers := sleepers q + 1\<rparr>))"

definition pop_wake :: "'a JobQueue \<Rightarrow> 'a JobQueue" where
  "pop_wake q = q\<lparr>sleepers := sleepers q - 1\<rparr>"

subsection \<open>Interleavings\<close>

text \<open>Where a worker is: running a unit, polling, between the poll and the lock, in the condition
  variable, woken but not yet holding the lock, or gone.\<close>

datatype worker_pc = Busy | Polling u32 bool | Leaving | Asleep | Woken | Exited

text \<open>\<open>notifies\<close> counts the pushes between unlock and \<open>notify_one\<close>, \<open>closes\<close> the closes between the
  lock and \<open>notify_all\<close>; \<open>accepted\<close> and \<open>handed\<close> record the history.\<close>

record 'a jq_sys =
  jq :: "'a JobQueue"
  pcs :: "worker_pc list"
  notifies :: nat
  closes :: nat
  accepted :: "'a list"
  handed :: "'a list"

definition jq_start :: "nat \<Rightarrow> nat \<Rightarrow> 'a jq_sys" where
  "jq_start cap workers = \<lparr>jq = JobQueue_new cap, pcs = replicate workers Busy, notifies = 0,
                           closes = 0, accepted = [], handed = []\<rparr>"

definition wake_all :: "worker_pc list \<Rightarrow> worker_pc list" where
  "wake_all ps = map (\<lambda>p. if p = Asleep then Woken else p) ps"

inductive jq_step :: "'a jq_sys \<Rightarrow> 'a jq_sys \<Rightarrow> bool" where
  push_ok: "try_send x (jq s) = (Inr wake, q') \<Longrightarrow>
     jq_step s (s\<lparr>jq := q', notifies := notifies s + (if wake then 1 else 0), accepted := accepted s @ [x]\<rparr>)"
| push_refused: "try_send x (jq s) = (Inl e, q') \<Longrightarrow> jq_step s (s\<lparr>jq := q'\<rparr>)"
| notify_hit: "0 < notifies s \<Longrightarrow> w < length (pcs s) \<Longrightarrow> pcs s ! w = Asleep \<Longrightarrow>
     jq_step s (s\<lparr>notifies := notifies s - 1, pcs := (pcs s)[w := Woken]\<rparr>)"
| notify_miss: "0 < notifies s \<Longrightarrow> Asleep \<notin> set (pcs s) \<Longrightarrow>
     jq_step s (s\<lparr>notifies := notifies s - 1\<rparr>)"
| spurious: "w < length (pcs s) \<Longrightarrow> pcs s ! w = Asleep \<Longrightarrow> jq_step s (s\<lparr>pcs := (pcs s)[w := Woken]\<rparr>)"
| pop_start: "w < length (pcs s) \<Longrightarrow> pcs s ! w = Busy \<Longrightarrow>
     jq_step s (s\<lparr>jq := pop_enter (jq s), pcs := (pcs s)[w := Polling 0 True]\<rparr>)"
| poll_take: "w < length (pcs s) \<Longrightarrow> pcs s ! w = Polling n hot \<Longrightarrow> pop_poll (jq s) = (Some x, q') \<Longrightarrow>
     jq_step s (s\<lparr>jq := q', pcs := (pcs s)[w := Busy], handed := handed s @ [x]\<rparr>)"
| poll_again: "w < length (pcs s) \<Longrightarrow> pcs s ! w = Polling n hot \<Longrightarrow> \<not> poll_sees_closed (jq s) \<Longrightarrow>
     poll_tick n hot spent = Some (n', hot', pause) \<Longrightarrow>
     jq_step s (s\<lparr>pcs := (pcs s)[w := Polling n' hot']\<rparr>)"
| poll_break: "w < length (pcs s) \<Longrightarrow> pcs s ! w = Polling n hot \<Longrightarrow>
     poll_sees_closed (jq s) \<or> poll_tick n hot spent = None \<Longrightarrow>
     jq_step s (s\<lparr>jq := pop_leave (jq s), pcs := (pcs s)[w := Leaving]\<rparr>)"
| locked: "w < length (pcs s) \<Longrightarrow> pcs s ! w = Leaving \<and> q = jq s \<or> pcs s ! w = Woken \<and> q = pop_wake (jq s) \<Longrightarrow>
     pop_locked q = (r, q') \<Longrightarrow>
     jq_step s (s\<lparr>jq := q',
       pcs := (pcs s)[w := (case r of Took _ \<Rightarrow> Busy | Drained \<Rightarrow> Exited | Sleeps \<Rightarrow> Asleep)],
       handed := handed s @ (case r of Took x \<Rightarrow> [x] | _ \<Rightarrow> [])\<rparr>)"
| close_locked: "jq_step s (s\<lparr>jq := close_lock (jq s), closes := closes s + 1\<rparr>)"
| close_stored: "0 < closes s \<Longrightarrow> jq_step s (s\<lparr>jq := close_store (jq s)\<rparr>)"
| close_notified: "0 < closes s \<Longrightarrow> closed_flag (jq s) \<Longrightarrow>
     jq_step s (s\<lparr>closes := closes s - 1, pcs := wake_all (pcs s)\<rparr>)"

inductive jq_reachable :: "nat \<Rightarrow> nat \<Rightarrow> 'a jq_sys \<Rightarrow> bool" for cap workers where
  start: "jq_reachable cap workers (jq_start cap workers)"
| step: "jq_reachable cap workers s \<Longrightarrow> jq_step s s' \<Longrightarrow> jq_reachable cap workers s'"

subsection \<open>Counting workers\<close>

fun is_polling :: "worker_pc \<Rightarrow> bool" where
  "is_polling (Polling _ _) = True"
| "is_polling _ = False"

definition workers_in :: "(worker_pc \<Rightarrow> bool) \<Rightarrow> worker_pc list \<Rightarrow> nat" where
  "workers_in P ps = length (filter P ps)"

lemma workers_in_update:
  "w < length ps \<Longrightarrow>
     workers_in P (ps[w := x]) + (if P (ps ! w) then 1 else 0) = workers_in P ps + (if P x then 1 else 0)"
proof (induction ps arbitrary: w)
  case (Cons p ps)
  then show ?case by (cases w) (auto simp: workers_in_def)
qed simp

lemma wake_all_simps [simp]:
  "wake_all [] = []" "wake_all (p # ps) = (if p = Asleep then Woken else p) # wake_all ps"
  by (simp_all add: wake_all_def)

lemma workers_in_simps [simp]:
  "workers_in P [] = 0" "workers_in P (p # ps) = (if P p then 1 else 0) + workers_in P ps"
  by (simp_all add: workers_in_def)

lemma workers_in_wake_all:
  "workers_in is_polling (wake_all ps) = workers_in is_polling ps"
  "workers_in (\<lambda>p. p = Leaving) (wake_all ps) = workers_in (\<lambda>p. p = Leaving) ps"
  "workers_in (\<lambda>p. p = Asleep) (wake_all ps) = 0"
  "workers_in (\<lambda>p. p = Woken) (wake_all ps) = workers_in (\<lambda>p. p = Woken) ps + workers_in (\<lambda>p. p = Asleep) ps"
  "workers_in (\<lambda>p. p = Exited) (wake_all ps) = workers_in (\<lambda>p. p = Exited) ps"
  by (induction ps) simp_all

lemma asleep_iff: "Asleep \<in> set ps \<longleftrightarrow> 0 < workers_in (\<lambda>p. p = Asleep) ps"
  by (induction ps) (auto simp: workers_in_def)

lemma exited_iff: "Exited \<in> set ps \<longleftrightarrow> 0 < workers_in (\<lambda>p. p = Exited) ps"
  by (induction ps) (auto simp: workers_in_def)

definition jq_inv :: "nat \<Rightarrow> 'a jq_sys \<Rightarrow> bool" where
  "jq_inv cap s \<longleftrightarrow>
     jq_cap (jq s) = max cap 1 \<and> length (items (jq s)) \<le> jq_cap (jq s)
     \<and> queued (jq s) = length (items (jq s))
     \<and> spinning (jq s) = workers_in is_polling (pcs s)
     \<and> sleepers (jq s) = workers_in (\<lambda>p. p = Asleep) (pcs s) + workers_in (\<lambda>p. p = Woken) (pcs s)
     \<and> accepted s = handed s @ items (jq s)
     \<and> (0 < workers_in (\<lambda>p. p = Asleep) (pcs s) \<longrightarrow>
          length (items (jq s)) \<le> workers_in is_polling (pcs s) + workers_in (\<lambda>p. p = Leaving) (pcs s)
             + workers_in (\<lambda>p. p = Woken) (pcs s) + notifies s)
     \<and> (jq_closed (jq s) \<and> closes s = 0 \<longrightarrow> workers_in (\<lambda>p. p = Asleep) (pcs s) = 0)
     \<and> (0 < workers_in (\<lambda>p. p = Exited) (pcs s) \<longrightarrow> jq_closed (jq s) \<and> items (jq s) = [])
     \<and> (0 < closes s \<or> closed_flag (jq s) \<longrightarrow> jq_closed (jq s))"

lemma jq_inv_start: "jq_inv cap (jq_start cap workers)"
  by (simp add: jq_inv_def jq_start_def JobQueue_new_def workers_in_def)

lemmas jq_ops = push_def try_send_def close_lock_def close_store_def pop_enter_def pop_poll_def
  pop_leave_def pop_locked_def pop_wake_def poll_sees_closed_def

text \<open>What moving one worker from \<open>p\<close> to \<open>x\<close> does to the five counts the invariant mentions.\<close>

lemma move_worker:
  assumes "w < length ps" and "ps ! w = p"
  shows "workers_in is_polling (ps[w := x]) + (if is_polling p then 1 else 0)
      = workers_in is_polling ps + (if is_polling x then 1 else 0)"
    and "workers_in (\<lambda>p. p = Leaving) (ps[w := x]) + (if p = Leaving then 1 else 0)
      = workers_in (\<lambda>p. p = Leaving) ps + (if x = Leaving then 1 else 0)"
    and "workers_in (\<lambda>p. p = Asleep) (ps[w := x]) + (if p = Asleep then 1 else 0)
      = workers_in (\<lambda>p. p = Asleep) ps + (if x = Asleep then 1 else 0)"
    and "workers_in (\<lambda>p. p = Woken) (ps[w := x]) + (if p = Woken then 1 else 0)
      = workers_in (\<lambda>p. p = Woken) ps + (if x = Woken then 1 else 0)"
    and "workers_in (\<lambda>p. p = Exited) (ps[w := x]) + (if p = Exited then 1 else 0)
      = workers_in (\<lambda>p. p = Exited) ps + (if x = Exited then 1 else 0)"
  using workers_in_update [OF assms(1), of is_polling x] workers_in_update [OF assms(1), of "\<lambda>p. p = Leaving" x]
    workers_in_update [OF assms(1), of "\<lambda>p. p = Asleep" x] workers_in_update [OF assms(1), of "\<lambda>p. p = Woken" x]
    workers_in_update [OF assms(1), of "\<lambda>p. p = Exited" x] assms(2)
  by simp_all

lemma jq_inv_locked:
  assumes "jq_inv cap s" and w: "w < length (pcs s)"
    and q: "pcs s ! w = Leaving \<and> q = jq s \<or> pcs s ! w = Woken \<and> q = pop_wake (jq s)"
    and r: "pop_locked q = (r, q')"
  shows "jq_inv cap (s\<lparr>jq := q',
       pcs := (pcs s)[w := (case r of Took _ \<Rightarrow> Busy | Drained \<Rightarrow> Exited | Sleeps \<Rightarrow> Asleep)],
       handed := handed s @ (case r of Took x \<Rightarrow> [x] | _ \<Rightarrow> [])\<rparr>)"
proof -
  have it: "items q = items (jq s)" "jq_closed q = jq_closed (jq s)" using q by (auto simp: pop_wake_def)
  note m = move_worker [OF w refl]
  show ?thesis
  proof (cases "items (jq s)")
    case (Cons x xs)
    with r it have "r = Took x" "q' = q\<lparr>items := xs, queued := length xs\<rparr>" by (auto simp: pop_locked_def)
    with Cons assms(1) q m [of Busy] show ?thesis by (auto simp: jq_inv_def pop_wake_def)
  next
    case Nil
    show ?thesis
    proof (cases "jq_closed (jq s)")
      case True
      with Nil r it have "r = Drained" "q' = q" by (auto simp: pop_locked_def)
      with Nil True assms(1) q m [of Exited] show ?thesis by (auto simp: jq_inv_def pop_wake_def)
    next
      case False
      with Nil r it have "r = Sleeps" "q' = q\<lparr>sleepers := sleepers q + 1\<rparr>" by (auto simp: pop_locked_def)
      with Nil False assms(1) q m [of Asleep] show ?thesis by (auto simp: jq_inv_def pop_wake_def)
    qed
  qed
qed

lemma jq_inv_step: "jq_step s s' \<Longrightarrow> jq_inv cap s \<Longrightarrow> jq_inv cap s'"
proof (induction rule: jq_step.induct)
  case (push_ok x s wake q')
  then have "\<not> jq_closed (jq s)" "length (items (jq s)) < jq_cap (jq s)"
    "q' = (jq s)\<lparr>items := items (jq s) @ [x], queued := length (items (jq s)) + 1\<rparr>"
    "wake = (0 < sleepers (jq s) \<and> spinning (jq s) < length (items (jq s)) + 1)"
    by (simp_all add: try_send_def push_def Let_def split: if_splits)
  with push_ok.prems show ?case by (simp add: jq_inv_def)
next
  case (push_refused x s e q')
  then have "q' = jq s" by (simp add: try_send_def push_def Let_def split: if_splits)
  with push_refused.prems show ?case by simp
next
  case (notify_hit s w)
  with move_worker [OF notify_hit.hyps(2,3), of Woken] show ?case by (auto simp: jq_inv_def)
next
  case (spurious w s)
  with move_worker [OF spurious.hyps, of Woken] show ?case by (auto simp: jq_inv_def)
next
  case (notify_miss s)
  then show ?case by (auto simp: jq_inv_def asleep_iff)
next
  case (pop_start w s)
  with move_worker [OF pop_start.hyps, of "Polling 0 True"] show ?case
    by (auto simp: jq_inv_def pop_enter_def)
next
  case (poll_take w s n hot x q')
  then obtain xs where "items (jq s) = x # xs"
    "q' = (jq s)\<lparr>items := xs, queued := length xs, spinning := spinning (jq s) - 1\<rparr>"
    by (auto simp: pop_poll_def split: if_splits list.splits)
  with poll_take.prems move_worker [OF poll_take.hyps(1,2), of Busy] show ?case
    by (auto simp: jq_inv_def)
next
  case (poll_again w s n hot spent n' hot' pause)
  with move_worker [OF poll_again.hyps(1,2), of "Polling n' hot'"] show ?case by (simp add: jq_inv_def)
next
  case (poll_break w s n hot spent)
  with move_worker [OF poll_break.hyps(1,2), of Leaving] show ?case by (auto simp: jq_inv_def pop_leave_def)
next
  case (locked w s q r q')
  then show ?case using jq_inv_locked by blast
next
  case (close_locked s)
  then show ?case by (simp add: jq_inv_def close_lock_def)
next
  case (close_stored s)
  then show ?case by (simp add: jq_inv_def close_store_def)
next
  case (close_notified s)
  then show ?case by (simp add: jq_inv_def workers_in_wake_all)
qed

lemma jq_inv_reachable: "jq_reachable cap workers s \<Longrightarrow> jq_inv cap s"
  by (induction rule: jq_reachable.induct) (auto intro: jq_inv_start jq_inv_step)

lemma jq_step_workers: "jq_step s s' \<Longrightarrow> length (pcs s') = length (pcs s)"
  by (induction rule: jq_step.induct) (auto simp: wake_all_def)

lemma jq_reachable_workers: "jq_reachable cap workers s \<Longrightarrow> length (pcs s) = workers"
  by (induction rule: jq_reachable.induct) (auto simp: jq_start_def jq_step_workers)

subsection \<open>The queue as a bounded buffer\<close>

text \<open>An uncontended \<open>try_send\<close>, and a \<open>pop\<close> up to the point where it would park.\<close>

definition send_now :: "'a \<Rightarrow> 'a JobQueue \<Rightarrow> bool \<times> 'a JobQueue" where
  "send_now x q = (case try_send x q of (Inr _, q') \<Rightarrow> (True, q') | (Inl _, q') \<Rightarrow> (False, q'))"

definition pop_now :: "'a JobQueue \<Rightarrow> 'a option \<times> 'a JobQueue" where
  "pop_now q = (case pop_poll (pop_enter q) of
                  (Some x, q') \<Rightarrow> (Some x, q') | (None, q') \<Rightarrow> (None, pop_leave q'))"

definition jq_open :: "'a JobQueue \<Rightarrow> bool" where
  "jq_open q \<longleftrightarrow> \<not> jq_closed q \<and> queued q = length (items q)"

interpretation jqueue: bounded_fifo jq_open items jq_cap send_now pop_now "\<lambda>_. True" "(=)"
proof
  fix s :: "'a JobQueue" and a
  assume "jq_open s" "length (items s) < jq_cap s"
  then show "\<exists>b s'. send_now a s = (True, s') \<and> jq_open s' \<and> a = b \<and> items s' = items s @ [b] \<and> jq_cap s' = jq_cap s"
    by (simp add: send_now_def jq_ops jq_open_def Let_def)
next
  fix s :: "'a JobQueue" and a
  assume "jq_open s" "jq_cap s \<le> length (items s)"
  then show "send_now a s = (False, s)" by (simp add: send_now_def jq_ops jq_open_def)
next
  fix s :: "'a JobQueue"
  assume "jq_open s" "items s = []"
  then show "pop_now s = (None, s)" by (cases s) (simp add: pop_now_def jq_ops jq_open_def)
next
  fix s :: "'a JobQueue" and b bs
  assume "jq_open s" "items s = b # bs"
  then show "\<exists>s'. pop_now s = (Some b, s') \<and> jq_open s' \<and> items s' = bs \<and> jq_cap s' = jq_cap s"
    by (simp add: pop_now_def jq_ops jq_open_def)
qed

subsection \<open>Properties\<close>

text \<open>C10: No unit is stranded beside an idle worker. In every interleaving of submitters, pollers,
  sleepers, lost and spurious wakes: while any worker is asleep, the queued units are at most as many
  as the workers that are polling, about to take the lock, or already woken, plus the wakes still on
  their way. So skipping the wake-up call for units a poller will take never leaves a unit waiting.\<close>

theorem queue_no_stranded_unit:
  assumes "jq_reachable cap workers s" and "Asleep \<in> set (pcs s)"
  shows "length (items (jq s)) \<le> workers_in is_polling (pcs s) + workers_in (\<lambda>p. p = Leaving) (pcs s)
    + workers_in (\<lambda>p. p = Woken) (pcs s) + notifies s"
  using jq_inv_reachable [OF assms(1)] assms(2) by (simp add: jq_inv_def asleep_iff)

text \<open>C11: The work queue is a bounded FIFO that drains before it ends. In every interleaving, the units
  handed to workers and the units still queued are together exactly the accepted ones, in order, each
  once, and never more than the capacity are queued; once a close has notified, no worker is left
  asleep; and when every worker has exited the queue is closed and every accepted unit was handed out.\<close>

theorem queue_fifo_and_drained:
  assumes "jq_reachable cap workers s"
  shows "accepted s = handed s @ items (jq s) \<and> length (items (jq s)) \<le> max cap 1
    \<and> (jq_closed (jq s) \<and> closes s = 0 \<longrightarrow> Asleep \<notin> set (pcs s))
    \<and> (0 < workers \<and> set (pcs s) \<subseteq> {Exited} \<longrightarrow> jq_closed (jq s) \<and> handed s = accepted s)"
proof -
  note inv = jq_inv_reachable [OF assms]
  have "0 < workers \<Longrightarrow> set (pcs s) \<subseteq> {Exited} \<Longrightarrow> Exited \<in> set (pcs s)"
    using jq_reachable_workers [OF assms] by (cases "pcs s") auto
  with inv show ?thesis by (auto simp: jq_inv_def asleep_iff exited_iff)
qed

lemma polling_reachable:
  assumes "jq_reachable cap 1 s" and "pcs s = [Polling 0 True]" and "\<not> closed_flag (jq s)" and "k < 32"
  shows "jq_reachable cap 1 (s\<lparr>pcs := [Polling (of_nat k) True]\<rparr>)"
  using assms(4)
proof (induction k)
  case 0
  then show ?case using assms(1,2) by (cases s) simp
next
  case (Suc k)
  have "unat (of_nat (Suc k) :: u32) = Suc k" using Suc.prems by (simp add: unat_of_nat del: of_nat_Suc)
  then have "(of_nat (Suc k) :: u32) mod 32 \<noteq> 0"
    using Suc.prems by (simp add: word_unat_eq_iff unat_mod_distrib del: of_nat_Suc)
  then have "poll_tick (of_nat k) True 0 = Some (of_nat (Suc k), True, PollSpin)"
    by (simp add: poll_tick_def Let_def WORKER_SPIN_def WORKER_SPIN_HOT_def add.commute)
  from jq_step.poll_again [of 0 "s\<lparr>pcs := [Polling (of_nat k) True]\<rparr>", OF _ _ _ this] assms(3)
  have "jq_step (s\<lparr>pcs := [Polling (of_nat k) True]\<rparr>) (s\<lparr>pcs := [Polling (of_nat (Suc k)) True]\<rparr>)"
    by (simp add: poll_sees_closed_def)
  with Suc show ?case by (auto intro: jq_reachable.step)
qed

text \<open>A pool of one worker that polled out its window and sleeps, and the same after a submit.\<close>

definition asleep_sys :: "nat jq_sys" where
  "asleep_sys = \<lparr>jq = (JobQueue_new 2)\<lparr>sleepers := 1\<rparr>, pcs = [Asleep], notifies = 0, closes = 0,
                accepted = [], handed = []\<rparr>"

definition submitted_sys :: "nat jq_sys" where
  "submitted_sys = \<lparr>jq = (JobQueue_new 2)\<lparr>items := [7], queued := 1, sleepers := 1\<rparr>, pcs = [Asleep],
                   notifies = 1, closes = 0, accepted = [7], handed = []\<rparr>"

lemma asleep_reachable: "jq_reachable 2 1 asleep_sys"
proof -
  let ?p = "\<lparr>jq = pop_enter (JobQueue_new 2), pcs = [Polling 0 True], notifies = 0, closes = 0,
             accepted = [], handed = []\<rparr> :: nat jq_sys"
  have "jq_step (jq_start 2 1) ?p"
    using jq_step.pop_start [of 0 "jq_start 2 1 :: nat jq_sys"] by (simp add: jq_start_def)
  then have "jq_reachable 2 1 ?p" by (rule jq_reachable.step [OF jq_reachable.start])
  from polling_reachable [OF this, of 31]
  have r: "jq_reachable 2 1 (?p\<lparr>pcs := [Polling 31 True]\<rparr>)"
    by (simp add: pop_enter_def JobQueue_new_def)
  have "jq_step (?p\<lparr>pcs := [Polling 31 True]\<rparr>) (?p\<lparr>jq := JobQueue_new 2, pcs := [Leaving]\<rparr>)"
    using jq_step.poll_break [of 0 "?p\<lparr>pcs := [Polling 31 True]\<rparr>" 31 True 60000]
    by (simp add: poll_tick_def WORKER_SPIN_def pop_leave_def pop_enter_def JobQueue_new_def)
  then have r: "jq_reachable 2 1 (?p\<lparr>jq := JobQueue_new 2, pcs := [Leaving]\<rparr>)"
    by (rule jq_reachable.step [OF r])
  have "jq_step (?p\<lparr>jq := JobQueue_new 2, pcs := [Leaving]\<rparr>) asleep_sys"
    using jq_step.locked [of 0 "?p\<lparr>jq := JobQueue_new 2, pcs := [Leaving]\<rparr>" "JobQueue_new 2" Sleeps]
    by (simp add: pop_locked_def JobQueue_new_def asleep_sys_def)
  then show ?thesis by (rule jq_reachable.step [OF r])
qed

lemma submitted_reachable: "jq_reachable 2 1 submitted_sys"
proof -
  have "jq_step asleep_sys submitted_sys"
    using jq_step.push_ok [of 7 asleep_sys True "(JobQueue_new 2)\<lparr>items := [7], queued := 1, sleepers := 1\<rparr>"]
    by (simp add: try_send_def push_def asleep_sys_def submitted_sys_def JobQueue_new_def)
  then show ?thesis by (rule jq_reachable.step [OF asleep_reachable])
qed

theorem queue_no_stranded_unit_witness:
  "length (items (jq submitted_sys)) \<le> workers_in is_polling (pcs submitted_sys)
     + workers_in (\<lambda>p. p = Leaving) (pcs submitted_sys) + workers_in (\<lambda>p. p = Woken) (pcs submitted_sys)
     + notifies submitted_sys"
  using queue_no_stranded_unit [OF submitted_reachable] by (simp add: submitted_sys_def)

theorem queue_fifo_and_drained_witness:
  "accepted submitted_sys = handed submitted_sys @ items (jq submitted_sys)
   \<and> length (items (jq submitted_sys)) \<le> 2"
  using queue_fifo_and_drained [OF submitted_reachable] by simp

text \<open>Called from one thread, the queue behaves as a plain bounded FIFO: for any sequence of
  \<open>try_send\<close> and \<open>pop\<close> on a fresh open queue, the units returned and those still queued are the
  accepted ones in order, and a send is refused exactly when the queue holds its capacity.\<close>

theorem queue_sequential_fifo:
  "let (ins, outs, q) = fifo_run send_now pop_now ops (JobQueue_new cap)
   in ins = outs @ items q \<and> length (items q) \<le> max cap 1
      \<and> fst (send_now x q) = (length (items q) < max cap 1)"
proof -
  obtain ins outs q where r: "fifo_run send_now pop_now ops (JobQueue_new cap) = (ins, outs, q)"
    by (metis prod_cases3)
  have "jq_open (JobQueue_new cap)" by (simp add: jq_open_def JobQueue_new_def)
  from jqueue.run_fifo [OF this _ _ r] have
    q: "jq_open q" "length (items q) \<le> max cap 1" "jq_cap q = max cap 1" "ins = outs @ items q"
    by (auto simp: JobQueue_new_def list.rel_eq)
  have "fst (send_now x q) = (length (items q) < max cap 1)"
    using jqueue.put_room [OF q(1), of x] jqueue.put_full [OF q(1), of x] q(3)
    by (cases "length (items q) < max cap 1") (auto simp: not_less)
  with q r show ?thesis by simp
qed

end
