(* ===== verification/Ring.thy ===== *)
theory Ring
  imports Fifo_Spec
begin

text \<open>
  The shared-memory completion ring (\<open>pool/ring.rs\<close>), at the width of the code: positions and
  sequence numbers are 64-bit words that wrap around. This theory has the ring's data, the producer
  and the consumer as functions on it, and the ring as a bounded first-in first-out buffer for one
  producer at a time; the interleaving of several producers with the parking reader is in
  \<open>Ring_Threads\<close>.
\<close>

subsection \<open>Data\<close>

definition INLINE_RESULT_MAX :: nat where "INLINE_RESULT_MAX = 48"
definition INLINE_RECORD_MAX :: nat where "INLINE_RECORD_MAX = 16 + INLINE_RESULT_MAX"
definition RING_SLOT_BYTES :: nat where "RING_SLOT_BYTES = 128"
definition RECORD_WORDS :: nat where "RECORD_WORDS = INLINE_RECORD_MAX div 8"

lemmas record_consts = INLINE_RESULT_MAX_def INLINE_RECORD_MAX_def RECORD_WORDS_def

record Slot =
  seq :: u64
  slot_words :: "u64 list"

record RingShared =
  capacity :: u64
  slot_bytes :: u64
  waiting :: u32
  overflow :: u64
  tail :: u64

record Ring =
  shared :: RingShared
  slots :: "Slot list"
  mask :: u64

text \<open>\<open>usize::next_power_of_two\<close>.\<close>

function pow2_from :: "nat \<Rightarrow> nat \<Rightarrow> nat" where
  "pow2_from p n = (if n \<le> p \<or> p = 0 then p else pow2_from (2 * p) n)"
  by auto
termination by (relation "measure (\<lambda>(p, n). n - p)") auto

declare pow2_from.simps [simp del]

definition next_power_of_two :: "nat \<Rightarrow> nat" where
  "next_power_of_two n = pow2_from 1 n"

definition Ring_new :: "nat \<Rightarrow> Ring" where
  "Ring_new min_slots =
     (let cap = next_power_of_two (max min_slots 2)
      in \<lparr>shared = \<lparr>capacity = of_nat cap, slot_bytes = of_nat RING_SLOT_BYTES, waiting = 0, overflow = 0, tail = 0\<rparr>,
          slots = map (\<lambda>i. \<lparr>seq = of_nat i, slot_words = replicate RECORD_WORDS 0\<rparr>) [0..<cap],
          mask = of_nat cap - 1\<rparr>)"

subsection \<open>Publishing\<close>

text \<open>\<open>slice::as_chunks::<8>\<close> and the words it is stored as; \<open>be\<close> is the machine's byte order.\<close>

fun chunks8 :: "bytes \<Rightarrow> bytes list" where
  "chunks8 bs = (if length bs < 8 then [] else take 8 bs # chunks8 (drop 8 bs))"

declare chunks8.simps [simp del]

definition record_words :: "bool \<Rightarrow> bytes \<Rightarrow> u64 list" where
  "record_words be record = map (u64_from_ne_bytes be) (chunks8 record)"

text \<open>The zip of the slot's words with the record's: the words beyond the record stay.\<close>

definition store_words :: "u64 list \<Rightarrow> u64 list \<Rightarrow> u64 list" where
  "store_words ws old = take (length old) ws @ drop (length ws) old"

definition slot_index :: "Ring \<Rightarrow> u64 \<Rightarrow> nat" where
  "slot_index r pos = unat (pos AND mask r)"

text \<open>One look at the slot of a position: free for it, not freed by the consumer yet, or behind.\<close>

datatype look = SlotFree | SlotFull | SlotTaken

definition look_at :: "Ring \<Rightarrow> u64 \<Rightarrow> look" where
  "look_at r pos =
     (let d = sint (seq (slots r ! slot_index r pos) - pos)
      in if d = 0 then SlotFree else if d < 0 then SlotFull else SlotTaken)"

definition claim :: "Ring \<Rightarrow> u64 \<Rightarrow> Ring" where
  "claim r pos = r\<lparr>shared := (shared r)\<lparr>tail := pos + 1\<rparr>\<rparr>"

definition store_record :: "bool \<Rightarrow> bytes \<Rightarrow> u64 \<Rightarrow> Ring \<Rightarrow> Ring" where
  "store_record be record pos r =
     (let i = slot_index r pos; s = slots r ! i
      in r\<lparr>slots := (slots r)[i := s\<lparr>slot_words := store_words (record_words be record) (slot_words s)\<rparr>]\<rparr>)"

definition release_slot :: "u64 \<Rightarrow> Ring \<Rightarrow> Ring" where
  "release_slot pos r =
     (let i = slot_index r pos in r\<lparr>slots := (slots r)[i := (slots r ! i)\<lparr>seq := pos + 1\<rparr>]\<rparr>)"

text \<open>
  The loop of \<open>try_publish\<close> when no other producer runs. \<open>spurious\<close> is the script of the weak
  compare-exchange: \<open>True\<close> fails although the value is the expected one. \<open>None\<close> is "no answer within
  the fuel".
\<close>

fun try_publish :: "nat \<Rightarrow> bool list \<Rightarrow> bool \<Rightarrow> bytes \<Rightarrow> u64 \<Rightarrow> Ring \<Rightarrow> (bool \<times> Ring) option" where
  "try_publish 0 spurious be record pos r = None"
| "try_publish (Suc fuel) spurious be record pos r =
     (case look_at r pos of
        SlotFree \<Rightarrow>
          (if tail (shared r) = pos \<and> (spurious = [] \<or> \<not> hd spurious)
           then Some (True, release_slot pos (store_record be record pos (claim r pos)))
           else try_publish fuel (tl spurious) be record (tail (shared r)) r)
      | SlotFull \<Rightarrow> Some (False, r)
      | SlotTaken \<Rightarrow> try_publish fuel spurious be record (tail (shared r)) r)"

text \<open>\<open>take_waiter\<close>: whether the reader announced that it is parking, taking the announcement.\<close>

definition take_waiter :: "Ring \<Rightarrow> bool \<times> Ring" where
  "take_waiter r =
     (if waiting (shared r) \<noteq> 0 then (True, r\<lparr>shared := (shared r)\<lparr>waiting := 0\<rparr>\<rparr>) else (False, r))"

definition note_overflow :: "Ring \<Rightarrow> Ring" where
  "note_overflow r = r\<lparr>shared := (shared r)\<lparr>overflow := overflow (shared r) + 1\<rparr>\<rparr>"

subsection \<open>Consuming\<close>

text \<open>The consumer at position \<open>head\<close> (\<open>pop_for_test\<close>, and \<open>popRing\<close> of the Go reader).\<close>

definition pop_slot :: "Ring \<Rightarrow> u64 \<Rightarrow> u64 list option \<times> Ring \<times> u64" where
  "pop_slot r head =
     (let i = slot_index r head; s = slots r ! i
      in if seq s \<noteq> head + 1 then (None, r, head)
         else (Some (slot_words s), r\<lparr>slots := (slots r)[i := s\<lparr>seq := head + (mask r + 1)\<rparr>]\<rparr>, head + 1))"

subsection \<open>Lemmas: powers of two and indices\<close>

lemma pow2_from_spec:
  "0 < p \<Longrightarrow> \<exists>k. pow2_from p n = p * 2 ^ k \<and> n \<le> pow2_from p n \<and> (pow2_from p n \<le> max p (2 * n))"
proof (induction p n rule: pow2_from.induct)
  case (1 p n)
  show ?case
  proof (cases "n \<le> p")
    case True
    then show ?thesis by (intro exI [of _ 0]) (simp add: pow2_from.simps [of p n])
  next
    case False
    with 1 obtain k where k: "pow2_from (2 * p) n = 2 * p * 2 ^ k" "n \<le> pow2_from (2 * p) n"
      "pow2_from (2 * p) n \<le> max (2 * p) (2 * n)" by auto
    with False 1(2) show ?thesis
      by (intro exI [of _ "Suc k"]) (auto simp: pow2_from.simps [of p n])
  qed
qed

lemma next_power_of_two_spec:
  "\<exists>k. next_power_of_two n = 2 ^ k \<and> n \<le> 2 ^ k \<and> 2 ^ k \<le> max 1 (2 * n)"
  using pow2_from_spec [of 1 n] by (auto simp: next_power_of_two_def)

text \<open>With a mask of \<open>2\<^sup>k - 1\<close> the index is the position modulo the capacity.\<close>

lemma mask_index: "k \<le> 64 \<Longrightarrow> unat (pos AND (2 ^ k - 1) :: u64) = unat pos mod 2 ^ k"
proof -
  have "pos AND (2 ^ k - 1) = take_bit k pos"
    by (simp add: take_bit_eq_mask mask_eq_exp_minus_1)
  then have "unat (pos AND (2 ^ k - 1)) = take_bit k (unat pos)"
    by (simp only: unsigned_take_bit_eq)
  then show ?thesis by (simp add: take_bit_eq_mod)
qed

lemma pow2_dvd_64: "k \<le> 64 \<Longrightarrow> (2 :: nat) ^ k dvd 2 ^ 64"
  by (rule le_imp_power_dvd)

lemma index_shift:
  assumes "k \<le> 64"
  shows "unat (h + of_nat i :: u64) mod 2 ^ k = (unat h + i) mod 2 ^ k"
proof -
  have "unat (h + of_nat i) = (unat h + i) mod 2 ^ 64"
    by (simp add: unat_word_ariths unat_of_nat mod_simps)
  then show ?thesis using pow2_dvd_64 [OF assms] by (simp add: mod_mod_cancel)
qed

lemma index_inj:
  assumes "i < c" and "j < c" and "(h + i) mod c = (h + j) mod (c :: nat)"
  shows "i = j"
proof -
  have "(int h + int i) mod int c = (int h + int j) mod int c"
    using assms(3) by (metis of_nat_add zmod_int)
  then have "int i mod int c = int j mod int c"
    by (metis add_diff_cancel_left' mod_diff_left_eq)
  with assms(1,2) show ?thesis by simp
qed

subsection \<open>The ring's invariant\<close>

text \<open>
  With the consumer at \<open>head\<close> and \<open>n\<close> unread records, the slot of position \<open>head + i\<close> carries
  \<open>head + i + 1\<close> (published) for \<open>i < n\<close> and \<open>head + i\<close> (free) for the others. The bound on the
  capacity is what makes the signed comparison of sequence and position right.
\<close>

definition unread :: "Ring \<times> u64 \<Rightarrow> nat" where
  "unread rh = unat (tail (shared (fst rh)) - snd rh)"

definition ring_cap :: "Ring \<times> u64 \<Rightarrow> nat" where
  "ring_cap rh = length (slots (fst rh))"

definition ring_shape :: "Ring \<Rightarrow> bool" where
  "ring_shape r \<longleftrightarrow> (\<exists>k. 1 \<le> k \<and> k \<le> 62 \<and> length (slots r) = 2 ^ k \<and> mask r = 2 ^ k - 1)
     \<and> (\<forall>s \<in> set (slots r). length (slot_words s) = RECORD_WORDS)"

definition ring_ok :: "Ring \<times> u64 \<Rightarrow> bool" where
  "ring_ok rh \<longleftrightarrow> ring_shape (fst rh) \<and> unread rh \<le> ring_cap rh
     \<and> (\<forall>i < ring_cap rh. seq (slots (fst rh) ! slot_index (fst rh) (snd rh + of_nat i))
            = snd rh + of_nat i + (if i < unread rh then 1 else 0))"

definition ring_contents :: "Ring \<times> u64 \<Rightarrow> u64 list list" where
  "ring_contents rh =
     map (\<lambda>i. slot_words (slots (fst rh) ! slot_index (fst rh) (snd rh + of_nat i))) [0..<unread rh]"

definition ring_put :: "bool \<Rightarrow> bytes \<Rightarrow> Ring \<times> u64 \<Rightarrow> bool \<times> Ring \<times> u64" where
  "ring_put be record rh =
     (case try_publish 1 [] be record (tail (shared (fst rh))) (fst rh) of
        Some (b, r') \<Rightarrow> (b, r', snd rh)
      | None \<Rightarrow> (False, rh))"

definition ring_get :: "Ring \<times> u64 \<Rightarrow> u64 list option \<times> Ring \<times> u64" where
  "ring_get rh = pop_slot (fst rh) (snd rh)"

text \<open>A record that fits a slot, and a slot's words that hold it.\<close>

definition record_fits :: "bytes \<Rightarrow> bool" where
  "record_fits record \<longleftrightarrow> length record \<le> INLINE_RECORD_MAX \<and> 8 dvd length record"

definition words_hold :: "bool \<Rightarrow> bytes \<Rightarrow> u64 list \<Rightarrow> bool" where
  "words_hold be record ws \<longleftrightarrow> length ws = RECORD_WORDS
     \<and> take (length record div 8) ws = record_words be record"

lemma length_chunks8: "length (chunks8 bs) = length bs div 8"
proof (induction bs rule: chunks8.induct)
  case (1 bs)
  then show ?case by (cases "length bs < 8") (simp_all add: chunks8.simps [of bs] le_div_geq)
qed

lemma length_record_words [simp]: "length (record_words be record) = length record div 8"
  by (simp add: record_words_def length_chunks8)

lemma store_words_hold:
  assumes "record_fits record" and "length old = RECORD_WORDS"
  shows "words_hold be record (store_words (record_words be record) old)"
  using assms by (auto simp: words_hold_def store_words_def record_fits_def record_consts)

lemma ring_index:
  assumes "ring_shape r"
  shows "slot_index r (h + of_nat i) = (unat h + i) mod length (slots r)"
    and "slot_index r h < length (slots r)"
proof -
  from assms obtain k where k: "k \<le> 62" "length (slots r) = 2 ^ k" "mask r = 2 ^ k - 1"
    by (auto simp: ring_shape_def)
  then show "slot_index r (h + of_nat i) = (unat h + i) mod length (slots r)"
    by (simp add: slot_index_def mask_index index_shift)
  show "slot_index r h < length (slots r)" using k by (simp add: slot_index_def mask_index)
qed

lemma ring_index0: "ring_shape r \<Longrightarrow> slot_index r h = unat h mod length (slots r)"
  using ring_index(1) [of r h 0] by simp

lemma ring_index_inj:
  assumes "ring_shape r" and "i < length (slots r)" and "j < length (slots r)"
    and "slot_index r (h + of_nat i) = slot_index r (h + of_nat j)"
  shows "i = j"
  using assms index_inj [of i _ j "unat h"] by (simp add: ring_index)

lemma ring_index_wrap:
  "ring_shape r \<Longrightarrow> slot_index r (h + of_nat (length (slots r))) = slot_index r h"
  using ring_index(1) [of r h "length (slots r)"] ring_index0 [of r h] by simp

lemma tail_is_head_plus: "tail (shared (fst rh)) = snd rh + of_nat (unread rh)"
  by (simp add: unread_def)

lemma unat_of_nat_small: "n \<le> 2 ^ 62 \<Longrightarrow> unat (of_nat n :: u64) = n"
  by (simp add: unat_of_nat)

lemma ring_shape_cap: "ring_shape r \<Longrightarrow> 2 \<le> length (slots r) \<and> length (slots r) \<le> 2 ^ 62"
proof -
  assume "ring_shape r"
  then obtain k where k: "1 \<le> k" "k \<le> 62" "length (slots r) = 2 ^ k" by (auto simp: ring_shape_def)
  have "(2::nat) ^ 1 \<le> 2 ^ k" "(2::nat) ^ k \<le> 2 ^ 62"
    using power_increasing [OF k(1), of "2::nat"] power_increasing [OF k(2), of "2::nat"] by simp_all
  with k show ?thesis by simp
qed

text \<open>The slot at the tail is free while there is room, and unfreed (a negative distance) otherwise.\<close>

lemma look_at_tail:
  assumes "ring_ok rh"
  shows "look_at (fst rh) (tail (shared (fst rh))) = (if unread rh < ring_cap rh then SlotFree else SlotFull)"
proof (cases "unread rh < ring_cap rh")
  case True
  with assms have "seq (slots (fst rh) ! slot_index (fst rh) (snd rh + of_nat (unread rh)))
      = snd rh + of_nat (unread rh)" by (auto simp: ring_ok_def)
  then show ?thesis using True by (simp add: look_at_def tail_is_head_plus)
next
  case False
  let ?c = "length (slots (fst rh))"
  have sh: "ring_shape (fst rh)" and full: "unread rh = ?c"
    using assms False by (auto simp: ring_ok_def ring_cap_def)
  note cap = ring_shape_cap [OF sh]
  have "seq (slots (fst rh) ! slot_index (fst rh) (snd rh)) = snd rh + 1"
    using assms cap full by (auto simp: ring_ok_def ring_cap_def dest!: spec [of _ 0])
  then have d: "seq (slots (fst rh) ! slot_index (fst rh) (tail (shared (fst rh)))) - tail (shared (fst rh))
      = 1 - of_nat ?c"
    using ring_index_wrap [OF sh, of "snd rh"] full by (simp add: tail_is_head_plus)
  have "sint (1 - of_nat ?c :: u64) < 0"
  proof -
    have "(1 - of_nat ?c :: u64) = word_of_int (1 - int ?c)" by simp
    then have "sint (1 - of_nat ?c :: u64) = 1 - int ?c"
      using cap by (simp only:) (subst signed_of_int, simp add: signed_take_bit_int_eq_self)
    with cap show ?thesis by simp
  qed
  with d False show ?thesis by (simp add: look_at_def Let_def)
qed

lemma try_publish_room:
  assumes "ring_ok rh" and "unread rh < ring_cap rh"
  shows "ring_put be record rh =
    (True, release_slot (tail (shared (fst rh))) (store_record be record (tail (shared (fst rh)))
       (claim (fst rh) (tail (shared (fst rh))))), snd rh)"
  using look_at_tail [OF assms(1)] assms(2) by (simp add: ring_put_def)

lemma try_publish_full:
  assumes "ring_ok rh" and "\<not> unread rh < ring_cap rh"
  shows "ring_put be record rh = (False, rh)"
  using look_at_tail [OF assms(1)] assms(2) by (simp add: ring_put_def)

text \<open>Spurious failures of the weak compare-exchange only cost turns: one more than there are of them
  is enough fuel.\<close>

lemma try_publish_spurious:
  assumes "ring_ok rh" and "length spurious \<le> n"
  shows "try_publish (Suc n) spurious be record (tail (shared (fst rh))) (fst rh)
    = try_publish 1 [] be record (tail (shared (fst rh))) (fst rh)"
  using assms(2)
proof (induction n arbitrary: spurious)
  case 0
  then show ?case by simp
next
  case (Suc n)
  then have "length (tl spurious) \<le> n" by simp
  from Suc.IH [OF this] look_at_tail [OF assms(1)] show ?case by (auto split: look.splits)
qed

lemma ring_put_correct:
  assumes ok: "ring_ok rh" and room: "unread rh < ring_cap rh" and fits: "record_fits record"
  shows "\<exists>ws rh'. ring_put be record rh = (True, rh') \<and> ring_ok rh' \<and> words_hold be record ws
    \<and> ring_contents rh' = ring_contents rh @ [ws] \<and> ring_cap rh' = ring_cap rh"
proof -
  let ?r = "fst rh" and ?h = "snd rh" and ?n = "unread rh" and ?c = "length (slots (fst rh))"
  let ?t = "?h + of_nat ?n" and ?j = "slot_index ?r (?h + of_nat ?n)"
  let ?ws = "store_words (record_words be record) (slot_words (slots ?r ! ?j))"
  let ?s = "(slots ?r ! ?j)\<lparr>slot_words := ?ws, seq := ?t + 1\<rparr>"
  have sh: "ring_shape ?r" and n: "?n < ?c" and sq: "\<And>i. i < ?c \<Longrightarrow>
      seq (slots ?r ! slot_index ?r (?h + of_nat i)) = ?h + of_nat i + (if i < ?n then 1 else 0)"
    using ok room by (auto simp: ring_ok_def ring_cap_def)
  have j: "?j < ?c" by (rule ring_index(2) [OF sh])
  obtain r' where r': "r' = ?r\<lparr>shared := (shared ?r)\<lparr>tail := ?t + 1\<rparr>, slots := (slots ?r)[?j := ?s]\<rparr>" by blast
  have put: "ring_put be record rh = (True, r', ?h)"
    using try_publish_room [OF ok room] j
    by (simp add: tail_is_head_plus release_slot_def store_record_def claim_def slot_index_def r' Let_def)
  have idx: "slot_index r' p = slot_index ?r p" for p by (simp add: r' slot_index_def)
  have "tail (shared r') - ?h = of_nat (Suc ?n)" by (simp add: r' algebra_simps)
  then have un: "unread (r', ?h) = Suc ?n"
    using n ring_shape_cap [OF sh] unat_of_nat_small [of "Suc ?n"]
    by (simp only: unread_def [of "(r', ?h)"] fst_conv snd_conv) simp
  have old: "length (slot_words (slots ?r ! ?j)) = RECORD_WORDS" using sh j by (simp add: ring_shape_def)
  have hold: "words_hold be record ?ws" by (rule store_words_hold [OF fits old])
  have sh': "ring_shape r'"
    using sh hold set_update_subset_insert [of "slots ?r" ?j ?s]
    by (fastforce simp: ring_shape_def r' words_hold_def)
  have other: "slots r' ! slot_index ?r (?h + of_nat i) = slots ?r ! slot_index ?r (?h + of_nat i)"
    if "i < ?c" "i \<noteq> ?n" for i
  proof -
    have "slot_index ?r (?h + of_nat i) \<noteq> ?j" using ring_index_inj [OF sh that(1) n] that(2) by blast
    then show ?thesis by (simp add: r')
  qed
  have at: "slots r' ! ?j = ?s" using j by (simp add: r')
  have "seq (slots r' ! slot_index r' (?h + of_nat i)) = ?h + of_nat i + (if i < Suc ?n then 1 else 0)"
    if "i < ?c" for i
    using other [OF that] sq [OF that] at by (cases "i = ?n") (auto simp: idx)
  then have ok': "ring_ok (r', ?h)"
    using sh' un n by (simp add: ring_ok_def ring_cap_def r')
  have "ring_contents (r', ?h) = ring_contents rh @ [?ws]"
    using n at other by (auto simp: ring_contents_def un idx)
  with put ok' hold show ?thesis by (auto simp: ring_cap_def r')
qed

lemma ring_get_empty:
  assumes ok: "ring_ok rh" and "ring_contents rh = []"
  shows "ring_get rh = (None, rh)"
proof -
  have n: "unread rh = 0" and sh: "ring_shape (fst rh)" using assms by (auto simp: ring_contents_def ring_ok_def)
  have "seq (slots (fst rh) ! slot_index (fst rh) (snd rh)) = snd rh"
    using ok n ring_shape_cap [OF sh] by (auto simp: ring_ok_def ring_cap_def dest!: spec [of _ 0])
  then show ?thesis by (simp add: ring_get_def pop_slot_def)
qed

text \<open>The ring after the reader took the slot at \<open>h\<close>: it is free for the producers' next round.\<close>

definition taken :: "Ring \<Rightarrow> u64 \<Rightarrow> Ring" where
  "taken r h = r\<lparr>slots := (slots r)[slot_index r h := (slots r ! slot_index r h)\<lparr>seq := h + of_nat (length (slots r))\<rparr>]\<rparr>"

lemma taken_simps [simp]:
  "slot_index (taken r h) p = slot_index r p" "length (slots (taken r h)) = length (slots r)" "shared (taken r h) = shared r"
  by (simp_all add: taken_def slot_index_def)

lemma taken_shape: "ring_shape r \<Longrightarrow> ring_shape (taken r h)"
  using set_update_subset_insert [of "slots r" "slot_index r h" "(slots r ! slot_index r h)\<lparr>seq := h + of_nat (length (slots r))\<rparr>"]
    nth_mem [OF ring_index(2) [of r h]]
  by (fastforce simp: ring_shape_def taken_def)

text \<open>The slots of the other positions of the window are as they were, and the freed one is that of position \<open>h + c\<close>.\<close>

lemma taken_other:
  assumes sh: "ring_shape r" and i: "Suc i < length (slots r)"
  shows "slots (taken r h) ! slot_index r (h + of_nat (Suc i)) = slots r ! slot_index r (h + of_nat (Suc i))"
proof -
  have "0 < length (slots r)" using ring_shape_cap [OF sh] by linarith
  then have "slot_index r (h + of_nat (Suc i)) \<noteq> slot_index r h" using ring_index_inj [OF sh i, of 0 h] by (auto simp del: of_nat_Suc)
  then show ?thesis by (simp add: taken_def del: of_nat_Suc)
qed

lemma taken_last:
  assumes "ring_shape r"
  shows "seq (slots (taken r h) ! slot_index r (h + of_nat (length (slots r)))) = h + of_nat (length (slots r))"
  using ring_index_wrap [OF assms, of h] ring_index(2) [OF assms, of h] by (simp add: taken_def)

lemma unread_taken:
  assumes "unread rh \<le> length (slots (fst rh))" and "ring_shape (fst rh)" and pos: "0 < unread rh"
  shows "unread (taken (fst rh) (snd rh), snd rh + 1) = unread rh - 1"
proof -
  have "of_nat (unread rh) - 1 = (of_nat (unread rh - 1) :: u64)" using pos by (simp add: of_nat_diff)
  then have "tail (shared (fst rh)) - (snd rh + 1) = of_nat (unread rh - 1)" by (simp add: tail_is_head_plus)
  then have "unread (taken (fst rh) (snd rh), snd rh + 1) = unat (of_nat (unread rh - 1) :: u64)"
    by (simp only: unread_def [of "(taken (fst rh) (snd rh), snd rh + 1)"] fst_conv snd_conv taken_simps)
  also have "\<dots> = unread rh - 1" using assms(1) ring_shape_cap [OF assms(2)] by (intro unat_of_nat_small) linarith
  finally show ?thesis .
qed

lemma taken_ok:
  assumes ok: "ring_ok rh" and pos: "0 < unread rh"
  shows "ring_ok (taken (fst rh) (snd rh), snd rh + 1)"
proof -
  let ?r = "fst rh" and ?h = "snd rh" and ?n = "unread rh" and ?c = "length (slots (fst rh))"
  have sh: "ring_shape ?r" and n: "?n \<le> ?c" and sq: "\<And>i. i < ?c \<Longrightarrow>
      seq (slots ?r ! slot_index ?r (?h + of_nat i)) = ?h + of_nat i + (if i < ?n then 1 else 0)"
    using ok by (auto simp: ring_ok_def ring_cap_def)
  have shift: "?h + 1 + of_nat i = ?h + of_nat (Suc i)" for i by simp
  have "seq (slots (taken ?r ?h) ! slot_index ?r (?h + 1 + of_nat i)) = ?h + 1 + of_nat i + (if i < ?n - 1 then 1 else 0)"
    if i: "i < ?c" for i
  proof (cases "Suc i < ?c")
    case True
    from taken_other [OF sh True, of ?h] sq [OF True] show ?thesis using less_diff_conv [of i ?n 1] by (simp only: shift) simp
  next
    case False
    with i have "Suc i = ?c" by simp
    with taken_last [OF sh, of ?h] n show ?thesis by (simp only: shift) simp
  qed
  then show ?thesis using taken_shape [OF sh] unread_taken [OF n sh pos] n by (simp add: ring_ok_def ring_cap_def)
qed

lemma ring_get_front:
  assumes ok: "ring_ok rh" and cont: "ring_contents rh = ws # rest"
  shows "\<exists>rh'. ring_get rh = (Some ws, rh') \<and> ring_ok rh' \<and> ring_contents rh' = rest \<and> ring_cap rh' = ring_cap rh"
proof -
  let ?r = "fst rh" and ?h = "snd rh" and ?n = "unread rh" and ?c = "length (slots (fst rh))"
  have sh: "ring_shape ?r" and n: "?n \<le> ?c" and sq: "\<And>i. i < ?c \<Longrightarrow>
      seq (slots ?r ! slot_index ?r (?h + of_nat i)) = ?h + of_nat i + (if i < ?n then 1 else 0)"
    using ok by (auto simp: ring_ok_def ring_cap_def)
  have pos: "0 < ?n" using cont by (cases ?n) (auto simp: ring_contents_def)
  have "0 < ?c" using ring_shape_cap [OF sh] by linarith
  from sq [OF this] pos have "seq (slots ?r ! slot_index ?r ?h) = ?h + 1" by simp
  moreover obtain k where "?c = 2 ^ k" "mask ?r = 2 ^ k - 1" using sh by (auto simp: ring_shape_def)
  then have "mask ?r + 1 = of_nat ?c" by simp
  ultimately have get: "ring_get rh = (Some (slot_words (slots ?r ! slot_index ?r ?h)), taken ?r ?h, ?h + 1)"
    by (simp add: ring_get_def pop_slot_def taken_def Let_def)
  have shift: "?h + 1 + of_nat i = ?h + of_nat (Suc i)" for i by simp
  have upt: "[0..<?n] = 0 # map Suc [0..<?n - 1]" using pos by (simp add: map_Suc_upt upt_conv_Cons)
  have "rest = map (\<lambda>i. slot_words (slots ?r ! slot_index ?r (?h + of_nat (Suc i)))) [0..<?n - 1]"
    and ws: "ws = slot_words (slots ?r ! slot_index ?r ?h)"
    using cont by (simp_all add: ring_contents_def upt o_def del: of_nat_Suc)
  moreover have "ring_contents (taken ?r ?h, ?h + 1) = map (\<lambda>i. slot_words (slots ?r ! slot_index ?r (?h + of_nat (Suc i)))) [0..<?n - 1]"
    using n taken_other [OF sh] unfolding ring_contents_def unread_taken [OF n sh pos] fst_conv snd_conv shift taken_simps
    by (intro map_cong refl) (auto simp del: of_nat_Suc)
  ultimately show ?thesis using get taken_ok [OF ok pos] by (auto simp: ring_cap_def)
qed

interpretation ring: bounded_fifo ring_ok ring_contents ring_cap "ring_put be" ring_get record_fits "words_hold be"
proof
  fix s a assume "ring_ok s" "ring_cap s \<le> length (ring_contents s)"
  then show "ring_put be a s = (False, s)" using try_publish_full by (simp add: ring_contents_def)
qed (use ring_put_correct ring_get_empty ring_get_front in \<open>auto simp: ring_contents_def\<close>)

subsection \<open>Properties\<close>

lemma ring_new_ok:
  assumes "min_slots \<le> 2 ^ 60"
  shows "ring_ok (Ring_new min_slots, 0)" and "max min_slots 2 \<le> ring_cap (Ring_new min_slots, 0)"
    and "ring_contents (Ring_new min_slots, 0) = []"
proof -
  obtain k where k: "next_power_of_two (max min_slots 2) = 2 ^ k" "max min_slots 2 \<le> 2 ^ k"
    "2 ^ k \<le> max 1 (2 * max min_slots 2)"
    using next_power_of_two_spec by blast
  have k1: "1 \<le> k"
  proof (rule ccontr)
    assume "\<not> 1 \<le> k"
    then have "k = 0" by simp
    with k(2) show False by simp
  qed
  have "(2::nat) ^ k \<le> 2 ^ 61" using k(3) assms by auto
  then have k2: "k \<le> 62" using power_le_imp_le_exp [of "2::nat" k 61] by simp
  have sh: "ring_shape (Ring_new min_slots)"
    using k1 k2 by (auto simp: ring_shape_def Ring_new_def k(1) Let_def)
  have len: "length (slots (Ring_new min_slots)) = 2 ^ k" by (simp add: Ring_new_def k(1) Let_def)
  have un: "unread (Ring_new min_slots, 0) = 0" by (simp add: unread_def Ring_new_def Let_def)
  have sq: "seq (slots (Ring_new min_slots) ! i) = of_nat i" if "i < 2 ^ k" for i
    using that by (simp add: Ring_new_def k(1) Let_def)
  show "ring_ok (Ring_new min_slots, 0)"
    using sh un ring_index(1) [OF sh, of 0] sq by (simp add: ring_ok_def ring_cap_def len)
  show "max min_slots 2 \<le> ring_cap (Ring_new min_slots, 0)" using k(2) by (simp add: ring_cap_def len)
  show "ring_contents (Ring_new min_slots, 0) = []" using un by (simp add: ring_contents_def)
qed

text \<open>C26: The completion ring is a bounded FIFO of records, also when the 64-bit positions wrap
  around: from any well-formed ring at any position, for any sequence of publishes and pops, the
  consumer sees exactly the published records in order, each slot's words beginning with the record's;
  a publish is refused exactly when the ring holds its capacity of unread records; and a ring made for
  \<open>m\<close> completions has room for at least \<open>m\<close>.\<close>

theorem ring_is_fifo:
  assumes "ring_ok rh" and "\<forall>rec. Some rec \<in> set ops \<longrightarrow> record_fits rec"
    and "fifo_run (ring_put be) ring_get ops rh = (ins, outs, rh')"
  shows "ring_ok rh' \<and> length (ring_contents rh') \<le> ring_cap rh
    \<and> (\<exists>wss. list_all2 (words_hold be) ins wss \<and> ring_contents rh @ wss = outs @ ring_contents rh')
    \<and> (record_fits rec \<longrightarrow> fst (ring_put be rec rh') = (length (ring_contents rh') < ring_cap rh))
    \<and> (m \<le> 2 ^ 60 \<longrightarrow> ring_ok (Ring_new m, 0) \<and> m \<le> ring_cap (Ring_new m, 0))"
proof -
  have "length (ring_contents rh) \<le> ring_cap rh"
    using assms(1) by (simp add: ring_contents_def ring_ok_def)
  note run = ring.run_fifo [OF assms(1) this assms(2,3)]
  then have "record_fits rec \<Longrightarrow> fst (ring_put be rec rh') = (length (ring_contents rh') < ring_cap rh)"
    using ring.put_room [of rh' rec be] ring.put_full [of rh' rec be]
    by (cases "length (ring_contents rh') < ring_cap rh") (auto simp: not_less)
  with run ring_new_ok [of m] show ?thesis by auto
qed

theorem ring_is_fifo_witness:
  "\<exists>wss. list_all2 (words_hold False)
      (fst (fifo_run (ring_put False) ring_get [Some (replicate 8 1), Some (replicate 16 2), None, Some (replicate 8 3)]
         (Ring_new 2, 0))) wss
    \<and> wss = fst (snd (fifo_run (ring_put False) ring_get
         [Some (replicate 8 1), Some (replicate 16 2), None, Some (replicate 8 3)] (Ring_new 2, 0)))
       @ ring_contents (snd (snd (fifo_run (ring_put False) ring_get
         [Some (replicate 8 1), Some (replicate 16 2), None, Some (replicate 8 3)] (Ring_new 2, 0))))"
proof -
  let ?ops = "[Some (replicate 8 (1::u8)), Some (replicate 16 2), None, Some (replicate 8 3)]"
  obtain ins outs rh' where r: "fifo_run (ring_put False) ring_get ?ops (Ring_new 2, 0) = (ins, outs, rh')"
    by (metis prod_cases3)
  have "\<forall>rec. Some rec \<in> set ?ops \<longrightarrow> record_fits rec" by (auto simp: record_fits_def record_consts)
  from ring_is_fifo [OF ring_new_ok(1) this r] ring_new_ok(3) [of 2] r show ?thesis by auto
qed

end
