(* ===== verification/Pool_Types.thy ===== *)
theory Pool_Types
  imports Header Sys Guard Log_Ring Job_Queue Ring
begin

text \<open>
  What every part of the pool shares (\<open>pool/mod.rs\<close>): the id space and its hasher, the work unit and
  its results, the handle, and the process-wide state around it. A lock-protected collection of the
  handle is a field, a critical section one function; the \<open>self_weak\<close> upgrade a worker makes is an
  argument of the functions that make it.
\<close>

subsection \<open>Ids\<close>

definition TAKE_OWNED_FLAG :: u64 where "TAKE_OWNED_FLAG = push_bit 63 1"
definition ID_CEILING :: u64 where "ID_CEILING = TAKE_OWNED_FLAG"

text \<open>\<open>reserve_id\<close> up to its successful compare-exchange; the failed ones change nothing.\<close>

definition reserve_id :: "u64 \<Rightarrow> (rstr + u64) \<times> u64" where
  "reserve_id counter =
     (if counter = 0 \<or> counter \<ge> ID_CEILING
      then (Inl (lit ''id space exhausted; refusing to wrap onto a live ticket or buffer''), counter)
      else (Inr counter, counter + 1))"

fun reserve_many :: "nat \<Rightarrow> u64 \<Rightarrow> u64 list \<times> u64" where
  "reserve_many 0 c = ([], c)"
| "reserve_many (Suc n) c =
     (let (r, c1) = reserve_id c; (ids, c2) = reserve_many n c1
      in ((case r of Inr i \<Rightarrow> i # ids | Inl _ \<Rightarrow> ids), c2))"

text \<open>The hasher of the id-keyed maps: the running value, and one call per kind of key.\<close>

definition FIB_MULT :: u64 where "FIB_MULT = 0x9E3779B97F4A7C15"

definition hash_write_u64 :: "u64 \<Rightarrow> u64" where
  "hash_write_u64 n = n * FIB_MULT"

definition hash_write_u32 :: "u32 \<Rightarrow> u64" where
  "hash_write_u32 n = hash_write_u64 (ucast n)"

definition hash_write :: "bytes \<Rightarrow> u64 \<Rightarrow> u64" where
  "hash_write bs h = foldl (\<lambda>acc b. (word_rotl 8 acc XOR ucast b) * FIB_MULT) h bs"

subsection \<open>Work units and results\<close>

definition SMALL_INPUT :: nat where "SMALL_INPUT = 56"
definition DEFAULT_POOL_SIZE :: nat where "DEFAULT_POOL_SIZE = 4"
definition MAX_INLINE_INPUT :: nat where "MAX_INLINE_INPUT = 4096"
definition MAX_POOL_SIZE :: nat where "MAX_POOL_SIZE = 1024"

datatype TaskPayload = Small u8 bytes | Inline bytes | Shared RawBuffer

record WorkUnit =
  u_ticket :: u64
  u_ctx :: JobContext
  u_payload :: TaskPayload
  u_input_buffer_id :: u64

datatype JobOutput = OutBytes bytes | OutBuffer u64 | OutAllocated buffer_vec

datatype JobResult =
    ResOk bytes
  | ResBuffer u64
  | ResErr rstr
  | ResPanic rstr "rstr option" u32
  | ResCancelled CancelReason

fun into_message :: "PoolError \<Rightarrow> rstr" where
  "into_message (BadArg m) = m"
| "into_message (Failed m) = m"

subsection \<open>The handle and the process\<close>

record BufferSlot =
  slot_buf :: RawBuffer
  output_claimed :: bool
  caller_held :: bool

record worker =
  wk_thread :: nat
  wk_id :: u64

record Handle =
  h_pool_size :: nat
  pipe_write_fd :: i32
  h_poisoned :: bool
  h_closed :: bool
  h_queue :: "WorkUnit JobQueue"
  results :: "(u64, JobResult) idmap"
  cancel_flags :: "(u64, u64) idmap"
  buffers :: "(u64, BufferSlot) idmap"
  next_worker_id :: u64
  workers :: "worker list"
  exited :: nat
  respawn_pending :: bool
  inline_ok :: bool
  h_ring :: "Ring option"

text \<open>
  The process: the firewall's state (\<open>guard_state\<close>), the log ring, buffer memory with the strong
  count of every \<open>Arc<RawBuffer>\<close> (by the buffer's address), the two id counters, the cancel cells
  (named by ticket), the shutdown flag, and the diagnostic engine's gauge with its peak.
\<close>

record process = guard_state +
  log :: log_state
  pmem :: mem
  arcs :: "nat \<Rightarrow> nat"
  next_ticket :: u64
  next_buffer_id :: u64
  cells :: "u64 \<Rightarrow> bool"
  shutting_down :: bool
  in_engine :: nat
  in_engine_peak :: nat

definition process_init :: process where
  "process_init = \<lparr>file_cache = [], panic_locations = [], hook_installed = False, prev_hook_calls = 0,
     forgotten = [], msg_heap = box_heap_empty,
     log = \<lparr>log_buffer = [], log_owner = None, log_dropped = 0, log_dropped_total = 0\<rparr>,
     pmem = \<lparr>blocks = Map.empty, acct = alloc_state_init\<rparr>, arcs = (\<lambda>_. 0),
     next_ticket = 1, next_buffer_id = 1, cells = (\<lambda>_. False), shutting_down = False,
     in_engine = 0, in_engine_peak = 0\<rparr>"

text \<open>The handle as \<open>open\<close> builds it: no descriptor yet, an empty queue of twice the pool size.\<close>

definition Handle_new :: "nat \<Rightarrow> bool \<Rightarrow> Handle" where
  "Handle_new pool_size inline =
     \<lparr>h_pool_size = pool_size, pipe_write_fd = - 1, h_poisoned = False, h_closed = False,
      h_queue = JobQueue_new (pool_size * 2), results = [], cancel_flags = [], buffers = [],
      next_worker_id = 0, workers = [], exited = 0, respawn_pending = False, inline_ok = inline,
      h_ring = None\<rparr>"

text \<open>A log line from a thread that does not already hold the ring, the ring being free.\<close>

definition log_line :: "nat \<Rightarrow> rstr \<Rightarrow> 'a process_scheme \<Rightarrow> 'a process_scheme" where
  "log_line me line p = (case log_event me line (log p) of Some l \<Rightarrow> p\<lparr>log := l\<rparr> | None \<Rightarrow> p)"

text \<open>\<open>Arc::new\<close>, \<open>Arc::clone\<close> and the drop of one \<open>Arc\<close>, the last of which drops the buffer.\<close>

definition arc_new :: "RawBuffer \<Rightarrow> 'a process_scheme \<Rightarrow> 'a process_scheme" where
  "arc_new b p = p\<lparr>arcs := (arcs p)(rb_ptr b := 1)\<rparr>"

definition arc_clone :: "RawBuffer \<Rightarrow> 'a process_scheme \<Rightarrow> 'a process_scheme" where
  "arc_clone b p = p\<lparr>arcs := (arcs p)(rb_ptr b := arcs p (rb_ptr b) + 1)\<rparr>"

definition arc_drop :: "RawBuffer \<Rightarrow> 'a process_scheme \<Rightarrow> 'a process_scheme" where
  "arc_drop b p =
     (if arcs p (rb_ptr b) = 1
      then p\<lparr>arcs := (arcs p)(rb_ptr b := 0), pmem := rb_drop b (pmem p)\<rparr>
      else p\<lparr>arcs := (arcs p)(rb_ptr b := arcs p (rb_ptr b) - 1)\<rparr>)"

fun drop_payload :: "TaskPayload \<Rightarrow> 'a process_scheme \<Rightarrow> 'a process_scheme" where
  "drop_payload (Shared b) p = arc_drop b p"
| "drop_payload _ p = p"

definition drop_unit :: "WorkUnit \<Rightarrow> 'a process_scheme \<Rightarrow> 'a process_scheme" where
  "drop_unit u p = drop_payload (u_payload u) p"

definition in_flight :: "Handle \<Rightarrow> nat" where
  "in_flight h = length (cancel_flags h)"

definition poison :: "Handle \<Rightarrow> Handle" where
  "poison h = h\<lparr>h_poisoned := True\<rparr>"

definition is_poisoned :: "Handle \<Rightarrow> bool" where
  "is_poisoned h = h_poisoned h"

subsection \<open>Lemmas\<close>

lemma id_ceiling_unat: "unat ID_CEILING = 2 ^ 63"
  by (simp add: ID_CEILING_def TAKE_OWNED_FLAG_def push_bit_eq_mult)

lemma reserve_id_Inr:
  "reserve_id c = (Inr i, c') \<Longrightarrow> i = c \<and> 0 < unat i \<and> unat i < 2 ^ 63 \<and> unat c' = unat c + 1"
proof -
  assume r: "reserve_id c = (Inr i, c')"
  then have "i = c" "c' = c + 1" "c \<noteq> 0" "c < ID_CEILING" by (auto simp: reserve_id_def split: if_splits)
  moreover from this have "unat c < 2 ^ 63" "0 < unat c"
    using id_ceiling_unat by (auto simp: word_less_nat_alt unat_gt_0)
  ultimately show ?thesis by (simp add: unat_word_ariths)
qed

lemma reserve_id_Inl: "reserve_id c = (Inl e, c') \<Longrightarrow> c' = c \<and> (c = 0 \<or> 2 ^ 63 \<le> unat c)"
  using id_ceiling_unat by (auto simp: reserve_id_def word_le_nat_alt split: if_splits)

lemma reserve_many_spec:
  "reserve_many n c = (ids, c') \<Longrightarrow>
     map unat ids = [unat c..<unat c + length ids] \<and> unat c' = unat c + length ids
     \<and> (\<forall>i \<in> set ids. 0 < unat i \<and> unat i < 2 ^ 63)
     \<and> (length ids < n \<longrightarrow> c' = 0 \<or> 2 ^ 63 \<le> unat c')"
proof (induction n arbitrary: c ids c')
  case (Suc n)
  obtain r c1 where r: "reserve_id c = (r, c1)" by force
  obtain ids1 c2 where m: "reserve_many n c1 = (ids1, c2)" by force
  note ih = Suc.IH [OF m]
  show ?case
  proof (cases r)
    case (Inl e)
    from reserve_id_Inl [OF r [unfolded Inl]] have c1: "c1 = c" "c = 0 \<or> 2 ^ 63 \<le> unat c" by auto
    have "ids1 = []"
    proof (cases ids1)
      case (Cons i js)
      from ih have "hd (map unat ids1) = hd [unat c1..<unat c1 + length ids1]" by simp
      then have "unat i = unat c" using Cons c1 by (simp del: upt_Suc)
      moreover have "0 < unat i" "unat i < 2 ^ 63" using ih Cons by auto
      ultimately show ?thesis using c1(2) by auto
    qed simp
    with Suc.prems r m Inl ih c1 show ?thesis by auto
  next
    case (Inr i)
    from reserve_id_Inr [OF r [unfolded Inr]] Suc.prems r m Inr ih show ?thesis
      by (auto simp: upt_conv_Cons simp del: upt_Suc)
  qed
qed auto

text \<open>An id has its top bit clear.\<close>

lemma id_flag_clear:
  assumes that: "unat (i :: u64) < 2 ^ 63"
  shows "i AND TAKE_OWNED_FLAG = 0"
proof -
  have "unat (drop_bit 63 i) = 0" using that by (simp add: drop_bit_eq_div unat_div_distrib)
  then have "drop_bit 63 i = 0" by (simp add: unat_eq_0)
  then have "\<not> bit (drop_bit 63 i) 0" by simp
  then have "\<not> bit i 63" by (simp add: bit_drop_bit_eq)
  then show ?thesis 

  proof (intro bit_eqI)
    fix n
    have "bit (push_bit 63 1 :: u64) n \<Longrightarrow> n = 63" by (auto simp only: bit_push_bit_iff bit_1_iff)
    with \<open>\<not> bit i 63\<close> show "bit (i AND TAKE_OWNED_FLAG) n = bit 0 n"
      by (auto simp only: TAKE_OWNED_FLAG_def bit_and_iff bit_0_eq bot_apply bot_bool_def)
  qed
qed

lemma FIB_MULT_inverse: "FIB_MULT * 0xF1DE83E19937733D = 1"
  by (simp add: FIB_MULT_def)

subsection \<open>Properties\<close>

text \<open>Ids are never reused. However many tickets (or buffer ids) are reserved from the process-wide
  counter, the granted ones are distinct, nonzero and below \<open>2 ^ 63\<close>, so neither the inline-record flag
  nor the owned-buffer flag collides with one; once the space is exhausted every reservation is refused
  and the counter stays put.\<close>

theorem ids_unique:
  assumes "reserve_many n 1 = (ids, c)"
  shows "distinct ids \<and> (\<forall>i \<in> set ids. i \<noteq> 0 \<and> unat i < 2 ^ 63 \<and> i AND TAKE_OWNED_FLAG = 0)
    \<and> (length ids < n \<longrightarrow> reserve_id c = (Inl (lit ''id space exhausted; refusing to wrap onto a live ticket or buffer''), c))"
proof -
  note s = reserve_many_spec [OF assms]
  have "distinct (map unat ids)" using s by simp
  then have d: "distinct ids" by (simp add: distinct_map)
  have "length ids < n \<Longrightarrow> c = 0 \<or> ID_CEILING \<le> c"
    using s id_ceiling_unat by (auto simp: word_le_nat_alt)
  then have "length ids < n \<longrightarrow> reserve_id c = (Inl (lit ''id space exhausted; refusing to wrap onto a live ticket or buffer''), c)"
    by (auto simp: reserve_id_def)
  with d s id_flag_clear show ?thesis by (auto simp: unat_gt_0)
qed

theorem ids_unique_witness: "distinct (fst (reserve_many 5 1))"
  using ids_unique [of 5] by (metis prod.collapse)

text \<open>The id hasher never maps two ids to one hash: the multiplier is odd, so multiplication by it is
  a bijection of the 64-bit words, for tickets and buffer ids (64-bit) and for opcodes (32-bit).\<close>

theorem id_hash_injective:
  "(hash_write_u64 a = hash_write_u64 b \<longleftrightarrow> a = b) \<and> (hash_write_u32 x = hash_write_u32 y \<longleftrightarrow> x = y)"
proof -
  have inv: "hash_write_u64 n * 0xF1DE83E19937733D = n" for n
    by (simp only: hash_write_u64_def mult.assoc FIB_MULT_inverse mult_1_right)
  then have a: "hash_write_u64 a = hash_write_u64 b \<longleftrightarrow> a = b" for a b by metis
  have "(ucast x :: u64) = ucast y \<longleftrightarrow> x = y"
  proof -
    have up: "unat (ucast w :: u64) = unat w" for w :: u32
      using u32_bound [of w] by (simp add: unsigned_ucast_eq take_bit_nat_eq_self)
    show ?thesis using up [of x] up [of y] by (metis word_unat_eq_iff)
  qed
  with a show ?thesis by (simp add: hash_write_u32_def)
qed

end
