(* ===== verification/Completion.thy ===== *)
theory Completion
  imports Pool_Types "HOL-Library.Sublist"
begin

text \<open>
  Completion records (\<open>pool/completion.rs\<close>): how a finished job's outcome is encoded, written to the
  pipe with retries, or published in the ring; and the reader's side of the format, \<open>popRing\<close> and
  \<open>parseBuffered\<close> of \<open>ticket_reader.go\<close>, which it has to agree with.
\<close>

subsection \<open>Records\<close>

definition INLINE_RECORD_FLAG :: u64 where "INLINE_RECORD_FLAG = push_bit 63 1"

text \<open>The bytes \<open>inline_record\<close> puts at the front of the 64-byte array.\<close>

definition inline_record :: "bool \<Rightarrow> u64 \<Rightarrow> bytes \<Rightarrow> bytes" where
  "inline_record be ticket data =
     (let padded = (length data + 7) div 8 * 8
      in u64_to_ne_bytes be (ticket OR INLINE_RECORD_FLAG) @ u64_to_ne_bytes be (of_nat (length data))
         @ data @ replicate (padded - length data) 0)"

definition bare_record :: "bool \<Rightarrow> u64 \<Rightarrow> bytes" where
  "bare_record be ticket = u64_to_ne_bytes be ticket"

text \<open>Ticket 0 is never issued: as a bare record it is the wake token.\<close>

definition wake_token :: "bool \<Rightarrow> bytes" where
  "wake_token be = u64_to_ne_bytes be 0"

definition size_completion_pipe :: "nat \<Rightarrow> bool \<Rightarrow> (nat \<Rightarrow> rstr + unit) \<Rightarrow> rstr + bool" where
  "size_completion_pipe pool_size can_grow grow =
     (let records = usize_sat (pool_size * INLINE_RECORD_MAX)
      in if \<not> can_grow then
           (case grow (usize_sat (pool_size * 8)) of
              Inl e \<Rightarrow> Inl e
            | Inr _ \<Rightarrow> Inr (records \<le> 16 * 1024))
         else
           (case grow records of
              Inr _ \<Rightarrow> Inr True
            | Inl _ \<Rightarrow> (case grow (usize_sat (pool_size * 8)) of Inl e \<Rightarrow> Inl e | Inr _ \<Rightarrow> Inr False)))"

subsection \<open>Writing to the pipe\<close>

definition WRITE_TICKET_TIMEOUT :: nat where "WRITE_TICKET_TIMEOUT = 10000000000"

text \<open>
  What one turn of \<open>write_completion\<close> meets: the descriptor it reads under the lock, the kernel's
  answers, whether \<open>closed\<close> is set by then, and the time since the call started.
\<close>

record attempt_env =
  ae_fd :: i32
  ae_script :: "write_ret list"
  ae_closed :: bool
  ae_elapsed :: nat

text \<open>The loop's state: what the pipe accepted in all attempts, the lines logged, the sleeps.\<close>

record write_state =
  ws_sent :: bytes
  ws_warned :: bool
  ws_backoff :: nat
  ws_logs :: "rstr list"
  ws_sleeps :: "nat list"

definition write_state_start :: write_state where
  "write_state_start = \<lparr>ws_sent = [], ws_warned = False, ws_backoff = 50000, ws_logs = [], ws_sleeps = []\<rparr>"

definition pipe_full_line :: "u64 \<Rightarrow> rstr" where
  "pipe_full_line ticket =
     lit ''gusset: completion pipe full for 10s; reader is not draining (ticket ''
       @ show_nat (unat ticket) @ lit '' still waiting)''"

text \<open>\<open>None\<close> is a call that is still writing when the script of turns ends.\<close>

fun write_completion ::
  "attempt_env list \<Rightarrow> u64 \<Rightarrow> bytes \<Rightarrow> write_state \<Rightarrow> (io_error + unit) option \<times> write_state" where
  "write_completion [] ticket record s = (None, s)"
| "write_completion (e # es) ticket record s =
     (if ae_fd e = - 1 then (Some (Inl NotConnected), s)
      else (case write_record_attempt (ae_fd e) record (ae_script e) of
              (None, l) \<Rightarrow> (None, s\<lparr>ws_sent := ws_sent s @ wl_sent l\<rparr>)
            | (Some (Inr _), l) \<Rightarrow> (Some (Inr ()), s\<lparr>ws_sent := ws_sent s @ wl_sent l\<rparr>)
            | (Some (Inl err), l) \<Rightarrow>
                (let s1 = s\<lparr>ws_sent := ws_sent s @ wl_sent l\<rparr>
                 in if err \<noteq> WouldBlock then (Some (Inl err), s1)
                    else if ae_closed e then (Some (Inl NotConnected), s1)
                    else
                      (let warn = (\<not> ws_warned s1 \<and> WRITE_TICKET_TIMEOUT \<le> ae_elapsed e);
                           s2 = (if warn then s1\<lparr>ws_warned := True, ws_logs := ws_logs s1 @ [pipe_full_line ticket]\<rparr>
                                 else s1)
                       in write_completion es ticket record
                            (s2\<lparr>ws_sleeps := ws_sleeps s2 @ [ws_backoff s2],
                               ws_backoff := min (ws_backoff s2 * 2) WRITE_TICKET_MAX_BACKOFF\<rparr>)))))"

text \<open>
  \<open>publish_completion\<close>: whether the record reached the pipe. \<open>disp\<close> is the \<open>Display\<close> of an I/O error,
  \<open>me\<close> the calling thread. A call still waiting for the pipe has not returned: \<open>None\<close>.
\<close>

definition publish_completion ::
  "nat \<Rightarrow> (io_error \<Rightarrow> rstr) \<Rightarrow> attempt_env list \<Rightarrow> u64 \<Rightarrow> bytes \<Rightarrow> process \<times> Handle
    \<Rightarrow> (bool \<times> process \<times> Handle) option" where
  "publish_completion me disp env ticket record st =
     (let (r, w) = write_completion env ticket record write_state_start;
          p1 = fold (log_line me) (ws_logs w) (fst st)
      in case r of
           None \<Rightarrow> None
         | Some (Inr _) \<Rightarrow> Some (True, p1, snd st)
         | Some (Inl e) \<Rightarrow>
             if e = NotConnected then Some (False, p1, snd st)
             else Some (False,
                    log_line me (lit ''gusset: completion write failed for ticket '' @ show_nat (unat ticket)
                                 @ lit '': '' @ disp e) p1,
                    poison (snd st)))"

subsection \<open>Publishing an outcome\<close>

definition attach_ring :: "Handle \<Rightarrow> (rstr + Ring) \<times> Handle" where
  "attach_ring h =
     (case h_ring h of
        None \<Rightarrow> (let r = Ring_new (h_pool_size h) in (Inr r, h\<lparr>h_ring := Some r\<rparr>))
      | Some _ \<Rightarrow> (Inl (lit ''a completion ring is already attached''), h))"

definition store_result :: "u64 \<Rightarrow> JobResult \<Rightarrow> Handle \<Rightarrow> Handle" where
  "store_result ticket r h = h\<lparr>results := AList.update ticket r (results h)\<rparr>"

text \<open>The record for an outcome, and whether the outcome travels in it instead of being stored.\<close>

definition goes_inline :: "Handle \<Rightarrow> bool \<Rightarrow> JobResult \<Rightarrow> bytes option" where
  "goes_inline h wants_inline result =
     (case result of
        ResOk data \<Rightarrow> if wants_inline \<and> (inline_ok h \<or> h_ring h \<noteq> None) \<and> length data \<le> INLINE_RESULT_MAX
                      then Some data else None
      | _ \<Rightarrow> None)"

text \<open>
  \<open>complete\<close>, in two parts: the record and the store, then the announcement. The ring's publish is the uncontended one; its interleaving with other producers is
  \<open>Ring_Threads\<close>. The first component lists what reached the reader, in order: records published in the
  ring, and records and wake tokens written to the pipe.
\<close>

datatype announcement = InRing bytes | InPipe bytes

definition announce ::
  "bool \<Rightarrow> nat \<Rightarrow> (io_error \<Rightarrow> rstr) \<Rightarrow> attempt_env list \<Rightarrow> u64 \<Rightarrow> JobResult \<Rightarrow> bytes \<Rightarrow> process \<times> Handle
    \<Rightarrow> (announcement list \<times> process \<times> Handle) option" where
  "announce be me disp env ticket result record st =
     (let (p, h) = st
      in case h_ring h of
           None \<Rightarrow>
             map_option (\<lambda>(landed, st2). (if landed then [InPipe record] else [], st2))
               (publish_completion me disp env ticket record (p, h))
         | Some r \<Rightarrow>
             (case try_publish 1 [] be record (tail (shared r)) r of
                Some (True, r1) \<Rightarrow>
                  (let (woke, r2) = take_waiter r1; h2 = h\<lparr>h_ring := Some r2\<rparr>
                   in if woke then
                        map_option (\<lambda>(landed, st3). (InRing record # (if landed then [InPipe (wake_token be)] else []), st3))
                          (publish_completion me disp env ticket (wake_token be) (p, h2))
                      else Some ([InRing record], p, h2))
              | _ \<Rightarrow>
                  (let spill = (length record > 8 \<and> \<not> inline_ok h);
                       record' = (if spill then bare_record be ticket else record);
                       h2 = (if spill then store_result ticket result h else h)
                   in map_option (\<lambda>(landed, p3, h3).
                          (if landed then [InPipe record'] else [],
                           p3, if landed then h3\<lparr>h_ring := map_option note_overflow (h_ring h3)\<rparr> else h3))
                        (publish_completion me disp env ticket record' (p, h2)))))"

definition complete ::
  "bool \<Rightarrow> nat \<Rightarrow> (io_error \<Rightarrow> rstr) \<Rightarrow> attempt_env list \<Rightarrow> u64 \<Rightarrow> JobResult \<Rightarrow> bool \<Rightarrow> process \<times> Handle
    \<Rightarrow> (announcement list \<times> process \<times> Handle) option" where
  "complete be me disp env ticket result wants_inline st =
     (case goes_inline (snd st) wants_inline result of
        Some data \<Rightarrow> announce be me disp env ticket result (inline_record be ticket data) st
      | None \<Rightarrow> announce be me disp env ticket result (bare_record be ticket)
                 (fst st, store_result ticket result (snd st)))"

subsection \<open>The reader\<close>

text \<open>What the reader makes of the bytes it has: not a whole record yet, a record with its ticket and,
  when inline, its data, and how many bytes it took, or a corrupt length.\<close>

datatype parsed = Incomplete | Corrupt nat | Parsed u64 "bytes option" nat

definition parse_buffered :: "bool \<Rightarrow> bytes \<Rightarrow> parsed" where
  "parse_buffered be b =
     (if length b < 8 then Incomplete
      else (let w = u64_from_ne_bytes be (take 8 b)
            in if w AND INLINE_RECORD_FLAG = 0 then Parsed w None 8
               else if length b < 16 then Incomplete
               else (let n = unat (u64_from_ne_bytes be (take 8 (drop 8 b)))
                     in if INLINE_RESULT_MAX < n then Corrupt n
                        else (let sz = 16 + (n + 7) div 8 * 8
                              in if length b < sz then Incomplete
                                 else Parsed (w AND NOT INLINE_RECORD_FLAG) (Some (take n (drop 16 b))) sz))))"

text \<open>\<open>popRing\<close> reads the same words from a slot, its data from their bytes in memory.\<close>

definition pop_ring_record :: "bool \<Rightarrow> u64 list \<Rightarrow> parsed" where
  "pop_ring_record be ws =
     (let w = ws ! 0
      in if w AND INLINE_RECORD_FLAG = 0 then Parsed w None 8
         else (let n = unat (ws ! 1)
               in if INLINE_RESULT_MAX < n then Corrupt n
                  else Parsed (w AND NOT INLINE_RECORD_FLAG)
                         (Some (take n (concat (map (u64_to_ne_bytes be) (drop 2 ws))))) 0))"

subsection \<open>Lemmas: the format\<close>

lemma flag_is_owned: "INLINE_RECORD_FLAG = TAKE_OWNED_FLAG"
  by (simp add: INLINE_RECORD_FLAG_def TAKE_OWNED_FLAG_def)

lemma ticket_flag:
  assumes "unat t < 2 ^ 63"
  shows "t AND INLINE_RECORD_FLAG = 0" and "(t OR INLINE_RECORD_FLAG) AND INLINE_RECORD_FLAG \<noteq> 0"
    and "(t OR INLINE_RECORD_FLAG) AND NOT INLINE_RECORD_FLAG = t"
proof -
  show f: "t AND INLINE_RECORD_FLAG = 0" using id_flag_clear [OF assms] by (simp add: flag_is_owned)
  have "(t OR INLINE_RECORD_FLAG) AND INLINE_RECORD_FLAG = INLINE_RECORD_FLAG"
    by (simp add: bit.conj_disj_distrib2)
  moreover have "INLINE_RECORD_FLAG \<noteq> 0" by (simp add: INLINE_RECORD_FLAG_def)
  ultimately show "(t OR INLINE_RECORD_FLAG) AND INLINE_RECORD_FLAG \<noteq> 0" by simp
  have "(t OR INLINE_RECORD_FLAG) AND NOT INLINE_RECORD_FLAG = t AND NOT INLINE_RECORD_FLAG"
    by (simp add: bit.conj_disj_distrib2)
  also have "\<dots> = (t AND NOT INLINE_RECORD_FLAG) OR (t AND INLINE_RECORD_FLAG)" using f by simp
  also have "\<dots> = t" by (simp flip: bit.conj_disj_distrib)
  finally show "(t OR INLINE_RECORD_FLAG) AND NOT INLINE_RECORD_FLAG = t" .
qed

lemma length_inline_record:
  "length (inline_record be ticket data) = 16 + (length data + 7) div 8 * 8"
  by (simp add: inline_record_def Let_def)

lemma inline_record_fits: "length data \<le> INLINE_RESULT_MAX \<Longrightarrow> record_fits (inline_record be ticket data)"
  by (auto simp: record_fits_def length_inline_record record_consts)

lemma bare_record_fits: "record_fits (bare_record be ticket)"
  by (simp add: record_fits_def bare_record_def record_consts)

lemma unat_length: "length data \<le> INLINE_RESULT_MAX \<Longrightarrow> unat (of_nat (length data) :: u64) = length data"
  by (simp add: unat_of_nat INLINE_RESULT_MAX_def)

lemma le_nat_le_val: "le_nat (length bs) (le_val bs) = bs"
proof (induction bs)
  case (Cons b bs)
  have "(unat b + 256 * le_val bs) div 256 = le_val bs" using u8_bound [of b] by simp
  moreover have "of_nat ((unat b + 256 * le_val bs) mod 256) = b" using u8_bound [of b] by simp
  ultimately show ?case using Cons by simp
qed simp

lemma u64_bytes_inverse: "length bs = 8 \<Longrightarrow> u64_to_ne_bytes be (u64_from_ne_bytes be bs) = bs"
proof -
  assume len: "length bs = 8"
  let ?f = "(if be then rev else id) :: bytes \<Rightarrow> bytes"
  have l: "length (?f bs) = 8" using len by simp
  have "le_val (?f bs) < 256 ^ 8" using le_val_less [of "?f bs"] by (simp only: l)
  then have "unat (of_nat (le_val (?f bs)) :: u64) = le_val (?f bs)" by (simp add: unat_of_nat)
  with le_nat_le_val [of "?f bs"] l show ?thesis
    by (auto simp: u64_to_ne_bytes_def u64_from_ne_bytes_def)
qed

lemma concat_record_words:
  "8 dvd length bs \<Longrightarrow> concat (map (u64_to_ne_bytes be) (record_words be bs)) = bs"
proof (induction bs rule: chunks8.induct)
  case (1 bs)
  show ?case
  proof (cases "length bs < 8")
    case True
    with "1.prems" have "bs = []" by (auto simp: dvd_def)
    then show ?thesis by (simp add: record_words_def chunks8.simps)
  next
    case False
    then have "8 dvd length (drop 8 bs)" using "1.prems" by (simp add: dvd_diff_nat)
    with 1(1) [OF False] False show ?thesis
      by (simp add: record_words_def chunks8.simps [of bs] u64_bytes_inverse)
  qed
qed

text \<open>A slot that holds a record yields the record's bytes from its leading words.\<close>

lemma words_hold_bytes:
  assumes "words_hold be rec ws" and "record_fits rec"
  shows "take (length rec) (concat (map (u64_to_ne_bytes be) ws)) = rec"
proof -
  let ?n = "length rec div 8"
  have d: "8 dvd length rec" using assms(2) by (simp add: record_fits_def)
  have "concat (map (u64_to_ne_bytes be) ws)
      = concat (map (u64_to_ne_bytes be) (take ?n ws)) @ concat (map (u64_to_ne_bytes be) (drop ?n ws))"
    by (metis append_take_drop_id concat_append map_append)
  with assms(1) concat_record_words [OF d, of be] show ?thesis by (simp add: words_hold_def)
qed

lemma nth_word_bytes:
  assumes "i < length ws"
  shows "u64_from_ne_bytes be (take 8 (drop (8 * i) (concat (map (u64_to_ne_bytes be) ws)))) = ws ! i"
  using assms
proof (induction ws arbitrary: i)
  case (Cons w ws)
  then show ?case by (cases i) auto
qed simp

lemma drop2_bytes: "concat (map (u64_to_ne_bytes be) (drop 2 ws)) = drop 16 (concat (map (u64_to_ne_bytes be) ws))"
  by (cases ws; cases "tl ws") auto

lemma parse_inline:
  assumes "unat ticket < 2 ^ 63" and "length data \<le> INLINE_RESULT_MAX"
  shows "parse_buffered be (inline_record be ticket data @ rest)
    = Parsed ticket (Some data) (length (inline_record be ticket data))"
  using ticket_flag [OF assms(1)] unat_length [OF assms(2)] assms(2)
  by (simp add: parse_buffered_def inline_record_def Let_def)

lemma parse_bare:
  assumes "unat ticket < 2 ^ 63"
  shows "parse_buffered be (bare_record be ticket @ rest) = Parsed ticket None 8"
  using ticket_flag [OF assms] by (simp add: parse_buffered_def bare_record_def)

text \<open>The slot's words read as the pipe's bytes do.\<close>

lemma pop_ring_as_parse:
  assumes hold: "words_hold be rec ws" and fits: "record_fits rec" and "8 \<le> length rec"
    and p: "parse_buffered be rec = Parsed t d n"
  shows "\<exists>n'. pop_ring_record be ws = Parsed t d n'"
proof -
  let ?B = "concat (map (u64_to_ne_bytes be) ws)"
  have B: "take (length rec) ?B = rec" by (rule words_hold_bytes [OF hold fits])
  have len: "length ws = 8" using hold by (simp add: words_hold_def record_consts)
  have "take 8 rec = take 8 ?B" using B assms(3) by (metis min.absorb1 take_take)
  then have w0: "ws ! 0 = u64_from_ne_bytes be (take 8 rec)" using nth_word_bytes [of 0 ws be] len by simp
  show ?thesis
  proof (cases "ws ! 0 AND INLINE_RECORD_FLAG = 0")
    case True
    with p w0 assms(3) show ?thesis by (auto simp: parse_buffered_def pop_ring_record_def Let_def)
  next
    case False
    with p w0 assms(3) have l16: "16 \<le> length rec"
      and n1: "\<not> INLINE_RESULT_MAX < unat (u64_from_ne_bytes be (take 8 (drop 8 rec)))"
      and n2: "16 + (unat (u64_from_ne_bytes be (take 8 (drop 8 rec))) + 7) div 8 * 8 \<le> length rec"
      and td: "t = ws ! 0 AND NOT INLINE_RECORD_FLAG"
        "d = Some (take (unat (u64_from_ne_bytes be (take 8 (drop 8 rec)))) (drop 16 rec))"
      by (auto simp: parse_buffered_def Let_def split: if_splits)
    let ?n = "unat (u64_from_ne_bytes be (take 8 (drop 8 rec)))"
    have "drop 8 rec = take (length rec - 8) (drop 8 ?B)" "drop 16 rec = take (length rec - 16) (drop 16 ?B)"
      using B by (metis drop_take)+
    then have d8: "take 8 (drop 8 rec) = take 8 (drop 8 ?B)" and d16: "take ?n (drop 16 rec) = take ?n (drop 16 ?B)"
      using l16 n2 by (simp_all add: min_def)
    have "ws ! 1 = u64_from_ne_bytes be (take 8 (drop 8 rec))"
      using nth_word_bytes [of 1 ws be] len d8 by simp
    with False n1 td d16 show ?thesis by (simp add: pop_ring_record_def Let_def drop2_bytes)
  qed
qed

subsection \<open>Lemmas: the pipe write\<close>

lemma write_attempt_facts:
  assumes "write_record_attempt fd bs script = (Some r, l)" and "bs \<noteq> []"
  shows "prefix (wl_sent l) bs" and "r = Inr () \<Longrightarrow> wl_sent l = bs" and "r = Inl WouldBlock \<Longrightarrow> wl_sent l = []"
    and "pipe_atomic (length bs) script \<Longrightarrow> r = Inl e \<Longrightarrow> wl_sent l = []"
proof -
  have *: "prefix (wl_sent l) bs \<and> (r = Inr () \<longrightarrow> wl_sent l = bs) \<and> (r = Inl WouldBlock \<longrightarrow> wl_sent l = [])
    \<and> (pipe_atomic (length bs) script \<longrightarrow> r = Inl e \<longrightarrow> wl_sent l = [])"
  proof (cases "fd < 0")
    case True
    with assms show ?thesis by (auto simp: write_record_attempt_def write_loop_start_def)
  next
    case False
    then have run: "write_record_loop script (write_loop_start bs) = (Some r, l)"
      using assms(1) by (simp add: write_record_attempt_def)
    have "write_inv bs l \<and> (r = Inr () \<longrightarrow> wl_sent l = bs) \<and> (r = Inl WouldBlock \<longrightarrow> wl_sent l = [])"
      using write_record_loop_spec [OF write_inv_start run] by simp
    moreover have "pipe_atomic (length bs) script \<Longrightarrow> r = Inl e \<Longrightarrow> wl_sent l = []"
      using write_record_loop_atomic [OF _ _ _ assms(2) run] by (auto simp: write_loop_start_def)
    ultimately show ?thesis by (auto simp: write_inv_def prefix_def)
  qed
  then show "prefix (wl_sent l) bs" "r = Inr () \<Longrightarrow> wl_sent l = bs" "r = Inl WouldBlock \<Longrightarrow> wl_sent l = []"
    "pipe_atomic (length bs) script \<Longrightarrow> r = Inl e \<Longrightarrow> wl_sent l = []" by blast+
qed

definition write_state_ok :: "write_state \<Rightarrow> bool" where
  "write_state_ok s \<longleftrightarrow> length (ws_logs s) = (if ws_warned s then 1 else 0)
     \<and> ws_backoff s \<le> WRITE_TICKET_MAX_BACKOFF \<and> (\<forall>n \<in> set (ws_sleeps s). n \<le> WRITE_TICKET_MAX_BACKOFF)"

lemma write_completion_spec:
  assumes "record \<noteq> []"
  shows "write_state_ok s \<Longrightarrow> ws_sent s = [] \<Longrightarrow> write_completion env ticket record s = (Some r, w) \<Longrightarrow>
    write_state_ok w \<and> prefix (ws_sent w) record \<and> (r = Inr () \<longrightarrow> ws_sent w = record)
    \<and> ((\<forall>e \<in> set env. pipe_atomic (length record) (ae_script e)) \<longrightarrow> r \<noteq> Inr () \<longrightarrow> ws_sent w = [])"
proof (induction env arbitrary: s)
  case (Cons e es)
  show ?case
  proof (cases "ae_fd e = - 1")
    case True
    with Cons.prems show ?thesis by auto
  next
    case fd: False
    obtain a l where a: "write_record_attempt (ae_fd e) record (ae_script e) = (a, l)" by force
    obtain ar where ar: "a = Some ar"
      using a fd Cons.prems(3) by (cases a) auto
    note f = write_attempt_facts [OF a [unfolded ar] assms]
    show ?thesis
    proof (cases ar)
      case (Inr u)
      with Cons.prems a ar fd f(1,2) show ?thesis by (auto simp: write_state_ok_def)
    next
      case (Inl err)
      show ?thesis
      proof (cases "err = WouldBlock \<and> \<not> ae_closed e")
        case False
        with Cons.prems a ar fd Inl f(1,3,4) show ?thesis
          by (auto simp: write_state_ok_def Let_def split: if_splits)
      next
        case True
        let ?warn = "\<not> ws_warned s \<and> WRITE_TICKET_TIMEOUT \<le> ae_elapsed e"
        define s2 where "s2 = (let s1 = s\<lparr>ws_sent := ws_sent s @ wl_sent l\<rparr>;
            s2 = (if ?warn then s1\<lparr>ws_warned := True, ws_logs := ws_logs s1 @ [pipe_full_line ticket]\<rparr> else s1)
          in s2\<lparr>ws_sleeps := ws_sleeps s2 @ [ws_backoff s2], ws_backoff := min (ws_backoff s2 * 2) WRITE_TICKET_MAX_BACKOFF\<rparr>)"
        have "wl_sent l = []" using f(3) Inl True by simp
        then have ok2: "write_state_ok s2" "ws_sent s2 = []"
          using Cons.prems by (auto simp: s2_def write_state_ok_def Let_def)
        have "write_completion es ticket record s2 = (Some r, w)"
          using Cons.prems(3) a ar fd Inl True by (simp add: s2_def Let_def)
        from Cons.IH [OF ok2 this] show ?thesis by auto
      qed
    qed
  qed
qed simp

lemma write_state_start_ok: "write_state_ok write_state_start"
  by (simp add: write_state_ok_def write_state_start_def WRITE_TICKET_MAX_BACKOFF_def)

text \<open>Once a turn meets a closed handle or a closed descriptor, the call has returned.\<close>

lemma write_completion_closed:
  "e \<in> set env \<Longrightarrow> ae_closed e \<or> ae_fd e = - 1 \<Longrightarrow>
     (\<And>e'. e' \<in> set env \<Longrightarrow> ae_fd e' = - 1 \<or> fst (write_record_attempt (ae_fd e') record (ae_script e')) \<noteq> None) \<Longrightarrow>
     fst (write_completion env ticket record s) \<noteq> None"
proof (induction env arbitrary: s)
  case (Cons a env)
  obtain r l where a: "write_record_attempt (ae_fd a) record (ae_script a) = (r, l)" by force
  show ?case
  proof (cases "a = e")
    case True
    with Cons.prems(2) Cons.prems(3) [of a] a show ?thesis by (auto simp: Let_def split: option.splits sum.splits)
  next
    case False
    with Cons.prems have "e \<in> set env" by simp
    from Cons.IH [OF this Cons.prems(2)] Cons.prems(3) a show ?thesis
      by (fastforce simp: Let_def split: option.splits sum.splits)
  qed
qed simp

subsection \<open>Lemmas: publishing\<close>

lemma log_line_frame: "log_line me line p = p\<lparr>log := log (log_line me line p)\<rparr>"
  by (simp add: log_line_def split: option.splits)

lemma fold_log_frame: "\<exists>l. fold (log_line me) ls p = p\<lparr>log := l\<rparr>"
proof (induction ls arbitrary: p)
  case Nil
  then show ?case by (intro exI [of _ "log p"]) simp
next
  case (Cons a ls)
  obtain l where "fold (log_line me) ls (log_line me a p) = (log_line me a p)\<lparr>log := l\<rparr>" using Cons by blast
  moreover have "(log_line me a p)\<lparr>log := l\<rparr> = p\<lparr>log := l\<rparr>"
    by (subst log_line_frame) simp
  ultimately show ?case by auto
qed

text \<open>A write that did not land is the handle closing, or poisons the handle.\<close>

definition write_failed :: "attempt_env list \<Rightarrow> u64 \<Rightarrow> bytes \<Rightarrow> Handle \<Rightarrow> bool" where
  "write_failed env ticket rec h' \<longleftrightarrow>
     (\<exists>e w. write_completion env ticket rec write_state_start = (Some (Inl e), w) \<and> (e \<noteq> NotConnected \<longrightarrow> h_poisoned h'))"

lemma publish_completion_spec:
  assumes "publish_completion me disp env ticket rec (p, h) = Some (landed, p', h')"
  shows "(\<exists>l. p' = p\<lparr>log := l\<rparr>) \<and> (h' = h \<or> h' = poison h) \<and> (landed \<longrightarrow> h' = h)
    \<and> (\<not> landed \<longrightarrow> write_failed env ticket rec h')"
proof -
  obtain r w where rw: "write_completion env ticket rec write_state_start = (r, w)" by force
  obtain l where l: "fold (log_line me) (ws_logs w) p = p\<lparr>log := l\<rparr>" using fold_log_frame by blast
  have "\<exists>l'. log_line me m (p\<lparr>log := l\<rparr>) = p\<lparr>log := l'\<rparr>" for m by (subst log_line_frame) auto
  then have ex: "\<exists>l'. log_line me m (fold (log_line me) (ws_logs w) p) = p\<lparr>log := l'\<rparr>" for m by (simp add: l)
  have ex0: "\<exists>l'. fold (log_line me) (ws_logs w) p = p\<lparr>log := l'\<rparr>" using l by blast
  show ?thesis
    using assms rw
    by (auto simp: publish_completion_def write_failed_def poison_def Let_def intro: ex ex0
        split: option.splits sum.splits if_splits)
qed

lemma try_publish_returns:
  assumes "ring_ok (r, hp)"
  obtains b r' where "try_publish 1 [] be rec (tail (shared r)) r = Some (b, r')"
  using look_at_tail [OF assms] that by (cases "unread (r, hp) < ring_cap (r, hp)") auto

text \<open>What a record tells the reader: the outcome itself, or that it is stored under the ticket.\<close>

definition carries :: "bool \<Rightarrow> u64 \<Rightarrow> JobResult \<Rightarrow> Handle \<Rightarrow> bytes \<Rightarrow> bool" where
  "carries be ticket result h' rec \<longleftrightarrow>
     (\<exists>data n. result = ResOk data \<and> parse_buffered be rec = Parsed ticket (Some data) n)
     \<or> (\<exists>n. parse_buffered be rec = Parsed ticket None n \<and> map_of (results h') ticket = Some result)"

definition same_but_results :: "u64 \<Rightarrow> Handle \<Rightarrow> Handle \<Rightarrow> bool" where
  "same_but_results ticket h h' \<longleftrightarrow> cancel_flags h' = cancel_flags h \<and> buffers h' = buffers h \<and> h_queue h' = h_queue h
     \<and> h_closed h' = h_closed h \<and> (h_poisoned h \<longrightarrow> h_poisoned h')
     \<and> (idmap_ok (results h) \<longrightarrow> idmap_ok (results h'))
     \<and> (\<forall>t. t \<noteq> ticket \<longrightarrow> map_of (results h') t = map_of (results h) t)"

lemma carries_inline:
  "unat ticket < 2 ^ 63 \<Longrightarrow> length data \<le> INLINE_RESULT_MAX \<Longrightarrow> carries be ticket (ResOk data) h' (inline_record be ticket data)"
  using parse_inline [of ticket data be "[]"] by (simp add: carries_def)

lemma carries_bare:
  "unat ticket < 2 ^ 63 \<Longrightarrow> map_of (results h') ticket = Some result \<Longrightarrow> carries be ticket result h' (bare_record be ticket)"
  using parse_bare [of ticket be "[]"] by (simp add: carries_def)

lemma store_result_simps:
  "map_of (results (store_result t r h)) t = Some r" "same_but_results t h (store_result t r h)"
  "h_ring (store_result t r h) = h_ring h" "inline_ok (store_result t r h) = inline_ok h"
  by (auto simp: store_result_def same_but_results_def update_conv' hm.ok_put)

lemma same_but_results_poison [simp]:
  "same_but_results t h (poison h') = same_but_results t h (h'\<lparr>h_poisoned := True\<rparr>)"
  by (simp add: poison_def)

lemma goes_inline_Some:
  "goes_inline h w result = Some data \<Longrightarrow> result = ResOk data \<and> length data \<le> INLINE_RESULT_MAX"
  by (auto simp: goes_inline_def split: JobResult.splits if_splits)

text \<open>A wake token is the bare record of ticket 0, so it announces nothing.\<close>

definition announcing :: "bool \<Rightarrow> announcement list \<Rightarrow> bytes list" where
  "announcing be out = map (\<lambda>a. case a of InRing r \<Rightarrow> r | InPipe r \<Rightarrow> r)
     (filter (\<lambda>a. a \<noteq> InPipe (wake_token be)) out)"

lemma record_not_token:
  "unat ticket < 2 ^ 63 \<Longrightarrow> ticket \<noteq> 0 \<Longrightarrow> carries be ticket result h' rec \<Longrightarrow> rec \<noteq> wake_token be"
  using parse_bare [of 0 be "[]"] by (auto simp: carries_def wake_token_def bare_record_def)

subsection \<open>Properties\<close>

text \<open>C16: What the workers encode the reader decodes. For every ticket and every result of at most 48
  bytes, an inline record parses, from the pipe's byte stream with anything behind it and from a ring
  slot's words alike, to exactly that ticket and those bytes, and a bare record to exactly the ticket,
  on either byte order; every record fits a slot.\<close>

theorem completion_record_roundtrip:
  assumes "unat ticket < 2 ^ 63" and "length data \<le> INLINE_RESULT_MAX"
    and "words_hold be (inline_record be ticket data) ws" and "words_hold be (bare_record be ticket) vs"
  shows "parse_buffered be (inline_record be ticket data @ rest)
      = Parsed ticket (Some data) (length (inline_record be ticket data))
    \<and> parse_buffered be (bare_record be ticket @ rest) = Parsed ticket None 8
    \<and> (\<exists>n. pop_ring_record be ws = Parsed ticket (Some data) n)
    \<and> (\<exists>n. pop_ring_record be vs = Parsed ticket None n)
    \<and> record_fits (inline_record be ticket data) \<and> record_fits (bare_record be ticket)"
proof -
  have "\<exists>n. pop_ring_record be ws = Parsed ticket (Some data) n"
    using pop_ring_as_parse [OF assms(3) inline_record_fits [OF assms(2)]] parse_inline [OF assms(1,2), of be "[]"]
    by (simp add: length_inline_record)
  moreover have "\<exists>n. pop_ring_record be vs = Parsed ticket None n"
    using pop_ring_as_parse [OF assms(4) bare_record_fits] parse_bare [OF assms(1), of be "[]"]
    by (simp add: bare_record_def)
  ultimately show ?thesis
    using parse_inline [OF assms(1,2)] parse_bare [OF assms(1)] inline_record_fits [OF assms(2)] bare_record_fits by blast
qed

theorem completion_record_roundtrip_witness:
  "parse_buffered False (inline_record False 7 [1, 2, 3]) = Parsed 7 (Some [1, 2, 3]) 24"
proof -
  have h: "words_hold False rec (store_words (record_words False rec) (replicate 8 0))" if "record_fits rec" for rec
    using store_words_hold [OF that, of "replicate 8 0"] by (simp add: record_consts)
  from completion_record_roundtrip [OF _ _ h h, of 7 "[1, 2, 3]" "[]"] show ?thesis
    by (simp add: INLINE_RESULT_MAX_def inline_record_fits bare_record_fits length_inline_record)
qed

text \<open>C27: A completion write is all or nothing and never gives up on an open handle. Whatever the pipe
  answers over any number of turns, a write that returns success put exactly one copy of the record in
  the pipe; on a pipe (where a short record is atomic) a failed one put nothing there; it warns at most
  once and sleeps at most 8 ms at a time; and it does return once the handle is closed or the descriptor
  taken back.\<close>

theorem write_completion_once:
  assumes "record \<noteq> []" and "write_completion env ticket record write_state_start = (r, w)"
    and "\<forall>e \<in> set env. pipe_atomic (length record) (ae_script e)
           \<and> fst (write_record_attempt (ae_fd e) record (ae_script e)) \<noteq> None"
  shows "(r = Some (Inr ()) \<longrightarrow> ws_sent w = record) \<and> (\<forall>err. r = Some (Inl err) \<longrightarrow> ws_sent w = [])
    \<and> (r \<noteq> None \<longrightarrow> length (ws_logs w) \<le> 1 \<and> (\<forall>n \<in> set (ws_sleeps w). n \<le> 8000000))
    \<and> ((\<exists>e \<in> set env. ae_closed e \<or> ae_fd e = - 1) \<longrightarrow> r \<noteq> None)"
proof -
  have "(\<exists>e \<in> set env. ae_closed e \<or> ae_fd e = - 1) \<longrightarrow> r \<noteq> None"
    using write_completion_closed [of _ env "record" ticket write_state_start] assms(2,3) by (metis fst_conv)
  moreover have "r = Some x \<Longrightarrow> write_state_ok w \<and> (x = Inr () \<longrightarrow> ws_sent w = record) \<and> (x \<noteq> Inr () \<longrightarrow> ws_sent w = [])" for x
    using write_completion_spec [OF assms(1) write_state_start_ok, of env ticket x w] assms(2,3)
    by (auto simp: write_state_start_def)
  ultimately show ?thesis
    by (cases r) (auto simp: write_state_ok_def WRITE_TICKET_MAX_BACKOFF_def)
qed

theorem write_completion_once_witness:
  "ws_sent (snd (write_completion
     [\<lparr>ae_fd = 3, ae_script = [EAgain 0 0], ae_closed = False, ae_elapsed = 0\<rparr>,
      \<lparr>ae_fd = 3, ae_script = [EIntr, Wrote 8], ae_closed = False, ae_elapsed = 60000\<rparr>] 7 (bare_record False 7) write_state_start))
   = bare_record False 7"
proof -
  let ?env = "[\<lparr>ae_fd = 3, ae_script = [EAgain 0 0], ae_closed = False, ae_elapsed = 0\<rparr>,
      \<lparr>ae_fd = 3, ae_script = [EIntr, Wrote 8], ae_closed = False, ae_elapsed = 60000\<rparr>]"
  have l: "length (bare_record False 7) = 8" by (simp add: bare_record_def)
  then have ne: "bare_record False 7 \<noteq> []" by auto
  have a: "fst (write_record_attempt 3 (bare_record False 7) [EAgain 0 0]) = Some (Inl WouldBlock)"
    "fst (write_record_attempt 3 (bare_record False 7) [EIntr, Wrote 8]) = Some (Inr ())"
    using ne l by (simp_all add: write_record_attempt_def write_loop_start_def write_loop_eqs)
  obtain r w where rw: "write_completion ?env 7 (bare_record False 7) write_state_start = (r, w)" by force
  have r: "r = Some (Inr ())"
    using rw a by (cases "write_record_attempt 3 (bare_record False 7) [EAgain 0 0]";
        cases "write_record_attempt 3 (bare_record False 7) [EIntr, Wrote 8]") (auto simp: Let_def)
  show ?thesis
    using write_completion_once [OF ne rw] r rw a l by (auto simp: pipe_atomic_def)
qed

text \<open>How an announcement goes: to the pipe for want of a ring, into the ring with or without a token for the reader,
  or to the pipe because the ring is full, then without the bytes when the pipe has no room for them.\<close>

lemma announce_cases:
  assumes run: "announce be me disp env ticket result rec (p, h1) = Some (out, p', h')"
    and ring: "\<forall>r. h_ring h1 = Some r \<longrightarrow> (\<exists>hp. ring_ok (r, hp))"
  obtains (piped) landed where "publish_completion me disp env ticket rec (p, h1) = Some (landed, p', h')"
      "out = (if landed then [InPipe rec] else [])"
  | (ringed) r2 where "out = [InRing rec]" "p' = p" "h' = h1\<lparr>h_ring := Some r2\<rparr>"
  | (woken) r2 landed where "publish_completion me disp env ticket (wake_token be) (p, h1\<lparr>h_ring := Some r2\<rparr>) = Some (landed, p', h')"
      "out = InRing rec # (if landed then [InPipe (wake_token be)] else [])"
  | (overflowed) spill landed h3 where
      "publish_completion me disp env ticket (if spill then bare_record be ticket else rec)
         (p, if spill then store_result ticket result h1 else h1) = Some (landed, p', h3)"
      "out = (if landed then [InPipe (if spill then bare_record be ticket else rec)] else [])"
      "h' = (if landed then h3\<lparr>h_ring := map_option note_overflow (h_ring h3)\<rparr> else h3)"
proof (cases "h_ring h1")
  case None
  with run obtain landed where "publish_completion me disp env ticket rec (p, h1) = Some (landed, p', h')"
    "out = (if landed then [InPipe rec] else [])" by (auto simp: announce_def)
  then show thesis by (rule piped)
next
  case (Some r)
  with ring obtain hp where "ring_ok (r, hp)" by blast
  from try_publish_returns [OF this, of be rec] obtain b r1 where tp: "try_publish 1 [] be rec (tail (shared r)) r = Some (b, r1)" by blast
  obtain woke r2 where tw: "take_waiter r1 = (woke, r2)" by force
  consider "b" "\<not> woke" | "b" "woke" | "\<not> b" by blast
  then show thesis
  proof cases
    case 1
    with run Some tp tw have "out = [InRing rec]" "p' = p" "h' = h1\<lparr>h_ring := Some r2\<rparr>" by (auto simp: announce_def)
    then show thesis by (rule ringed)
  next
    case 2
    with run Some tp tw obtain landed where
      "publish_completion me disp env ticket (wake_token be) (p, h1\<lparr>h_ring := Some r2\<rparr>) = Some (landed, p', h')"
      "out = InRing rec # (if landed then [InPipe (wake_token be)] else [])" by (auto simp: announce_def)
    then show thesis by (rule woken)
  next
    case 3
    define spill where "spill = (length rec > 8 \<and> \<not> inline_ok h1)"
    from run Some tp 3 obtain landed h3 where
      "publish_completion me disp env ticket (if spill then bare_record be ticket else rec)
         (p, if spill then store_result ticket result h1 else h1) = Some (landed, p', h3)"
      "out = (if landed then [InPipe (if spill then bare_record be ticket else rec)] else [])"
      "h' = (if landed then h3\<lparr>h_ring := map_option note_overflow (h_ring h3)\<rparr> else h3)"
      by (auto simp: announce_def Let_def spill_def [symmetric])
    then show thesis by (rule overflowed)
  qed
qed

lemma publish_same_but_results:
  assumes "publish_completion me disp env ticket r (p, g) = Some (landed, q', g')" and "same_but_results ticket h g"
  shows "(\<exists>l. q' = p\<lparr>log := l\<rparr>) \<and> (\<forall>x. same_but_results ticket h (g'\<lparr>h_ring := x\<rparr>)) \<and> same_but_results ticket h g'
    \<and> results g' = results g \<and> (landed \<longrightarrow> g' = g) \<and> (\<not> landed \<longrightarrow> write_failed env ticket r g')"
  using publish_completion_spec [OF assms(1)] assms(2) by (auto simp: same_but_results_def poison_def)

lemma announce_spec:
  assumes run: "announce be me disp env ticket result rec (p, h1) = Some (out, p', h')"
    and tk: "unat ticket < 2 ^ 63" "ticket \<noteq> 0"
    and ring: "\<forall>r. h_ring h1 = Some r \<longrightarrow> (\<exists>hp. ring_ok (r, hp))"
    and h1: "same_but_results ticket h h1"
    and carr: "\<And>g. results g = results h1 \<Longrightarrow> carries be ticket result g rec"
  shows "(\<exists>l. p' = p\<lparr>log := l\<rparr>) \<and> same_but_results ticket h h'
    \<and> ((\<exists>rec. announcing be out = [rec] \<and> carries be ticket result h' rec)
       \<or> announcing be out = [] \<and> (\<exists>rec. write_failed env ticket rec h'))"
proof -
  have hr: "same_but_results ticket h (h1\<lparr>h_ring := Some r2\<rparr>)" for r2 using h1 by (simp add: same_but_results_def)
  from run ring show ?thesis
  proof (cases rule: announce_cases)
    case (piped landed)
    with publish_same_but_results [OF piped(1) h1] carr [of h'] record_not_token [OF tk carr [of h1]] show ?thesis
      by (cases landed) (auto simp: announcing_def)
  next
    case (ringed r2)
    with hr [of r2] carr [of h'] show ?thesis by (auto simp: announcing_def intro: exI [of _ "log p"])
  next
    case (woken r2 landed)
    with publish_same_but_results [OF woken(1) hr] carr [of h'] show ?thesis by (auto simp: announcing_def)
  next
    case (overflowed spill landed h3)
    let ?rec = "if spill then bare_record be ticket else rec" and ?h2 = "if spill then store_result ticket result h1 else h1"
    have h2: "same_but_results ticket h ?h2"
      using h1 store_result_simps(2) [of ticket h1 result] by (auto simp: same_but_results_def)
    have carr2: "carries be ticket result g ?rec" if "results g = results ?h2" for g
      using that carr [of g] store_result_simps(1) [of ticket result h1] tk(1) by (auto intro: carries_bare)
    note q = publish_same_but_results [OF overflowed(1) h2]
    show ?thesis
    proof (cases landed)
      case True
      with q overflowed(3) have "same_but_results ticket h h'" "results h' = results ?h2" by auto
      with True overflowed(2) q carr2 [of h'] record_not_token [OF tk carr2 [OF refl]] show ?thesis by (auto simp: announcing_def)
    next
      case False
      with q overflowed(2,3) show ?thesis by (auto simp: announcing_def)
    qed
  qed
qed

lemma complete_spec:
  assumes "complete be me disp env ticket result wants (p, h) = Some (out, p', h')"
    and "unat ticket < 2 ^ 63" and "ticket \<noteq> 0"
    and "\<forall>r. h_ring h = Some r \<longrightarrow> (\<exists>hp. ring_ok (r, hp))"
  shows "(\<exists>l. p' = p\<lparr>log := l\<rparr>) \<and> same_but_results ticket h h'
    \<and> ((\<exists>rec. announcing be out = [rec] \<and> carries be ticket result h' rec)
       \<or> announcing be out = [] \<and> (\<exists>rec. write_failed env ticket rec h'))"
proof -
  show ?thesis
  proof (cases "goes_inline h wants result")
    case (Some data)
    with assms(1) have "announce be me disp env ticket result (inline_record be ticket data) (p, h) = Some (out, p', h')"
      by (simp add: complete_def)
    from announce_spec [OF this assms(2,3), of h] assms(2,4) goes_inline_Some [OF Some] show ?thesis
      by (simp add: same_but_results_def carries_inline)
  next
    case None
    with assms(1) have "announce be me disp env ticket result (bare_record be ticket) (p, store_result ticket result h)
        = Some (out, p', h')" by (simp add: complete_def)
    from announce_spec [OF this assms(2,3), of h] assms(2,4) show ?thesis
      by (simp add: carries_bare store_result_simps)
  qed
qed

text \<open>What \<open>complete\<close> may change of the handle, and that a ring stays a ring.\<close>

definition ring_fine :: "Handle \<Rightarrow> bool" where
  "ring_fine h \<longleftrightarrow> (\<forall>r. h_ring h = Some r \<longrightarrow> (\<exists>hp. ring_ok (r, hp)))"

definition only_outcome :: "Handle \<Rightarrow> Handle \<Rightarrow> bool" where
  "only_outcome h h' \<longleftrightarrow> h' = h\<lparr>results := results h', h_poisoned := h_poisoned h', h_ring := h_ring h'\<rparr>"

lemma ring_ok_flags:
  "ring_ok (r\<lparr>shared := (shared r)\<lparr>waiting := w\<rparr>\<rparr>, hp) = ring_ok (r, hp)"
  "ring_ok (note_overflow r, hp) = ring_ok (r, hp)"
  by (simp_all add: ring_ok_def ring_shape_def unread_def ring_cap_def slot_index_def note_overflow_def)

lemma take_waiter_ok: "take_waiter r = (b, r') \<Longrightarrow> ring_ok (r, hp) \<Longrightarrow> ring_ok (r', hp)"
  by (auto simp: take_waiter_def ring_ok_flags split: if_splits)

lemma try_publish_ok:
  assumes "ring_ok (r, hp)" and "record_fits rec" and "try_publish 1 [] be rec (tail (shared r)) r = Some (b, r')"
  shows "ring_ok (r', hp)"
proof (cases "unread (r, hp) < ring_cap (r, hp)")
  case True
  from ring_put_correct [OF assms(1) True assms(2), of be] assms(3) show ?thesis by (auto simp: ring_put_def)
next
  case False
  from try_publish_full [OF assms(1) False, of be rec] assms(1,3) show ?thesis by (simp add: ring_put_def)
qed

lemma only_outcome_trans: "only_outcome h1 h2 \<Longrightarrow> only_outcome h2 h3 \<Longrightarrow> only_outcome h1 h3"
  by (cases h1; cases h2; cases h3) (simp add: only_outcome_def)

lemma only_outcome_simps [simp]:
  "only_outcome h h" "only_outcome h (poison h)" "only_outcome h (h\<lparr>h_ring := x\<rparr>)" "only_outcome h (store_result t r h)"
  by (simp_all add: only_outcome_def poison_def store_result_def)

lemma ring_fine_simps [simp]:
  "ring_fine (poison h) = ring_fine h" "ring_fine (store_result t r h) = ring_fine h"
  "ring_fine (h\<lparr>h_ring := None\<rparr>)" "ring_fine (h\<lparr>h_ring := Some x\<rparr>) = (\<exists>hp. ring_ok (x, hp))"
  by (simp_all add: ring_fine_def poison_def store_result_def)

lemma publish_frame:
  assumes "publish_completion me disp env ticket rec (p, h) = Some (landed, p', h')"
  shows "only_outcome h h'" "ring_fine h' = ring_fine h" "h_ring h' = h_ring h"
  using publish_completion_spec [OF assms] by (auto simp: poison_def only_outcome_def ring_fine_def)

lemma announce_frame:
  assumes run: "announce be me disp env ticket result rec (p, h) = Some (out, p', h')"
    and ring: "ring_fine h" and fits: "record_fits rec"
  shows "only_outcome h h' \<and> ring_fine h'"
proof (cases "h_ring h")
  case None
  with run obtain landed where "publish_completion me disp env ticket rec (p, h) = Some (landed, p', h')"
    by (auto simp: announce_def)
  with publish_frame [OF this] ring show ?thesis by simp
next
  case (Some r)
  with ring obtain hp where ok: "ring_ok (r, hp)" by (auto simp: ring_fine_def)
  from try_publish_returns [OF this, of be rec] obtain b r1 where
    tp: "try_publish 1 [] be rec (tail (shared r)) r = Some (b, r1)" by blast
  show ?thesis
  proof (cases b)
    case True
    obtain woke r2 where tw: "take_waiter r1 = (woke, r2)" by force
    let ?h2 = "h\<lparr>h_ring := Some r2\<rparr>"
    have fine: "ring_fine ?h2" using take_waiter_ok [OF tw try_publish_ok [OF ok fits tp]] by auto
    from run Some tp True tw have "h' = ?h2 \<or> (\<exists>landed. publish_completion me disp env ticket (wake_token be) (p, ?h2) = Some (landed, p', h'))"
      by (auto simp: announce_def Let_def split: if_splits)
    with fine publish_frame [of me disp env ticket "wake_token be" p ?h2] show ?thesis
      by (auto intro: only_outcome_trans [of h ?h2 h'])
  next
    case False
    define spill where "spill = (length rec > 8 \<and> \<not> inline_ok h)"
    define rec' where "rec' = (if spill then bare_record be ticket else rec)"
    define h2 where "h2 = (if spill then store_result ticket result h else h)"
    from run Some tp False obtain landed h3 where
      pc: "publish_completion me disp env ticket rec' (p, h2) = Some (landed, p', h3)"
      and h': "h' = (if landed then h3\<lparr>h_ring := map_option note_overflow (h_ring h3)\<rparr> else h3)"
      by (auto simp: announce_def Let_def spill_def [symmetric] rec'_def [symmetric] h2_def [symmetric])
    have h2: "only_outcome h h2" "ring_fine h2" using ring by (auto simp: h2_def)
    have h3: "only_outcome h h3" "ring_fine h3" using only_outcome_trans [OF h2(1) publish_frame(1) [OF pc]] publish_frame(2) [OF pc] h2(2) by auto
    have "ring_fine h'" using h3(2) by (cases "h_ring h3") (auto simp: h' ring_fine_def ring_ok_flags)
    moreover have "only_outcome h3 h'" by (simp add: h')
    ultimately show ?thesis using only_outcome_trans [OF h3(1)] by blast
  qed
qed

lemma complete_log:
  assumes "complete be me disp env ticket result wants (p, h) = Some (out, p', h')"
  shows "\<exists>l. p' = p\<lparr>log := l\<rparr>"
proof -
  have pub: "publish_completion me disp env ticket rec (p, g) = Some (b, q, g') \<Longrightarrow> \<exists>l. q = p\<lparr>log := l\<rparr>" for rec g b q g'
    using publish_completion_spec by blast
  have self: "\<exists>l. q = q\<lparr>log := l\<rparr>" for q :: process by (rule exI [of _ "log q"]) simp
  have ann: "announce be me disp env ticket result rec (p, g) = Some (o1, q, g') \<Longrightarrow> \<exists>l. q = p\<lparr>log := l\<rparr>" for rec g o1 q g'
    by (auto simp: announce_def Let_def intro: self dest!: pub split: option.splits if_splits prod.splits bool.splits)
  then show ?thesis using assms by (auto simp: complete_def split: option.splits)
qed

lemma complete_frame:
  assumes "complete be me disp env ticket result wants (p, h) = Some (out, p', h')" and "ring_fine h"
  shows "only_outcome h h' \<and> ring_fine h'"
proof (cases "goes_inline h wants result")
  case (Some data)
  with assms(1) have "announce be me disp env ticket result (inline_record be ticket data) (p, h) = Some (out, p', h')"
    by (simp add: complete_def)
  from announce_frame [OF this assms(2) inline_record_fits] goes_inline_Some [OF Some] show ?thesis by simp
next
  case None
  with assms(1) have "announce be me disp env ticket result (bare_record be ticket) (p, store_result ticket result h)
      = Some (out, p', h')" by (simp add: complete_def)
  from announce_frame [OF this _ bare_record_fits] assms(2) only_outcome_trans [of h "store_result ticket result h" h']
  show ?thesis by simp
qed



text \<open>Inline records are used only where they fit: when sizing the pipe reports that inline records
  are allowed, the pipe holds a full-size record for every worker, and when it reports tickets only, it
  holds a ticket for every worker; so at most one unread completion per worker never fills the pipe.
  \<open>grow\<close> promises that the pipe holds what it was asked for, and a pipe that cannot be grown holds at
  least 16 KiB.\<close>

theorem inline_only_when_it_fits:
  assumes "size_completion_pipe pool_size can_grow grow = Inr ok" and "pool_size \<le> MAX_POOL_SIZE"
    and "\<And>n. grow n = Inr () \<Longrightarrow> can_grow \<Longrightarrow> n \<le> cap" and "\<not> can_grow \<Longrightarrow> 16 * 1024 \<le> cap"
  shows "(ok \<longrightarrow> pool_size * INLINE_RECORD_MAX \<le> cap) \<and> pool_size * 8 \<le> cap"
proof -
  have sat: "usize_sat (pool_size * 8) = pool_size * 8" "usize_sat (pool_size * INLINE_RECORD_MAX) = pool_size * INLINE_RECORD_MAX"
    using assms(2) by (simp_all add: usize_sat_def MAX_POOL_SIZE_def record_consts)
  show ?thesis
  proof (cases can_grow)
    case True
    with assms(1) sat assms(3) [of "pool_size * INLINE_RECORD_MAX"] assms(3) [of "pool_size * 8"] show ?thesis
      by (auto simp: size_completion_pipe_def record_consts Let_def split: sum.splits)
  next
    case False
    with assms(1,2,4) sat show ?thesis
      by (auto simp: size_completion_pipe_def MAX_POOL_SIZE_def Let_def split: sum.splits)
  qed
qed

theorem inline_only_when_it_fits_witness:
  "size_completion_pipe 4 True (\<lambda>n. if n \<le> 100 then Inr () else Inl []) = Inr False \<and> 4 * 8 \<le> (100 :: nat)"
proof -
  have run: "size_completion_pipe 4 True (\<lambda>n. if n \<le> 100 then Inr () else Inl []) = Inr False"
    by (simp add: size_completion_pipe_def usize_sat_def record_consts)
  from inline_only_when_it_fits [OF run, of 100] run show ?thesis
    by (auto simp: MAX_POOL_SIZE_def split: if_splits)
qed

end
