(* ===== verification/Buffers.thy ===== *)
theory Buffers
  imports Completion
begin

text \<open>
  The Rust-owned buffer registry (\<open>pool/buffers.rs\<close>). A buffer is shared through an \<open>Arc\<close>: the
  registry holds one count and every queued or running unit that reads it as input another. Memory is
  the map of live blocks, so a use after free is a read of a block that is not there.
\<close>

subsection \<open>Registering buffers\<close>

definition BufferSlot_new :: "RawBuffer \<Rightarrow> bool \<Rightarrow> bool \<Rightarrow> process \<Rightarrow> BufferSlot \<times> process" where
  "BufferSlot_new b claimed held p =
     (\<lparr>slot_buf = b, output_claimed = claimed, caller_held = held\<rparr>, arc_new b p)"

definition BufferSlot_output :: "RawBuffer \<Rightarrow> process \<Rightarrow> BufferSlot \<times> process" where
  "BufferSlot_output b p = BufferSlot_new b True False p"

text \<open>
  \<open>register\<close>: the closed check and the id come first, so a refusal does not run \<open>build\<close>; \<open>unused\<close> is
  the drop of what the closure had captured.
\<close>

definition register ::
  "(process \<Rightarrow> (rstr + BufferSlot) \<times> process) \<Rightarrow> (process \<Rightarrow> process) \<Rightarrow> process \<times> Handle
    \<Rightarrow> (rstr + u64 \<times> nat) \<times> process \<times> Handle" where
  "register build unused st =
     (let (p, h) = st
      in if h_closed h then (Inl (lit ''handle is closed''), unused p, h)
         else (case reserve_id (next_buffer_id p) of
                 (Inl e, _) \<Rightarrow> (Inl e, unused p, h)
               | (Inr i, c) \<Rightarrow>
                   (case build (p\<lparr>next_buffer_id := c\<rparr>) of
                      (Inl e, p1) \<Rightarrow> (Inl e, p1, h)
                    | (Inr s, p1) \<Rightarrow>
                        (Inr (i, rb_ptr (slot_buf s)), p1, h\<lparr>buffers := AList.update i s (buffers h)\<rparr>))))"

text \<open>A \<open>RawBuffer\<close> built in buffer memory and put into a slot.\<close>

definition build_slot ::
  "(mem \<Rightarrow> (rstr + RawBuffer) \<times> mem) \<Rightarrow> bool \<Rightarrow> bool \<Rightarrow> process \<Rightarrow> (rstr + BufferSlot) \<times> process" where
  "build_slot mk claimed held p =
     (case mk (pmem p) of
        (Inl e, m) \<Rightarrow> (Inl e, p\<lparr>pmem := m\<rparr>)
      | (Inr b, m) \<Rightarrow> (let (s, p1) = BufferSlot_new b claimed held (p\<lparr>pmem := m\<rparr>) in (Inr s, p1)))"

definition allocate_buffer ::
  "sys_alloc \<Rightarrow> nat \<Rightarrow> bool \<Rightarrow> process \<times> Handle \<Rightarrow> (rstr + u64 \<times> nat) \<times> process \<times> Handle" where
  "allocate_buffer sa len held st =
     (if h_poisoned (snd st) then (Inl (lit ''handle is poisoned''), st)
      else register (build_slot (rb_allocate sa len) False held) id st)"

definition buf_alloc :: "sys_alloc \<Rightarrow> nat \<Rightarrow> process \<times> Handle \<Rightarrow> (rstr + u64 \<times> nat) \<times> process \<times> Handle" where
  "buf_alloc sa len st = allocate_buffer sa len False st"

definition buf_alloc_published ::
  "sys_alloc \<Rightarrow> nat \<Rightarrow> process \<times> Handle \<Rightarrow> (rstr + u64 \<times> nat) \<times> process \<times> Handle" where
  "buf_alloc_published sa len st = allocate_buffer sa len True st"

definition buf_alloc_published_classified ::
  "sys_alloc \<Rightarrow> nat \<Rightarrow> process \<times> Handle \<Rightarrow> (PoolError + u64 \<times> nat) \<times> process \<times> Handle" where
  "buf_alloc_published_classified sa len st =
     (case check_buffer_len len of
        Inl e \<Rightarrow> (Inl (BadArg e), st)
      | Inr _ \<Rightarrow>
          (case buf_alloc_published sa len st of
             (Inl e, st1) \<Rightarrow> (Inl (Failed e), st1)
           | (Inr r, st1) \<Rightarrow> (Inr r, st1)))"

definition buf_from_bytes ::
  "sys_alloc \<Rightarrow> bytes \<Rightarrow> process \<times> Handle \<Rightarrow> (rstr + u64 \<times> nat) \<times> process \<times> Handle" where
  "buf_from_bytes sa data st = register (build_slot (rb_from_bytes sa data) True False) id st"

subsection \<open>Outputs\<close>

definition too_large :: "nat \<Rightarrow> rstr" where
  "too_large n = lit ''output '' @ show_nat n @ lit '' bytes exceeds maximum ''
     @ show_nat MAX_BUFFER_BYTES @ lit '' bytes''"

text \<open>Dropping a \<open>Vec<u8, BufferAlloc>\<close>, and the bytes it holds.\<close>

definition bv_drop :: "buffer_vec \<Rightarrow> process \<Rightarrow> process" where
  "bv_drop v p =
     (if bv_cap v = 0 then p
      else p\<lparr>pmem := (pmem p)\<lparr>blocks := (blocks (pmem p))(bv_ptr v := None),
                             acct := count_buffer_dealloc (of_nat (bv_cap v)) (acct (pmem p))\<rparr>\<rparr>)"

definition bv_bytes :: "buffer_vec \<Rightarrow> process \<Rightarrow> bytes" where
  "bv_bytes v p = (case blocks (pmem p) (bv_ptr v) of Some bs \<Rightarrow> take (bv_len v) bs | None \<Rightarrow> [])"

definition adopt_output :: "sys_alloc \<Rightarrow> buffer_vec \<Rightarrow> process \<times> Handle \<Rightarrow> JobResult \<times> process \<times> Handle" where
  "adopt_output sa v st =
     (let (p, h) = st
      in if bv_len v = 0 then (ResOk [], bv_drop v p, h)
         else if MAX_BUFFER_BYTES < bv_len v then (ResErr (too_large (bv_len v)), bv_drop v p, h)
         else
           (case register
                   (\<lambda>p. case rb_adopt v of
                          Inr b \<Rightarrow> (let (s, p1) = BufferSlot_output b p in (Inr s, p1))
                        | Inl foreign \<Rightarrow>
                            (case build_slot (rb_from_bytes sa (bv_bytes foreign p)) True False p of
                               (r, p1) \<Rightarrow> (r, bv_drop foreign p1)))
                   (bv_drop v) st of
              (Inr (i, _), st1) \<Rightarrow> (ResBuffer i, st1)
            | (Inl e, st1) \<Rightarrow> (ResErr e, st1)))"

definition returned_id :: "u64 \<Rightarrow> rstr" where
  "returned_id i = lit ''engine returned buffer id '' @ show_nat (unat i) @ lit '' as its output: ''"

definition claim_output :: "u64 \<Rightarrow> process \<times> Handle \<Rightarrow> (rstr + unit) \<times> process \<times> Handle" where
  "claim_output i st =
     (let (p, h) = st
      in case map_of (buffers h) i of
           None \<Rightarrow> (Inl (returned_id i @ lit ''no such live buffer''), p, h)
         | Some s \<Rightarrow>
             if output_claimed s then
               (Inl (returned_id i @ lit ''it is already another call's output; allocate a new buffer for each result''), p, h)
             else if caller_held s then
               (Inl (returned_id i @ lit ''the caller still holds it; allocate a new buffer for the result''), p, h)
             else if arcs p (rb_ptr (slot_buf s)) > 1 then
               (Inl (returned_id i @ lit ''another work unit is still reading it as its input''), p, h)
             else (Inr (), p, h\<lparr>buffers := AList.update i (s\<lparr>output_claimed := True\<rparr>) (buffers h)\<rparr>))"

definition buf_get :: "u64 \<Rightarrow> Handle \<Rightarrow> rstr + nat \<times> nat" where
  "buf_get i h =
     (case map_of (buffers h) i of
        Some s \<Rightarrow> Inr (rb_ptr (slot_buf s), rb_len (slot_buf s))
      | None \<Rightarrow> Inl (lit ''buffer id '' @ show_nat (unat i) @ lit '' not found''))"

definition buf_free :: "u64 \<Rightarrow> process \<times> Handle \<Rightarrow> process \<times> Handle" where
  "buf_free i st =
     (let (p, h) = st
      in case map_of (buffers h) i of
           None \<Rightarrow> (p, h)
         | Some s \<Rightarrow> (arc_drop (slot_buf s) p, h\<lparr>buffers := AList.delete i (buffers h)\<rparr>))"

definition materialize_result ::
  "sys_alloc \<Rightarrow> JobResult \<Rightarrow> process \<times> Handle \<Rightarrow> JobResult \<times> process \<times> Handle" where
  "materialize_result sa r st =
     (case r of
        ResOk data \<Rightarrow>
          if MAX_BUFFER_BYTES < length data then (ResErr (too_large (length data)), st)
          else if MAX_INLINE_INPUT < length data then
            (case buf_from_bytes sa data st of
               (Inr (i, _), st1) \<Rightarrow> (ResBuffer i, st1)
             | (Inl e, st1) \<Rightarrow> (ResErr e, st1))
          else (r, st)
      | _ \<Rightarrow> (r, st))"

subsection \<open>The input of a unit\<close>

text \<open>The lookup and clone \<open>submit\<close> makes for a buffer input, under the registry lock.\<close>

definition share_buffer :: "u64 \<Rightarrow> process \<times> Handle \<Rightarrow> (rstr + TaskPayload) \<times> process" where
  "share_buffer i st =
     (let (p, h) = st
      in case map_of (buffers h) i of
           None \<Rightarrow> (Inl (lit ''buffer id '' @ show_nat (unat i) @ lit '' not found''), p)
         | Some s \<Rightarrow> (Inr (Shared (slot_buf s)), arc_clone (slot_buf s) p))"

fun payload_bufs :: "TaskPayload \<Rightarrow> RawBuffer list" where
  "payload_bufs (Shared b) = [b]"
| "payload_bufs _ = []"

subsection \<open>The registry's invariant\<close>

text \<open>
  \<open>held\<close> lists every owner of a buffer: the registry's slots and the payloads \<open>us\<close> of the live units.
  Each names live memory large enough for it, the strong counts are the numbers of owners, and the live
  blocks other than those in \<open>other\<close> (not the registry's) are exactly the owned ones.
\<close>

definition held :: "Handle \<Rightarrow> TaskPayload list \<Rightarrow> RawBuffer list" where
  "held h us = map (slot_buf \<circ> snd) (buffers h) @ concat (map payload_bufs us)"

definition refs :: "RawBuffer list \<Rightarrow> nat \<Rightarrow> nat" where
  "refs bs q = length (filter (\<lambda>b. rb_ptr b = q) bs)"

definition live_buf :: "process \<Rightarrow> RawBuffer \<Rightarrow> bool" where
  "live_buf p b \<longleftrightarrow> rb_ptr b \<noteq> 0 \<and> (\<exists>bs. blocks (pmem p) (rb_ptr b) = Some bs \<and> rb_len b \<le> length bs)"

definition owner_inv :: "nat set \<Rightarrow> process \<Rightarrow> RawBuffer list \<Rightarrow> bool" where
  "owner_inv other p bs \<longleftrightarrow>
     (\<forall>b \<in> set bs. live_buf p b \<and> rb_ptr b \<notin> other)
     \<and> (\<forall>b \<in> set bs. \<forall>b' \<in> set bs. rb_ptr b = rb_ptr b' \<longrightarrow> b = b')
     \<and> (\<forall>q. arcs p q = refs bs q)
     \<and> (\<forall>q. blocks (pmem p) q \<noteq> None \<longleftrightarrow> q \<in> other \<or> q \<in> rb_ptr ` set bs)"

definition registry_inv :: "process \<Rightarrow> Handle \<Rightarrow> bool" where
  "registry_inv p h \<longleftrightarrow> idmap_ok (buffers h) \<and> 0 < unat (next_buffer_id p)
     \<and> (\<forall>i \<in> fst ` set (buffers h). 0 < unat i \<and> unat i < unat (next_buffer_id p))"

definition slots_disjoint :: "Handle \<Rightarrow> bool" where
  "slots_disjoint h \<longleftrightarrow> distinct (map rb_ptr (held h []))"

definition buf_inv :: "nat set \<Rightarrow> process \<Rightarrow> Handle \<Rightarrow> TaskPayload list \<Rightarrow> bool" where
  "buf_inv other p h us \<longleftrightarrow> registry_inv p h \<and> slots_disjoint h \<and> owner_inv other p (held h us)"

lemma inv_disjoint: "buf_inv other p h us \<Longrightarrow> slots_disjoint h"
  by (simp add: buf_inv_def)

lemma refs_mset: "refs bs q = size (filter_mset (\<lambda>b. rb_ptr b = q) (mset bs))"
  by (induction bs) (simp_all add: refs_def)

lemma refs_add: "mset bs' = add_mset b (mset bs) \<Longrightarrow> refs bs' q = refs bs q + (if rb_ptr b = q then 1 else 0)"
  by (simp add: refs_mset)

lemma refs_zero: "refs bs q = 0 \<longleftrightarrow> q \<notin> rb_ptr ` set bs"
  by (auto simp: refs_def filter_empty_conv)

lemma owner_inv_blocks:
  assumes "owner_inv other p bs"
  shows "blocks (pmem p) q \<noteq> None \<longleftrightarrow> q \<in> other \<or> q \<in> rb_ptr ` set bs"
  using assms by (simp only: owner_inv_def)

lemma owner_invI:
  assumes "\<And>x. x \<in> set bs \<Longrightarrow> live_buf p x \<and> rb_ptr x \<notin> other"
    and "\<And>x y. x \<in> set bs \<Longrightarrow> y \<in> set bs \<Longrightarrow> rb_ptr x = rb_ptr y \<Longrightarrow> x = y"
    and "\<And>q. arcs p q = refs bs q"
    and "\<And>q. blocks (pmem p) q \<noteq> None \<longleftrightarrow> q \<in> other \<or> q \<in> rb_ptr ` set bs"
  shows "owner_inv other p bs"
  unfolding owner_inv_def using assms by blast

lemma owner_invD:
  assumes "owner_inv other p bs" and "x \<in> set bs"
  shows "live_buf p x" "rb_ptr x \<notin> other" and "\<And>y. y \<in> set bs \<Longrightarrow> rb_ptr x = rb_ptr y \<Longrightarrow> x = y"
  using assms unfolding owner_inv_def by blast+

lemma owner_inv_refs: "owner_inv other p bs \<Longrightarrow> arcs p q = refs bs q"
  by (simp add: owner_inv_def)

lemma owner_inv_new:
  assumes inv: "owner_inv other p bs" and b: "rb_ptr b \<noteq> 0" "blocks (pmem p) (rb_ptr b) = None" "rb_len b \<le> length d"
    and p': "blocks (pmem p') = (blocks (pmem p))(rb_ptr b \<mapsto> d)" "arcs p' = (arcs p)(rb_ptr b := 1)"
    and bs': "mset bs' = add_mset b (mset bs)"
  shows "owner_inv other p' bs'"
proof -
  have st: "set bs' = insert b (set bs)" using arg_cong [OF bs', of set_mset] by simp
  have fresh: "rb_ptr b \<notin> rb_ptr ` set bs" "rb_ptr b \<notin> other"
    using owner_inv_blocks [OF inv, of "rb_ptr b"] b(2) by auto
  have z: "refs bs (rb_ptr b) = 0" using fresh by (simp add: refs_zero)
  have 1: "live_buf p' x \<and> rb_ptr x \<notin> other" if "x \<in> set bs'" for x
  proof (cases "x = b")
    case True
    with b p' fresh show ?thesis by (simp add: live_buf_def)
  next
    case False
    with that st have x: "x \<in> set bs" by simp
    then have "rb_ptr x \<noteq> rb_ptr b" using fresh(1) by (metis imageI)
    with owner_invD(1,2) [OF inv x] p' show ?thesis by (simp add: live_buf_def)
  qed
  have 2: "x = y" if "x \<in> set bs'" "y \<in> set bs'" "rb_ptr x = rb_ptr y" for x y
  proof -
    have "x \<in> set bs \<Longrightarrow> y \<in> set bs \<Longrightarrow> x = y" by (rule owner_invD(3) [OF inv _ _ that(3)])
    moreover have "x \<in> set bs \<Longrightarrow> rb_ptr x \<noteq> rb_ptr b" "y \<in> set bs \<Longrightarrow> rb_ptr y \<noteq> rb_ptr b" using fresh by (metis imageI)+
    ultimately show ?thesis using that(1,2) that(3) unfolding st insert_iff by metis
  qed
  have 3: "arcs p' q = refs bs' q" for q using refs_add [OF bs', of q] p' z owner_inv_refs [OF inv, of q] by simp
  have 4: "blocks (pmem p') q \<noteq> None \<longleftrightarrow> q \<in> other \<or> q \<in> rb_ptr ` set bs'" for q
    using owner_inv_blocks [OF inv, of q] p' st by auto
  show ?thesis using 1 2 3 4 by (rule owner_invI)
qed

lemma owner_inv_clone:
  assumes inv: "owner_inv other p bs" and b: "b \<in> set bs" and bs': "mset bs' = add_mset b (mset bs)"
  shows "owner_inv other (arc_clone b p) bs'"
proof -
  have st: "set bs' = set bs" using arg_cong [OF bs', of set_mset] b by auto
  have "arcs (arc_clone b p) q = refs bs' q" for q
    using refs_add [OF bs', of q] owner_inv_refs [OF inv] by (simp add: arc_clone_def)
  moreover have "live_buf (arc_clone b p) x = live_buf p x" "pmem (arc_clone b p) = pmem p" for x
    by (simp_all add: arc_clone_def live_buf_def)
  ultimately show ?thesis using owner_invD [OF inv] owner_inv_blocks [OF inv] st by (intro owner_invI) auto
qed

text \<open>The last owner's drop frees the block; any other leaves the memory as it is.\<close>

lemma arc_drop_last: "arcs p (rb_ptr b) = 1 \<Longrightarrow> rb_ptr b \<noteq> 0 \<Longrightarrow> blocks (pmem (arc_drop b p)) = (blocks (pmem p))(rb_ptr b := None)"
  by (simp add: arc_drop_def rb_drop_def)

lemma arc_drop_other: "arcs p (rb_ptr b) \<noteq> 1 \<Longrightarrow> blocks (pmem (arc_drop b p)) = blocks (pmem p)"
  by (simp add: arc_drop_def)

lemma arc_drop_arcs: "arcs (arc_drop b p) q = (if q = rb_ptr b then arcs p q - 1 else arcs p q)"
  by (simp add: arc_drop_def)

lemma owner_inv_drop:
  assumes inv: "owner_inv other p bs" and bs': "mset bs = add_mset b (mset bs')"
  shows "owner_inv other (arc_drop b p) bs'"
proof -
  have st: "set bs = insert b (set bs')" using arg_cong [OF bs', of set_mset] by simp
  have ar: "arcs p q = refs bs' q + (if rb_ptr b = q then 1 else 0)" for q
    using owner_inv_refs [OF inv] refs_add [OF bs'] by simp
  have lb: "live_buf p x" "rb_ptr x \<notin> other" if "x \<in> set bs" for x using owner_invD [OF inv that] by auto
  have inj: "x = y" if "x \<in> set bs'" "y \<in> set bs'" "rb_ptr x = rb_ptr y" for x y
    using owner_invD(3) [OF inv] that st by auto
  have arcs': "arcs (arc_drop b p) q = refs bs' q" for q
    using ar [of q] by (cases "q = rb_ptr b") (auto simp: arc_drop_arcs)
  have nz: "rb_ptr b \<noteq> 0" using lb(1) [of b] st by (simp add: live_buf_def)
  have bl: "blocks (pmem (arc_drop b p)) q \<noteq> None \<longleftrightarrow> q \<in> other \<or> q \<in> rb_ptr ` set bs'" for q
  proof (cases "arcs p (rb_ptr b) = 1")
    case True
    then have "rb_ptr b \<notin> rb_ptr ` set bs'" using ar [of "rb_ptr b"] by (simp flip: refs_zero)
    with owner_inv_blocks [OF inv, of q] lb(2) [of b] st True show ?thesis by (auto simp: arc_drop_last nz)
  next
    case False
    then have "rb_ptr b \<in> rb_ptr ` set bs'" using ar [of "rb_ptr b"] refs_zero [of bs' "rb_ptr b"] by auto
    with owner_inv_blocks [OF inv, of q] st False show ?thesis by (simp add: arc_drop_other) blast
  qed
  have live: "live_buf (arc_drop b p) x" if "x \<in> set bs'" for x
  proof -
    from that st have "live_buf p x" by (auto intro: lb)
    moreover have "arcs p (rb_ptr b) = 1 \<Longrightarrow> rb_ptr x \<noteq> rb_ptr b"
      using that ar [of "rb_ptr b"] refs_zero [of bs' "rb_ptr b"] by (auto simp: image_iff)
    ultimately show ?thesis by (cases "arcs p (rb_ptr b) = 1") (auto simp: live_buf_def arc_drop_last nz arc_drop_other)
  qed
  show ?thesis using live lb(2) st inj arcs' bl by (intro owner_invI) auto
qed

lemma owner_inv_frame:
  assumes "owner_inv other p bs" and "blocks (pmem p') = blocks (pmem p)" "arcs p' = arcs p" "mset bs' = mset bs"
  shows "owner_inv other p' bs'"
  using assms mset_eq_setD [OF assms(4)] by (simp add: owner_inv_def live_buf_def refs_mset)

subsection \<open>Every operation keeps it\<close>

lemma update_fresh: "k \<notin> fst ` set al \<Longrightarrow> AList.update k v al = al @ [(k, v)]"
  by (induction al) auto

lemma held_update_fresh:
  "i \<notin> fst ` set (buffers h) \<Longrightarrow>
     mset (held (h\<lparr>buffers := AList.update i s (buffers h)\<rparr>) us) = add_mset (slot_buf s) (mset (held h us))"
  by (simp add: held_def update_fresh)

lemma delete_absent: "k \<notin> fst ` set al \<Longrightarrow> AList.delete k al = al"
  by (induction al) auto

lemma delete_update_same: "AList.delete k (AList.update k v al) = AList.delete k al"
  by (induction al) auto

lemma delete_split:
  assumes "idmap_ok al" and "map_of al i = Some v"
  shows "mset al = add_mset (i, v) (mset (AList.delete i al))"
  using assms
proof (induction al)
  case (Cons x al)
  obtain k u where x: "x = (k, u)" by force
  show ?case
  proof (cases "k = i")
    case True
    with Cons.prems x have "AList.delete i al = al" by (intro delete_absent) (auto simp: idmap_ok_def)
    with True Cons.prems x show ?thesis by simp
  next
    case False
    with Cons x show ?thesis by (simp add: idmap_ok_def)
  qed
qed simp

lemma held_delete:
  assumes "idmap_ok (buffers h)" and "map_of (buffers h) i = Some s"
  shows "mset (held h us) = add_mset (slot_buf s) (mset (held (h\<lparr>buffers := AList.delete i (buffers h)\<rparr>) us))"
proof -
  have "image_mset (slot_buf \<circ> snd) (mset (buffers h))
      = add_mset (slot_buf s) (image_mset (slot_buf \<circ> snd) (mset (AList.delete i (buffers h))))"
    using delete_split [OF assms] by simp
  then show ?thesis by (simp add: held_def)
qed

lemma held_claim:
  assumes "idmap_ok (buffers h)" and "map_of (buffers h) i = Some s" and "slot_buf s' = slot_buf s"
  shows "mset (held (h\<lparr>buffers := AList.update i s' (buffers h)\<rparr>) us) = mset (held h us)"
proof -
  have ok: "idmap_ok (AList.update i s' (buffers h))" using assms(1) by (rule hm.ok_put)
  have at: "map_of (AList.update i s' (buffers h)) i = Some s'" by (simp add: update_conv')
  show ?thesis
    using held_delete [OF assms(1,2), of us]
      held_delete [of "h\<lparr>buffers := AList.update i s' (buffers h)\<rparr>" i s' us] ok at assms(3)
    by (simp add: delete_update_same)
qed

lemma slots_disjoint_same: "mset (held h' []) = mset (held h []) \<Longrightarrow> slots_disjoint h \<Longrightarrow> slots_disjoint h'"
  unfolding slots_disjoint_def by (metis mset_eq_imp_distinct_iff mset_map)

lemma slots_disjoint_cons:
  assumes "mset (held h' []) = add_mset b (mset (held h []))"
  shows "slots_disjoint h' \<longleftrightarrow> slots_disjoint h \<and> rb_ptr b \<notin> rb_ptr ` set (held h [])"
proof -
  have "mset (map rb_ptr (held h' [])) = mset (map rb_ptr (b # held h []))" using assms by simp
  from mset_eq_imp_distinct_iff [OF this] show ?thesis by (auto simp: slots_disjoint_def)
qed

lemma slots_disjoint_drop: "slots_disjoint h \<Longrightarrow> mset (held h []) = add_mset b (mset (held h' [])) \<Longrightarrow> slots_disjoint h'"
  using slots_disjoint_cons [of h b h'] by simp

lemma held_units: "set (held h []) \<subseteq> set (held h us)"
  by (auto simp: held_def)

text \<open>\<open>register\<close> with a builder that makes a buffer of fresh memory, or with one that fails and leaves
  memory alone.\<close>

definition builds :: "(process \<Rightarrow> (rstr + BufferSlot) \<times> process) \<Rightarrow> bool" where
  "builds build \<longleftrightarrow>
     (\<forall>p r p1. build p = (r, p1) \<longrightarrow>
        next_buffer_id p1 = next_buffer_id p
        \<and> (case r of
             Inl e \<Rightarrow> blocks (pmem p1) = blocks (pmem p) \<and> arcs p1 = arcs p
           | Inr s \<Rightarrow> rb_ptr (slot_buf s) \<noteq> 0 \<and> blocks (pmem p) (rb_ptr (slot_buf s)) = None
               \<and> arcs p1 = (arcs p)(rb_ptr (slot_buf s) := 1)
               \<and> (\<exists>d. rb_len (slot_buf s) \<le> length d
                      \<and> blocks (pmem p1) = (blocks (pmem p))(rb_ptr (slot_buf s) \<mapsto> d))))"

lemma build_slot_builds:
  assumes "\<And>m b m'. mk m = (Inr b, m') \<Longrightarrow> rb_ptr b \<noteq> 0 \<and> blocks m (rb_ptr b) = None
      \<and> (\<exists>d. rb_len b \<le> length d \<and> blocks m' = (blocks m)(rb_ptr b \<mapsto> d))"
    and "\<And>m e m'. mk m = (Inl e, m') \<Longrightarrow> m' = m"
  shows "builds (build_slot mk claimed ch)"
  unfolding builds_def
proof (intro allI impI)
  fix p r p1 assume r: "build_slot mk claimed ch p = (r, p1)"
  obtain x m where m: "mk (pmem p) = (x, m)" by force
  show "next_buffer_id p1 = next_buffer_id p
        \<and> (case r of
             Inl e \<Rightarrow> blocks (pmem p1) = blocks (pmem p) \<and> arcs p1 = arcs p
           | Inr s \<Rightarrow> rb_ptr (slot_buf s) \<noteq> 0 \<and> blocks (pmem p) (rb_ptr (slot_buf s)) = None
               \<and> arcs p1 = (arcs p)(rb_ptr (slot_buf s) := 1)
               \<and> (\<exists>d. rb_len (slot_buf s) \<le> length d
                      \<and> blocks (pmem p1) = (blocks (pmem p))(rb_ptr (slot_buf s) \<mapsto> d)))"
  proof (cases x)
    case (Inl e)
    with m assms(2) [of "pmem p"] r show ?thesis by (auto simp: build_slot_def)
  next
    case (Inr b)
    with m assms(1) [of "pmem p" b m] r show ?thesis by (auto simp: build_slot_def BufferSlot_new_def arc_new_def)
  qed
qed

lemma rb_allocate_builds:
  assumes ok: "sys_alloc_ok sa"
  shows "builds (build_slot (rb_allocate sa len) claimed ch)"
proof (rule build_slot_builds)
  fix m b m' assume a: "rb_allocate sa len m = (Inr b, m')"
  note i = allocate_with_Inr [OF a [unfolded rb_allocate_def]]
  then have "blocks m' = (blocks m)(rb_ptr b \<mapsto> replicate len 0)" "rb_len b \<le> length (replicate len (0 :: u8))" by auto
  with ok i show "rb_ptr b \<noteq> 0 \<and> blocks m (rb_ptr b) = None
      \<and> (\<exists>d. rb_len b \<le> length d \<and> blocks m' = (blocks m)(rb_ptr b \<mapsto> d))"
    unfolding sys_alloc_ok_def by blast
qed (auto simp: rb_allocate_def dest: allocate_with_Inl)

lemma rb_from_bytes_builds:
  assumes ok: "sys_alloc_ok sa"
  shows "builds (build_slot (rb_from_bytes sa data) claimed ch)"
proof (rule build_slot_builds)
  fix m b m' assume a: "rb_from_bytes sa data m = (Inr b, m')"
  note i = rb_from_bytes_Inr [OF ok a]
  then have "blocks m' = (blocks m)(rb_ptr b \<mapsto> data)" "rb_len b \<le> length data" by auto
  with ok i show "rb_ptr b \<noteq> 0 \<and> blocks m (rb_ptr b) = None
      \<and> (\<exists>d. rb_len b \<le> length d \<and> blocks m' = (blocks m)(rb_ptr b \<mapsto> d))"
    unfolding sys_alloc_ok_def by blast
qed (auto dest: rb_from_bytes_Inl)

lemma registry_inv_fresh: "registry_inv p h \<Longrightarrow> next_buffer_id p \<notin> fst ` set (buffers h)"
  by (auto simp: registry_inv_def)

lemma registry_inv_next:
  assumes "registry_inv p h" and "unat (next_buffer_id p1) \<ge> unat (next_buffer_id p)"
  shows "registry_inv p1 h"
  using assms by (fastforce simp: registry_inv_def)

lemma registry_inv_register:
  assumes inv: "registry_inv p h" and r: "reserve_id (next_buffer_id p) = (Inr i, c)" and p1: "next_buffer_id p1 = c"
  shows "registry_inv p1 (h\<lparr>buffers := AList.update i s (buffers h)\<rparr>)" "i \<notin> fst ` set (buffers h)"
proof -
  note c = reserve_id_Inr [OF r]
  then show i: "i \<notin> fst ` set (buffers h)" using registry_inv_fresh [OF inv] by simp
  have "idmap_ok (AList.update i s (buffers h))" using inv by (auto simp: registry_inv_def intro: hm.ok_put)
  moreover have "0 < unat j \<and> unat j < unat c" if "j \<in> fst ` set (buffers h) \<or> j = i" for j
    using that inv c by (auto simp: registry_inv_def intro: less_SucI)
  ultimately show "registry_inv p1 (h\<lparr>buffers := AList.update i s (buffers h)\<rparr>)"
    using p1 c update_fresh [OF i, of s] by (auto simp: registry_inv_def)
qed

lemma register_inv:
  assumes inv: "buf_inv other p h us" and b: "builds build" and run: "register build id (p, h) = (r, p', h')"
  shows "buf_inv other p' h' us"
proof -
  obtain x c where r: "reserve_id (next_buffer_id p) = (x, c)" by force
  show ?thesis
  proof (cases "h_closed h \<or> (\<exists>e. x = Inl e)")
    case True
    with inv run r show ?thesis by (auto simp: register_def split: if_splits)
  next
    case False
    then obtain i where x: "x = Inr i" "\<not> h_closed h" by (cases x) auto
    note c = reserve_id_Inr [OF r [unfolded x]]
    obtain y p1 where y: "build (p\<lparr>next_buffer_id := c\<rparr>) = (y, p1)" by force
    note bb = b [unfolded builds_def, rule_format, OF y]
    have rg: "registry_inv p h" and ow: "owner_inv other p (held h us)" using inv by (auto simp: buf_inv_def)
    show ?thesis
    proof (cases y)
      case (Inl e)
      with run r x y have e: "p' = p1" "h' = h" by (auto simp: register_def)
      have "registry_inv p1 h" using registry_inv_next [OF rg] bb c by simp
      moreover have "owner_inv other p1 (held h us)" using bb Inl by (intro owner_inv_frame [OF ow]) auto
      ultimately show ?thesis using e inv_disjoint [OF inv] by (simp add: buf_inv_def)
    next
      case (Inr s)
      with run r x y have e: "p' = p1" "h' = h\<lparr>buffers := AList.update i s (buffers h)\<rparr>" by (auto simp: register_def)
      have n: "next_buffer_id p1 = c" using bb by simp
      note rr = registry_inv_register [OF rg r [unfolded x(1)] n]
      from bb Inr obtain d where "rb_len (slot_buf s) \<le> length d"
        "blocks (pmem p1) = (blocks (pmem p))(rb_ptr (slot_buf s) \<mapsto> d)" by auto
      with bb Inr have "owner_inv other p1 (held h' us)"
        unfolding e using held_update_fresh [OF rr(2)] by (intro owner_inv_new [OF ow]) auto
      moreover have "rb_ptr (slot_buf s) \<notin> rb_ptr ` set (held h us)"
        using owner_inv_blocks [OF ow, of "rb_ptr (slot_buf s)"] bb Inr by auto
      then have "slots_disjoint h'"
        using slots_disjoint_cons [OF held_update_fresh [OF rr(2), of s]] inv_disjoint [OF inv] held_units [of h us]
        unfolding e by blast
      ultimately show ?thesis using rr(1) e by (simp add: buf_inv_def)
    qed
  qed
qed

lemma allocate_buffer_inv:
  assumes "sys_alloc_ok sa" and "buf_inv other p h us" and "allocate_buffer sa len ch (p, h) = (r, p', h')"
  shows "buf_inv other p' h' us"
proof (cases "h_poisoned h")
  case True
  with assms show ?thesis by (simp add: allocate_buffer_def)
next
  case False
  with assms(3) have "register (build_slot (rb_allocate sa len) False ch) id (p, h) = (r, p', h')"
    by (simp add: allocate_buffer_def)
  then show ?thesis by (rule register_inv [OF assms(2) rb_allocate_builds [OF assms(1)]])
qed

lemma buf_from_bytes_inv:
  assumes "sys_alloc_ok sa" and "buf_inv other p h us" and "buf_from_bytes sa data (p, h) = (r, p', h')"
  shows "buf_inv other p' h' us"
  using register_inv [OF assms(2) rb_from_bytes_builds [OF assms(1)]] assms(3) by (simp add: buf_from_bytes_def)

lemma materialize_result_inv:
  assumes "sys_alloc_ok sa" and "buf_inv other p h us" and "materialize_result sa r (p, h) = (r', p', h')"
  shows "buf_inv other p' h' us"
  using assms(3) assms(2) buf_from_bytes_inv [OF assms(1,2)]
  by (auto simp: materialize_result_def split: JobResult.splits if_splits prod.splits sum.splits)

lemma buf_free_inv:
  assumes inv: "buf_inv other p h us" and run: "buf_free i (p, h) = (p', h')"
  shows "buf_inv other p' h' us"
proof (cases "map_of (buffers h) i")
  case None
  with inv run show ?thesis by (simp add: buf_free_def)
next
  case (Some s)
  have rg: "registry_inv p h" and ow: "owner_inv other p (held h us)" using inv by (auto simp: buf_inv_def)
  have e: "p' = arc_drop (slot_buf s) p" "h' = h\<lparr>buffers := AList.delete i (buffers h)\<rparr>"
    using run Some by (auto simp: buf_free_def)
  have "owner_inv other p' (held h' us)"
    unfolding e using held_delete [OF _ Some] rg by (intro owner_inv_drop [OF ow]) (simp add: registry_inv_def)
  moreover have sub: "fst ` set (AList.delete i (buffers h)) \<subseteq> fst ` set (buffers h)"
    using arg_cong [OF delete_keys [of i "buffers h"], of set] by auto
  have "\<forall>j \<in> fst ` set (AList.delete i (buffers h)). 0 < unat j \<and> unat j < unat (next_buffer_id p)"
    using rg sub unfolding registry_inv_def by blast
  then have "registry_inv p' h'"
    using rg unfolding e registry_inv_def by (simp add: arc_drop_def idmap_ok_def distinct_delete)
  moreover have "slots_disjoint h'"
    using slots_disjoint_drop [OF inv_disjoint [OF inv]] held_delete [OF _ Some, of "[]"] rg by (simp add: e registry_inv_def)
  ultimately show ?thesis by (simp add: buf_inv_def)
qed

lemma share_buffer_inv:
  assumes inv: "buf_inv other p h us" and run: "share_buffer i (p, h) = (Inr u, p')"
  shows "buf_inv other p' h (u # us)"
proof -
  from run obtain s where s: "map_of (buffers h) i = Some s" and u: "u = Shared (slot_buf s)"
    and p': "p' = arc_clone (slot_buf s) p" by (auto simp: share_buffer_def split: option.splits)
  have ow: "owner_inv other p (held h us)" and rg: "registry_inv p h" using inv by (auto simp: buf_inv_def)
  have "slot_buf s \<in> set (held h us)" using map_of_SomeD [OF s] by (force simp: held_def)
  then have "owner_inv other p' (held h (u # us))"
    unfolding p' by (intro owner_inv_clone [OF ow]) (simp_all add: held_def u)
  moreover have "registry_inv p' h" using rg by (simp add: registry_inv_def p' arc_clone_def)
  ultimately show ?thesis using inv_disjoint [OF inv] by (simp add: buf_inv_def)
qed

lemma buf_inv_payload_free: "payload_bufs u = [] \<Longrightarrow> buf_inv other p h (u # us) = buf_inv other p h us"
  by (simp add: buf_inv_def held_def)

lemma buf_inv_mset:
  assumes "mset us' = mset us" and "buf_inv other p h us"
  shows "buf_inv other p h us'"
proof -
  have m: "mset (concat (map payload_bufs vs)) = sum_mset (image_mset (mset \<circ> payload_bufs) (mset vs))" for vs
    by (induction vs) simp_all
  have "mset (held h us') = mset (held h us)"
    using assms(1) by (simp only: held_def mset_append m)
  with assms(2) show ?thesis by (auto simp: buf_inv_def intro: owner_inv_frame)
qed

lemma drop_payload_inv:
  assumes "buf_inv other p h (u # us)"
  shows "buf_inv other (drop_payload u p) h us"
proof (cases u)
  case (Shared b)
  have ow: "owner_inv other p (held h (u # us))" and rg: "registry_inv p h" using assms by (auto simp: buf_inv_def)
  have "owner_inv other (arc_drop b p) (held h us)"
    by (rule owner_inv_drop [OF ow]) (simp add: held_def Shared)
  moreover have "registry_inv (arc_drop b p) h" using rg by (simp add: registry_inv_def arc_drop_def)
  ultimately show ?thesis using inv_disjoint [OF assms] by (simp add: buf_inv_def Shared)
qed (use assms in \<open>auto simp: buf_inv_payload_free\<close>)

lemma claim_output_inv:
  assumes inv: "buf_inv other p h us" and run: "claim_output i (p, h) = (r, p', h')"
  shows "buf_inv other p' h' us"
proof (cases "h' = h")
  case True
  then show ?thesis using inv run by (auto simp: claim_output_def Let_def split: option.splits if_splits)
next
  case False
  then obtain s where s: "map_of (buffers h) i = Some s" and p': "p' = p"
    and h': "h' = h\<lparr>buffers := AList.update i (s\<lparr>output_claimed := True\<rparr>) (buffers h)\<rparr>"
    using run by (auto simp: claim_output_def Let_def split: option.splits if_splits)
  have ow: "owner_inv other p (held h us)" and rg: "registry_inv p h" using inv by (auto simp: buf_inv_def)
  have ok: "idmap_ok (buffers h)" using rg by (simp add: registry_inv_def)
  have "owner_inv other p (held h' us)"
    using held_claim [OF ok s] by (intro owner_inv_frame [OF ow]) (simp_all add: h')
  moreover have "dom (map_of (AList.update i (s\<lparr>output_claimed := True\<rparr>) (buffers h))) = dom (map_of (buffers h))"
    using s by (auto simp: update_conv')
  then have "registry_inv p h'" using rg hm.ok_put [OF ok]
    by (simp add: registry_inv_def h' dom_map_of_conv_image_fst)
  moreover have "slots_disjoint h'"
    using slots_disjoint_same [OF _ inv_disjoint [OF inv]] held_claim [OF ok s, of "s\<lparr>output_claimed := True\<rparr>" "[]"]
    by (simp add: h')
  ultimately show ?thesis by (simp add: buf_inv_def p')
qed

subsection \<open>Sequences of operations\<close>

text \<open>
  One operation on the registry: an allocation, a result promoted to a buffer, a free, the submission and the drop
  of a unit that reads a buffer, an engine returning a buffer as its output. The state carries the payloads of
  the live units and the ids claimed as outputs so far.
\<close>

datatype buf_op = BAlloc nat bool | BFrom bytes | BFree u64 | BShare u64 | BDrop nat | BClaim u64

type_synonym buf_state = "process \<times> Handle \<times> TaskPayload list \<times> u64 list"

fun buf_op_run :: "sys_alloc \<Rightarrow> buf_op \<Rightarrow> buf_state \<Rightarrow> buf_state" where
  "buf_op_run sa (BAlloc len ch) (p, h, us, cs) = (let (p1, h1) = snd (allocate_buffer sa len ch (p, h)) in (p1, h1, us, cs))"
| "buf_op_run sa (BFrom data) (p, h, us, cs) = (let (p1, h1) = snd (buf_from_bytes sa data (p, h)) in (p1, h1, us, cs))"
| "buf_op_run sa (BFree i) (p, h, us, cs) = (let (p1, h1) = buf_free i (p, h) in (p1, h1, us, cs))"
| "buf_op_run sa (BShare i) (p, h, us, cs) =
     (case share_buffer i (p, h) of (Inr u, p1) \<Rightarrow> (p1, h, u # us, cs) | (Inl _, p1) \<Rightarrow> (p1, h, us, cs))"
| "buf_op_run sa (BDrop k) (p, h, us, cs) =
     (if k < length us then (drop_payload (us ! k) p, h, take k us @ drop (Suc k) us, cs) else (p, h, us, cs))"
| "buf_op_run sa (BClaim i) (p, h, us, cs) =
     (case claim_output i (p, h) of (Inr _, p1, h1) \<Rightarrow> (p1, h1, us, i # cs) | (Inl _, p1, h1) \<Rightarrow> (p1, h1, us, cs))"

definition buf_ops_run :: "sys_alloc \<Rightarrow> buf_op list \<Rightarrow> buf_state \<Rightarrow> buf_state" where
  "buf_ops_run sa ops st = fold (buf_op_run sa) ops st"

text \<open>Claimed ids: each once, and while it is registered its slot says so.\<close>

definition claims_inv :: "process \<Rightarrow> Handle \<Rightarrow> u64 list \<Rightarrow> bool" where
  "claims_inv p h cs \<longleftrightarrow> distinct cs \<and> (\<forall>i \<in> set cs. unat i < unat (next_buffer_id p)
     \<and> (\<forall>s. map_of (buffers h) i = Some s \<longrightarrow> output_claimed s))"

lemma share_buffer_Inl: "share_buffer i (p, h) = (Inl e, p') \<Longrightarrow> p' = p"
  by (auto simp: share_buffer_def split: option.splits)

lemma buf_op_run_inv:
  assumes ok: "sys_alloc_ok sa" and inv: "buf_inv other p h us" and run: "buf_op_run sa op (p, h, us, cs) = (p', h', us', cs')"
  shows "buf_inv other p' h' us'"
proof (cases op)
  case (BAlloc len ch)
  then show ?thesis using run allocate_buffer_inv [OF ok inv, of len ch] by (cases "allocate_buffer sa len ch (p, h)") auto
next
  case (BFrom data)
  then show ?thesis using run buf_from_bytes_inv [OF ok inv, of data] by (cases "buf_from_bytes sa data (p, h)") auto
next
  case (BFree i)
  then show ?thesis using run buf_free_inv [OF inv] by (auto split: prod.splits)
next
  case (BShare i)
  then show ?thesis using run inv share_buffer_inv [OF inv] by (auto split: prod.splits sum.splits dest!: share_buffer_Inl)
next
  case (BDrop k)
  show ?thesis
  proof (cases "k < length us")
    case True
    have "mset us = mset (us ! k # take k us @ drop (Suc k) us)"
      using arg_cong [OF id_take_nth_drop [OF True], of mset] by simp
    from buf_inv_mset [OF this [symmetric] inv] drop_payload_inv True BDrop run show ?thesis by auto
  qed (use BDrop run inv in auto)
next
  case (BClaim i)
  then show ?thesis using run claim_output_inv [OF inv] by (auto split: prod.splits sum.splits)
qed

text \<open>What the operations leave alone of ids handed out before.\<close>

definition ids_kept :: "process \<times> Handle \<Rightarrow> process \<times> Handle \<Rightarrow> bool" where
  "ids_kept st st' \<longleftrightarrow> unat (next_buffer_id (fst st)) \<le> unat (next_buffer_id (fst st'))
     \<and> (\<forall>j. unat j < unat (next_buffer_id (fst st)) \<longrightarrow> map_of (buffers (snd st')) j = map_of (buffers (snd st)) j)"

lemma claims_inv_kept: "ids_kept (p, h) (p', h') \<Longrightarrow> claims_inv p h cs \<Longrightarrow> claims_inv p' h' cs"
  by (fastforce simp: ids_kept_def claims_inv_def)

lemma register_kept:
  assumes b: "builds build" and run: "register build id (p, h) = (r, p', h')"
  shows "ids_kept (p, h) (p', h')"
proof -
  obtain x c where r: "reserve_id (next_buffer_id p) = (x, c)" by force
  show ?thesis
  proof (cases "h_closed h \<or> (\<exists>e. x = Inl e)")
    case True
    with run r show ?thesis by (auto simp: register_def ids_kept_def split: if_splits)
  next
    case False
    then obtain i where x: "x = Inr i" "\<not> h_closed h" by (cases x) auto
    note c = reserve_id_Inr [OF r [unfolded x]]
    obtain y p1 where y: "build (p\<lparr>next_buffer_id := c\<rparr>) = (y, p1)" by force
    from b [unfolded builds_def, rule_format, OF y] run r x y c show ?thesis
      by (cases y) (auto simp: register_def ids_kept_def update_conv')
  qed
qed

lemma allocate_buffer_kept:
  assumes "sys_alloc_ok sa" and "allocate_buffer sa len ch (p, h) = (r, p', h')"
  shows "ids_kept (p, h) (p', h')"
  using assms(2) register_kept [OF rb_allocate_builds [OF assms(1)]]
  by (auto simp: allocate_buffer_def ids_kept_def split: if_splits)

lemma buf_from_bytes_kept:
  assumes "sys_alloc_ok sa" and "buf_from_bytes sa data (p, h) = (r, p', h')"
  shows "ids_kept (p, h) (p', h')"
  using assms(2) register_kept [OF rb_from_bytes_builds [OF assms(1)]] by (simp add: buf_from_bytes_def)

lemma drop_payload_next [simp]: "next_buffer_id (drop_payload u p) = next_buffer_id p"
  by (cases u) (simp_all add: arc_drop_def)

lemma buf_op_run_claims:
  assumes ok: "sys_alloc_ok sa" and inv: "registry_inv p h" "claims_inv p h cs"
    and run: "buf_op_run sa op (p, h, us, cs) = (p', h', us', cs')"
  shows "claims_inv p' h' cs'"
proof (cases op)
  case (BAlloc len ch)
  then show ?thesis using run inv(2) claims_inv_kept [OF allocate_buffer_kept [OF ok, of len ch]]
    by (cases "allocate_buffer sa len ch (p, h)") auto
next
  case (BFrom data)
  then show ?thesis using run inv(2) claims_inv_kept [OF buf_from_bytes_kept [OF ok, of data]]
    by (cases "buf_from_bytes sa data (p, h)") auto
next
  case (BFree i)
  then show ?thesis using run inv(2)
    by (auto simp: buf_free_def claims_inv_def arc_drop_def delete_conv' split: prod.splits option.splits if_splits)
next
  case (BShare i)
  then show ?thesis using run inv(2)
    by (auto simp: share_buffer_def claims_inv_def arc_clone_def split: option.splits)
next
  case (BDrop k)
  then show ?thesis using run inv(2) by (auto simp: claims_inv_def split: if_splits)
next
  case (BClaim i)
  show ?thesis
  proof (cases "map_of (buffers h) i")
    case (Some s)
    then have "unat i < unat (next_buffer_id p)" using inv(1) by (force simp: registry_inv_def dest: map_of_SomeD)
    with Some BClaim run inv(2) show ?thesis
      by (auto simp: claim_output_def claims_inv_def update_conv' Let_def split: if_splits)
  qed (use BClaim run inv(2) in \<open>auto simp: claim_output_def\<close>)
qed

lemma buf_ops_run_inv:
  assumes "sys_alloc_ok sa" and "buf_inv other p h us" "claims_inv p h cs"
    and "buf_ops_run sa ops (p, h, us, cs) = (p', h', us', cs')"
  shows "buf_inv other p' h' us' \<and> claims_inv p' h' cs'"
  using assms(2-)
proof (induction ops arbitrary: p h us cs)
  case (Cons op ops)
  obtain p1 h1 us1 cs1 where r: "buf_op_run sa op (p, h, us, cs) = (p1, h1, us1, cs1)" by (metis prod_cases4)
  have "registry_inv p h" using Cons.prems(1) by (simp add: buf_inv_def)
  from Cons.IH [OF buf_op_run_inv [OF assms(1) Cons.prems(1) r] buf_op_run_claims [OF assms(1) this Cons.prems(2) r]]
    Cons.prems(3) r show ?case by (simp add: buf_ops_run_def)
qed (simp add: buf_ops_run_def)

lemma buf_inv_init: "buf_inv {} process_init (Handle_new n inline) []" "claims_inv process_init (Handle_new n inline) []"
  by (auto simp: buf_inv_def registry_inv_def slots_disjoint_def owner_inv_def held_def refs_def claims_inv_def
      process_init_def Handle_new_def idmap_ok_def)

text \<open>The slot a promoted result gets.\<close>

lemma buf_from_bytes_slot:
  assumes ok: "sys_alloc_ok sa" and inv: "registry_inv p h" and run: "buf_from_bytes sa d (p, h) = (Inr (i, q), p', h')"
  shows "map_of (buffers h) i = None
    \<and> (\<exists>s. map_of (buffers h') i = Some s \<and> output_claimed s \<and> rb_as_slice (pmem p') (slot_buf s) = d)"
proof -
  obtain x c where r: "reserve_id (next_buffer_id p) = (x, c)" by force
  from run r have x: "x = Inr i" "\<not> h_closed h"
    by (auto simp: buf_from_bytes_def register_def split: if_splits sum.splits prod.splits)
  have i: "i \<notin> fst ` set (buffers h)" using registry_inv_fresh [OF inv] reserve_id_Inr [OF r [unfolded x(1)]] by simp
  obtain y m where y: "rb_from_bytes sa d (pmem p) = (y, m)" by force
  from run r x y obtain b where b: "y = Inr b" "p' = arc_new b (p\<lparr>next_buffer_id := c, pmem := m\<rparr>)"
    "h' = h\<lparr>buffers := AList.update i \<lparr>slot_buf = b, output_claimed = True, caller_held = False\<rparr> (buffers h)\<rparr>"
    by (cases y) (auto simp: buf_from_bytes_def register_def build_slot_def BufferSlot_new_def)
  from rb_from_bytes_Inr [OF ok y [unfolded b(1)]] b(2,3) i show ?thesis
    by (auto simp: update_conv' rb_as_slice_def arc_new_def map_of_eq_None_iff)
qed

subsection \<open>Adopting an engine's vector\<close>

text \<open>A vector of the engine's: its block is live, outside the registry, and holds its elements.\<close>

definition vec_ok :: "nat set \<Rightarrow> process \<Rightarrow> buffer_vec \<Rightarrow> bool" where
  "vec_ok other p v \<longleftrightarrow> bv_ptr v \<in> other \<and> bv_ptr v \<noteq> 0 \<and> 0 < bv_cap v \<and> bv_len v \<le> bv_cap v
     \<and> (\<exists>d. blocks (pmem p) (bv_ptr v) = Some d \<and> bv_len v \<le> length d)"

lemma owner_inv_forget:
  assumes inv: "owner_inv other p bs" and q: "q \<in> other"
    and p': "blocks (pmem p') = (blocks (pmem p))(q := None)" "arcs p' = arcs p"
  shows "owner_inv (other - {q}) p' bs"
proof (rule owner_invI)
  fix x assume x: "x \<in> set bs"
  then have "rb_ptr x \<noteq> q" using owner_invD(2) [OF inv x] q by auto
  then show "live_buf p' x \<and> rb_ptr x \<notin> other - {q}" using owner_invD(1,2) [OF inv x] p' by (auto simp: live_buf_def)
next
  fix r show "blocks (pmem p') r \<noteq> None \<longleftrightarrow> r \<in> other - {q} \<or> r \<in> rb_ptr ` set bs"
    using owner_inv_blocks [OF inv, of r] p' owner_invD(2) [OF inv] q by (cases "r = q") auto
qed (use owner_invD(3) [OF inv] owner_inv_refs [OF inv] p' in auto)

lemma bv_drop_inv:
  assumes "buf_inv other p h us" and "vec_ok other p v"
  shows "buf_inv (other - {bv_ptr v}) (bv_drop v p) h us"
  using assms owner_inv_forget [of other p "held h us" "bv_ptr v" "bv_drop v p"]
  by (auto simp: buf_inv_def vec_ok_def bv_drop_def registry_inv_def)

text \<open>The slot \<open>register\<close> adds, given what its builder makes of the process.\<close>

lemma register_cases:
  assumes "register build unused (p, h) = (r, p', h')"
  obtains e where "r = Inl e" "p' = unused p" "h' = h"
  | c i e where "r = Inl e" "h' = h" "reserve_id (next_buffer_id p) = (Inr i, c)" "build (p\<lparr>next_buffer_id := c\<rparr>) = (Inl e, p')"
  | c i s where "r = Inr (i, rb_ptr (slot_buf s))" "reserve_id (next_buffer_id p) = (Inr i, c)"
      "build (p\<lparr>next_buffer_id := c\<rparr>) = (Inr s, p')" "h' = h\<lparr>buffers := AList.update i s (buffers h)\<rparr>"
  using assms by (fastforce simp: register_def split: if_splits sum.splits prod.splits)

lemma rb_adopt_Inr: "rb_adopt v = Inr b \<Longrightarrow> rb_ptr b = bv_ptr v \<and> rb_len b = bv_len v"
  by (auto simp: rb_adopt_def split: if_splits option.splits)

lemma rb_adopt_Inl: "rb_adopt v = Inl w \<Longrightarrow> w = v"
  by (auto simp: rb_adopt_def split: if_splits option.splits)

lemma buf_inv_register:
  assumes rg: "registry_inv p h" and dj: "slots_disjoint h" and id: "reserve_id (next_buffer_id p) = (Inr i, next_buffer_id p')"
    and ow: "owner_inv other p1 (held h us)" and b: "rb_ptr (slot_buf s) \<noteq> 0"
      "blocks (pmem p1) (rb_ptr (slot_buf s)) = None" "rb_len (slot_buf s) \<le> length d"
    and p': "blocks (pmem p') = (blocks (pmem p1))(rb_ptr (slot_buf s) \<mapsto> d)"
      "arcs p' = (arcs p1)(rb_ptr (slot_buf s) := 1)"
  shows "buf_inv other p' (h\<lparr>buffers := AList.update i s (buffers h)\<rparr>) us"
proof -
  note rr = registry_inv_register [OF rg id refl]
  have "rb_ptr (slot_buf s) \<notin> rb_ptr ` set (held h us)"
    using owner_inv_blocks [OF ow, of "rb_ptr (slot_buf s)"] b(2) by auto
  then have "slots_disjoint (h\<lparr>buffers := AList.update i s (buffers h)\<rparr>)"
    using slots_disjoint_cons [OF held_update_fresh [OF rr(2), of s]] dj held_units [of h us] by blast
  with rr(1) owner_inv_new [OF ow b p' held_update_fresh [OF rr(2)]] show ?thesis by (simp add: buf_inv_def)
qed

lemma adopt_in_place:
  assumes inv: "buf_inv other p h us" and v: "vec_ok other p v" and b: "rb_adopt v = Inr b"
    and id: "reserve_id (next_buffer_id p) = (Inr i, c)" and s: "slot_buf s = b"
  shows "buf_inv (other - {bv_ptr v}) (arc_new b (p\<lparr>next_buffer_id := c\<rparr>)) (h\<lparr>buffers := AList.update i s (buffers h)\<rparr>) us"
proof -
  have i: "registry_inv p h" "slots_disjoint h" "owner_inv other p (held h us)" using inv by (auto simp: buf_inv_def)
  let ?p1 = "p\<lparr>pmem := (pmem p)\<lparr>blocks := (blocks (pmem p))(bv_ptr v := None)\<rparr>\<rparr>"
  obtain d where d: "blocks (pmem p) (bv_ptr v) = Some d" "bv_len v \<le> length d" "bv_ptr v \<in> other" "bv_ptr v \<noteq> 0"
    using v by (auto simp: vec_ok_def)
  have ow: "owner_inv (other - {bv_ptr v}) ?p1 (held h us)" by (rule owner_inv_forget [OF i(3) d(3)]) simp_all
  have "blocks (pmem p) = (blocks (pmem p))(bv_ptr v := None, bv_ptr v \<mapsto> d)" using d(1) by (auto simp: fun_eq_iff)
  with d rb_adopt_Inr [OF b] id s show ?thesis
    by (intro buf_inv_register [OF i(1,2) _ ow, where d = d]) (simp_all add: arc_new_def)
qed

text \<open>Copying the vector instead: its block is freed once the copy is made.\<close>

lemma adopt_by_copy:
  assumes ok: "sys_alloc_ok sa" and inv: "buf_inv other p h us" and v: "vec_ok other p v"
    and id: "reserve_id (next_buffer_id p) = (Inr i, c)"
    and b: "build_slot (rb_from_bytes sa (bv_bytes v p)) True False (p\<lparr>next_buffer_id := c\<rparr>) = (Inr s, p1)"
  shows "buf_inv (other - {bv_ptr v}) (bv_drop v p1) (h\<lparr>buffers := AList.update i s (buffers h)\<rparr>) us
    \<and> output_claimed s \<and> rb_as_slice (pmem (bv_drop v p1)) (slot_buf s) = bv_bytes v p"
proof -
  have i: "registry_inv p h" "slots_disjoint h" "owner_inv other p (held h us)" using inv by (auto simp: buf_inv_def)
  obtain x m where f: "rb_from_bytes sa (bv_bytes v p) (pmem p) = (x, m)" by force
  with b obtain w where x: "x = Inr w" and s: "s = \<lparr>slot_buf = w, output_claimed = True, caller_held = False\<rparr>"
    and p1: "p1 = arc_new w (p\<lparr>next_buffer_id := c, pmem := m\<rparr>)"
    by (cases x) (auto simp: build_slot_def BufferSlot_new_def)
  note w = rb_from_bytes_Inr [OF ok f [unfolded x]]
  have fresh: "rb_ptr w \<noteq> 0" "blocks (pmem p) (rb_ptr w) = None"
    using ok w unfolding sys_alloc_ok_def by blast+
  have inv1: "buf_inv other p1 (h\<lparr>buffers := AList.update i s (buffers h)\<rparr>) us"
    using w fresh id
    by (intro buf_inv_register [OF i(1,2) _ i(3), where d = "bv_bytes v p"]) (simp_all add: s p1 arc_new_def)
  have ne: "rb_ptr w \<noteq> bv_ptr v" using fresh(2) v by (auto simp: vec_ok_def)
  have v1: "vec_ok other p1 v" using v ne w by (auto simp: vec_ok_def p1 arc_new_def)
  show ?thesis using bv_drop_inv [OF inv1 v1] w ne by (auto simp: s p1 bv_drop_def rb_as_slice_def arc_new_def)
qed

subsection \<open>Properties\<close>

text \<open>No buffer is used after it is freed, and none leaks. After any sequence of allocations, promoted
  results, frees, submissions that read a buffer, unit drops and output claims, every registered buffer and
  every live unit's input is live memory of at least its length; two ids never share a block; and a block is
  live exactly while an owner counts it, so a free keeps memory a queued or running unit still reads, and
  the last owner releases it.\<close>

theorem buffer_no_use_after_free:
  assumes "sys_alloc_ok sa"
    and "buf_ops_run sa ops (process_init, Handle_new n inline, [], []) = (p, h, us, cs)"
  shows "(\<forall>i s. map_of (buffers h) i = Some s \<longrightarrow> live_buf p (slot_buf s))
    \<and> (\<forall>b. Shared b \<in> set us \<longrightarrow> live_buf p b)
    \<and> (\<forall>i j s t. map_of (buffers h) i = Some s \<and> map_of (buffers h) j = Some t
          \<and> rb_ptr (slot_buf s) = rb_ptr (slot_buf t) \<longrightarrow> i = j)
    \<and> (\<forall>q. blocks (pmem p) q \<noteq> None \<longleftrightarrow> 0 < arcs p q)
    \<and> (buffers h = [] \<and> us = [] \<longrightarrow> blocks (pmem p) = Map.empty)"
proof -
  have inv: "buf_inv {} p h us" using buf_ops_run_inv [OF assms(1) buf_inv_init assms(2)] by simp
  then have ow: "owner_inv {} p (held h us)" and dj: "slots_disjoint h" by (auto simp: buf_inv_def)
  have slot: "(i, s) \<in> set (buffers h)" if "map_of (buffers h) i = Some s" for i s using that by (rule map_of_SomeD)
  have a: "live_buf p (slot_buf s)" if "map_of (buffers h) i = Some s" for i s
    using owner_invD(1) [OF ow, of "slot_buf s"] slot [OF that] by (force simp: held_def)
  have b: "live_buf p b" if "Shared b \<in> set us" for b
    using owner_invD(1) [OF ow, of b] that by (force simp: held_def)
  have d: "distinct (map (\<lambda>x. rb_ptr (slot_buf (snd x))) (buffers h))"
    using dj by (simp add: slots_disjoint_def held_def comp_def)
  have c: "i = j" if "map_of (buffers h) i = Some s" "map_of (buffers h) j = Some t"
    "rb_ptr (slot_buf s) = rb_ptr (slot_buf t)" for i j s t
    using slot [OF that(1)] slot [OF that(2)] that(3) inj_onD [OF conjunct2 [OF d [unfolded distinct_map]], of "(i, s)" "(j, t)"] by simp
  have e: "blocks (pmem p) q \<noteq> None \<longleftrightarrow> 0 < arcs p q" for q
    using owner_inv_blocks [OF ow, of q] owner_inv_refs [OF ow, of q] refs_zero [of "held h us" q] by auto
  have f: "blocks (pmem p) = Map.empty" if "buffers h = []" "us = []"
    using owner_inv_blocks [OF ow] that by (auto simp: held_def)
  show ?thesis using a b c e f by blast
qed

theorem buffer_no_use_after_free_witness:
  "\<exists>p h us cs. buf_ops_run bump_alloc [BFrom [1, 2], BShare 1, BFree 1] (process_init, Handle_new 1 True, [], []) = (p, h, us, cs)
    \<and> (\<forall>b. Shared b \<in> set us \<longrightarrow> live_buf p b)"
proof -
  obtain p h us cs where run: "buf_ops_run bump_alloc [BFrom [1, 2], BShare 1, BFree 1] (process_init, Handle_new 1 True, [], [])
      = (p, h, us, cs)" by (metis prod_cases4)
  from buffer_no_use_after_free [OF bump_alloc_ok run] run show ?thesis by blast
qed

text \<open>C24: A buffer becomes a job's output at most once. In any sequence of registry operations the ids
  claimed as outputs are distinct, even across frees and new allocations; a claimed buffer was live, had
  not been handed to the caller, and no unit was reading it.\<close>

theorem output_claimed_once:
  assumes "sys_alloc_ok sa"
    and "buf_ops_run sa ops (process_init, Handle_new n inline, [], []) = (p, h, us, cs)"
  shows "distinct cs
    \<and> (\<forall>i p' h'. claim_output i (p, h) = (Inr (), p', h') \<longrightarrow> i \<notin> set cs
         \<and> (\<exists>s. map_of (buffers h) i = Some s \<and> \<not> caller_held s \<and> live_buf p (slot_buf s)
              \<and> (\<forall>b. Shared b \<in> set us \<longrightarrow> rb_ptr b \<noteq> rb_ptr (slot_buf s))))"
proof -
  have inv: "buf_inv {} p h us" "claims_inv p h cs" using buf_ops_run_inv [OF assms(1) buf_inv_init assms(2)] by auto
  then have ow: "owner_inv {} p (held h us)" by (simp add: buf_inv_def)
  have "i \<notin> set cs \<and> (\<exists>s. map_of (buffers h) i = Some s \<and> \<not> caller_held s \<and> live_buf p (slot_buf s)
              \<and> (\<forall>b. Shared b \<in> set us \<longrightarrow> rb_ptr b \<noteq> rb_ptr (slot_buf s)))"
    if c: "claim_output i (p, h) = (Inr (), p', h')" for i p' h'
  proof -
    from c obtain s where s: "map_of (buffers h) i = Some s" "\<not> output_claimed s" "\<not> caller_held s"
      "arcs p (rb_ptr (slot_buf s)) \<le> 1"
      by (auto simp: claim_output_def Let_def split: option.splits if_splits)
    let ?q = "rb_ptr (slot_buf s)"
    have m: "slot_buf s \<in> set (map (slot_buf \<circ> snd) (buffers h))" using map_of_SomeD [OF s(1)] by force
    have "refs (held h us) ?q = refs (map (slot_buf \<circ> snd) (buffers h)) ?q + refs (concat (map payload_bufs us)) ?q"
      by (simp add: held_def refs_def)
    moreover have "refs (map (slot_buf \<circ> snd) (buffers h)) ?q \<noteq> 0" using m unfolding refs_zero by blast
    ultimately have "refs (concat (map payload_bufs us)) ?q = 0" using s(4) owner_inv_refs [OF ow, of ?q] by simp
    then have "\<forall>b. Shared b \<in> set us \<longrightarrow> rb_ptr b \<noteq> ?q" unfolding refs_zero by (force simp: image_iff)
    moreover have "live_buf p (slot_buf s)" using owner_invD(1) [OF ow] m by (simp add: held_def)
    ultimately show ?thesis using s inv(2) by (auto simp: claims_inv_def)
  qed
  with inv(2) show ?thesis by (auto simp: claims_inv_def)
qed

theorem output_claimed_once_witness:
  "\<exists>p h us cs. buf_ops_run bump_alloc [BAlloc 3 False, BClaim 1, BClaim 1] (process_init, Handle_new 1 True, [], [])
     = (p, h, us, cs) \<and> distinct cs"
proof -
  obtain p h us cs where run: "buf_ops_run bump_alloc [BAlloc 3 False, BClaim 1, BClaim 1]
      (process_init, Handle_new 1 True, [], []) = (p, h, us, cs)" by (metis prod_cases4)
  from output_claimed_once [OF bump_alloc_ok run] run show ?thesis by blast
qed

text \<open>Large results leave the inline path. After \<open>materialize_result\<close> no successful result carries more
  than \<open>MAX_INLINE_INPUT\<close> bytes: a larger one (up to the ceiling) became a fresh registered output buffer
  holding exactly its bytes, which no other job can claim, or an error when the registry refused it; one over
  the ceiling became an error; any other result is returned as it was.\<close>

theorem materialize_result_spec:
  assumes "sys_alloc_ok sa" and "buf_inv other p h us" and "materialize_result sa r (p, h) = (r', p', h')"
  shows "(\<forall>d. r' = ResOk d \<longrightarrow> r = ResOk d \<and> length d \<le> MAX_INLINE_INPUT)
    \<and> (\<forall>d. r = ResOk d \<and> MAX_INLINE_INPUT < length d \<longrightarrow>
         (\<exists>e. r' = ResErr e)
         \<or> (\<exists>i s. r' = ResBuffer i \<and> map_of (buffers h) i = None \<and> map_of (buffers h') i = Some s
              \<and> output_claimed s \<and> rb_as_slice (pmem p') (slot_buf s) = d \<and> length d \<le> MAX_BUFFER_BYTES))
    \<and> ((\<forall>d. r \<noteq> ResOk d) \<longrightarrow> r' = r \<and> p' = p \<and> h' = h) \<and> buf_inv other p' h' us"
proof (cases "\<exists>d. r = ResOk d \<and> MAX_INLINE_INPUT < length d \<and> length d \<le> MAX_BUFFER_BYTES")
  case False
  then have "r' = r \<and> p' = p \<and> h' = h \<and> (\<forall>d. r = ResOk d \<longrightarrow> length d \<le> MAX_INLINE_INPUT)
      \<or> (\<exists>d e. r = ResOk d \<and> r' = ResErr e \<and> p' = p \<and> h' = h)"
    using assms(3) by (auto simp: materialize_result_def split: JobResult.splits if_splits)
  with assms(2) show ?thesis by auto
next
  case True
  then obtain d where d: "r = ResOk d" "MAX_INLINE_INPUT < length d" "length d \<le> MAX_BUFFER_BYTES" by blast
  note inv = materialize_result_inv [OF assms]
  obtain x p1 h1 where b: "buf_from_bytes sa d (p, h) = (x, p1, h1)" by (metis prod_cases3)
  show ?thesis
  proof (cases x)
    case (Inl e)
    with d b assms(3) have "r' = ResErr e" by (simp add: materialize_result_def)
    with inv d show ?thesis by simp
  next
    case (Inr y)
    obtain i q where y: "y = (i, q)" by force
    have e: "r' = ResBuffer i" "p' = p1" "h' = h1" using d b assms(3) Inr y by (simp_all add: materialize_result_def)
    from buf_from_bytes_slot [OF assms(1) _ b [unfolded Inr y]] assms(2) inv d e show ?thesis
      by (auto simp: buf_inv_def)
  qed
qed

theorem materialize_result_spec_witness:
  "\<exists>r' p' h'. materialize_result bump_alloc (ResOk (replicate 5000 7)) (process_init, Handle_new 1 True) = (r', p', h')
    \<and> (\<forall>d. r' = ResOk d \<longrightarrow> length d \<le> MAX_INLINE_INPUT)"
proof -
  obtain r' p' h' where run: "materialize_result bump_alloc (ResOk (replicate 5000 7)) (process_init, Handle_new 1 True)
      = (r', p', h')" by (rule prod_cases3)
  have "\<forall>d. r' = ResOk d \<longrightarrow> length d \<le> MAX_INLINE_INPUT"
    using conjunct1 [OF materialize_result_spec [OF bump_alloc_ok buf_inv_init(1) run]] by metis
  then show ?thesis by (intro exI conjI) (rule run)
qed

lemma adopt_output_cases:
  assumes "sys_alloc_ok sa" and "buf_inv other p h us" and "vec_ok other p v"
    and "adopt_output sa v (p, h) = (r, p', h')"
  shows "buf_inv (other - {bv_ptr v}) p' h' us
    \<and> (r = ResOk [] \<longleftrightarrow> bv_len v = 0)
    \<and> (MAX_BUFFER_BYTES < bv_len v \<longrightarrow> r = ResErr (too_large (bv_len v)))
    \<and> (\<forall>i. r = ResBuffer i \<longrightarrow> (\<exists>s. map_of (buffers h') i = Some s \<and> output_claimed s
         \<and> rb_as_slice (pmem p') (slot_buf s) = bv_bytes v p))
    \<and> (\<exists>i e. r \<in> {ResOk [], ResBuffer i, ResErr e})"
proof (cases "bv_len v = 0 \<or> MAX_BUFFER_BYTES < bv_len v")
  case True
  with assms(4) have "p' = bv_drop v p" "h' = h"
    "r = (if bv_len v = 0 then ResOk [] else ResErr (too_large (bv_len v)))"
    by (auto simp: adopt_output_def split: if_splits)
  with True bv_drop_inv [OF assms(2,3)] show ?thesis by auto
next
  case False
  let ?build = "\<lambda>p. case rb_adopt v of
                          Inr b \<Rightarrow> (let (s, p1) = BufferSlot_output b p in (Inr s, p1))
                        | Inl foreign \<Rightarrow>
                            (case build_slot (rb_from_bytes sa (bv_bytes foreign p)) True False p of
                               (r, p1) \<Rightarrow> (r, bv_drop foreign p1))"
  obtain x p1 h1 where reg: "register ?build (bv_drop v) (p, h) = (x, p1, h1)" by (rule prod_cases3)
  have e: "p' = p1" "h' = h1" and r: "\<And>e. x = Inl e \<Longrightarrow> r = ResErr e" "\<And>i q. x = Inr (i, q) \<Longrightarrow> r = ResBuffer i"
    using assms(4) False reg by (auto simp: adopt_output_def split: sum.splits)
  from reg show ?thesis
  proof (cases rule: register_cases)
    case (1 err)
    with bv_drop_inv [OF assms(2,3)] r(1) e False show ?thesis by auto
  next
    case (2 c i err)
    then obtain p2 where f: "build_slot (rb_from_bytes sa (bv_bytes v p)) True False (p\<lparr>next_buffer_id := c\<rparr>) = (Inl err, p2)"
      "p1 = bv_drop v p2"
      by (auto simp: BufferSlot_output_def BufferSlot_new_def bv_bytes_def dest!: rb_adopt_Inl split: sum.splits prod.splits)
    then have "p2 = p\<lparr>next_buffer_id := c, pmem := pmem p\<rparr>"
      by (auto simp: build_slot_def BufferSlot_new_def dest!: rb_from_bytes_Inl split: sum.splits prod.splits)
    then have "buf_inv other p2 h us" "vec_ok other p2 v"
      using assms(2,3) reserve_id_Inr [OF 2(3)] by (auto simp: buf_inv_def vec_ok_def owner_inv_def live_buf_def registry_inv_def)
    with 2 f(2) bv_drop_inv r(1) e False show ?thesis by auto
  next
    case (3 c i s)
    have rr: "r = ResBuffer i" using 3(1) r(2) by simp
    show ?thesis
    proof (cases "rb_adopt v")
      case (Inr b)
      with 3(3) have s: "s = \<lparr>slot_buf = b, output_claimed = True, caller_held = False\<rparr>"
        "p1 = arc_new b (p\<lparr>next_buffer_id := c\<rparr>)" by (auto simp: BufferSlot_output_def BufferSlot_new_def)
      from adopt_in_place [OF assms(2,3) Inr 3(2), of s] 3(4) s e rr rb_adopt_Inr [OF Inr] show ?thesis
        using False by (auto simp: update_conv' rb_as_slice_def bv_bytes_def arc_new_def split: option.splits)
    next
      case (Inl w)
      with 3(3) rb_adopt_Inl [OF Inl] obtain p2 where
        "build_slot (rb_from_bytes sa (bv_bytes v p)) True False (p\<lparr>next_buffer_id := c\<rparr>) = (Inr s, p2)" "p1 = bv_drop v p2"
        by (auto simp: bv_bytes_def split: prod.splits)
      with adopt_by_copy [OF assms(1-3) 3(2)] 3(4) e rr False show ?thesis by (auto simp: update_conv')
    qed
  qed
qed

text \<open>An engine's own vector becomes the job's output with the same bytes, or is freed. A non-empty
  vector within the ceiling is registered as an output buffer holding exactly its bytes, in place when its
  memory can be adopted and otherwise as a copy; an empty one is an empty result; any refusal is an error. In
  every case the vector's block is handed over or released exactly once, so the registry's accounting of
  memory and counts holds again without it.\<close>

theorem adopt_output_spec:
  assumes "sys_alloc_ok sa" and "buf_inv other p h us" and "vec_ok other p v"
    and "adopt_output sa v (p, h) = (r, p', h')"
  shows "buf_inv (other - {bv_ptr v}) p' h' us
    \<and> (r = ResOk [] \<longleftrightarrow> bv_len v = 0)
    \<and> (MAX_BUFFER_BYTES < bv_len v \<longrightarrow> r = ResErr (too_large (bv_len v)))
    \<and> (\<forall>i. r = ResBuffer i \<longrightarrow> (\<exists>s. map_of (buffers h') i = Some s \<and> output_claimed s
         \<and> rb_as_slice (pmem p') (slot_buf s) = bv_bytes v p))
    \<and> (\<exists>i e. r \<in> {ResOk [], ResBuffer i, ResErr e})"
  using assms by (rule adopt_output_cases)

theorem adopt_output_spec_witness:
  "\<exists>r p' h'. adopt_output bump_alloc \<lparr>bv_ptr = 64, bv_len = 2, bv_cap = 4\<rparr>
      (process_init\<lparr>pmem := (pmem process_init)\<lparr>blocks := [64 \<mapsto> [1, 2, 3, 4]]\<rparr>\<rparr>, Handle_new 1 True) = (r, p', h')
    \<and> buf_inv {} p' h' []"
proof -
  let ?v = "\<lparr>bv_ptr = 64, bv_len = 2, bv_cap = 4\<rparr>"
  let ?p = "process_init\<lparr>pmem := (pmem process_init)\<lparr>blocks := [64 \<mapsto> [1, 2, 3, 4]]\<rparr>\<rparr>"
  have inv: "buf_inv {64} ?p (Handle_new 1 True) []"
    by (auto simp: buf_inv_def registry_inv_def slots_disjoint_def owner_inv_def held_def refs_def
        process_init_def Handle_new_def idmap_ok_def)
  have v: "vec_ok {64} ?p ?v" by (simp add: vec_ok_def process_init_def)
  obtain r p' h' where run: "adopt_output bump_alloc ?v (?p, Handle_new 1 True) = (r, p', h')" by (rule prod_cases3)
  from adopt_output_spec [OF bump_alloc_ok inv v run] run show ?thesis by auto
qed

end
