(* ===== verification/Engine.thy ===== *)
theory Engine
  imports Buffers
begin

text \<open>
  Engines: the process-wide registry and dispatch order (\<open>pool/engine.rs\<close>), the built-in diagnostic
  engine (\<open>pool/diagnostic.rs\<close>) and the example crate's engine. An adopter's engine is a parameter: any
  function of the context, the input and the state that returns a result or unwinds.
\<close>

subsection \<open>The registry\<close>

type_synonym pstate = "process \<times> Handle"

type_synonym EngineFn =
  "thread \<Rightarrow> JobContext \<Rightarrow> bytes \<Rightarrow> pstate \<Rightarrow> (rstr + JobOutput) outcome \<times> pstate"

record engines =
  global_engine :: "EngineFn option"
  engine_registry :: "(u32, EngineFn) idmap option"

definition engines_init :: engines where
  "engines_init = \<lparr>global_engine = None, engine_registry = None\<rparr>"

definition set_engine_handler :: "EngineFn \<Rightarrow> engines \<Rightarrow> engines" where
  "set_engine_handler f e = e\<lparr>global_engine := Some f\<rparr>"

definition already_registered :: "u32 \<Rightarrow> rstr" where
  "already_registered op = lit ''opcode '' @ show_nat (unat op)
     @ lit '' is already registered; call clear_engine_handlers before installing a replacement (the existing handler was left in place)''"

definition register_engine :: "u32 \<Rightarrow> EngineFn \<Rightarrow> engines \<Rightarrow> (rstr + unit) \<times> engines" where
  "register_engine op f e =
     (if op = 0 then
        (Inl (lit ''opcode 0 is the global engine; call set_engine_handler, not register_engine (a registry entry for opcode 0 is never dispatched)''), e)
      else
        (let m = (case engine_registry e of Some m \<Rightarrow> m | None \<Rightarrow> []);
             e1 = e\<lparr>engine_registry := Some m\<rparr>
         in if map_of m op \<noteq> None then (Inl (already_registered op), e1)
            else (Inr (), e1\<lparr>engine_registry := Some (AList.update op f m)\<rparr>)))"

definition clear_engine_handlers :: "engines \<Rightarrow> engines" where
  "clear_engine_handlers e = e\<lparr>global_engine := None, engine_registry := None\<rparr>"

definition has_engine_handler :: "engines \<Rightarrow> bool" where
  "has_engine_handler e \<longleftrightarrow>
     (if global_engine e \<noteq> None then True
      else case engine_registry e of Some m \<Rightarrow> m \<noteq> [] | None \<Rightarrow> False)"

subsection \<open>The diagnostic engine\<close>

text \<open>
  What a diagnostic job meets: the clock and its cancel flag at its \<open>n\<close>-th \<open>check\<close>, its thread's stack
  size, the CPU's vector units, the path the compiler recorded for the file, what other threads do to the
  process while mode 17 holds, the error of the \<open>n\<close>-th \<open>try_reserve\<close> that fails, and how the finished
  bytes become an output: a plain vector, or one in buffer memory where the allocator API is there.
\<close>

record diag_env =
  de_now :: "nat \<Rightarrow> instant"
  de_cells :: "nat \<Rightarrow> u64 \<Rightarrow> bool"
  de_stack :: "nat option"
  de_avx512bw :: bool
  de_avx2 :: bool
  de_file :: rstr
  de_hold :: "process \<Rightarrow> process"
  de_reserve :: "nat \<Rightarrow> rstr option"
  de_output :: "bytes \<Rightarrow> process \<Rightarrow> JobOutput \<times> process"

definition diag_check :: "diag_env \<Rightarrow> nat \<Rightarrow> JobContext \<Rightarrow> CancelReason + unit" where
  "diag_check env n ctx = check (de_now env n) (de_cells env n) ctx"

definition diag_panic :: "thread \<Rightarrow> diag_env \<Rightarrow> payload \<Rightarrow> u32 \<Rightarrow> process \<Rightarrow> (rstr + 'r) outcome \<times> process" where
  "diag_panic th env pl line p = (Raised pl, raise_panic th (de_file env, line) p)"

text \<open>\<open>input.get(i)\<close> and the \<open>u32\<close> at \<open>input[1..5]\<close>.\<close>

definition byte_at :: "bytes \<Rightarrow> nat \<Rightarrow> u8 option" where
  "byte_at bs i = (if i < length bs then Some (bs ! i) else None)"

definition byte_or :: "bytes \<Rightarrow> nat \<Rightarrow> u8 \<Rightarrow> u8" where
  "byte_or bs i d = (case byte_at bs i of Some b \<Rightarrow> b | None \<Rightarrow> d)"

definition u32_arg :: "bytes \<Rightarrow> u32 option" where
  "u32_arg bs = (if 5 \<le> length bs then Some (of_nat (le_val (take 4 (drop 1 bs)))) else None)"

definition u64_le :: "u64 \<Rightarrow> bytes" where
  "u64_le w = le_nat 8 (unat w)"

text \<open>Mode 16: the output grows a chunk at a time, with a check and a fallible reservation each.\<close>

definition DIAG_MODE_ALLOCATED :: u8 where "DIAG_MODE_ALLOCATED = 16"
definition DIAG_CHUNK :: nat where "DIAG_CHUNK = 2 ^ 16"

function allocated_loop ::
  "diag_env \<Rightarrow> JobContext \<Rightarrow> u8 \<Rightarrow> nat \<Rightarrow> nat \<Rightarrow> nat \<Rightarrow> bytes \<Rightarrow> rstr + bytes" where
  "allocated_loop env ctx seed len k i out =
     (if i < len then
        (case diag_check env k ctx of
           Inl r \<Rightarrow> Inl (cancel_reason_string r)
         | Inr _ \<Rightarrow>
             (let n = min DIAG_CHUNK (len - i)
              in case de_reserve env k of
                   Some e \<Rightarrow> Inl e
                 | None \<Rightarrow> allocated_loop env ctx seed len (k + 1) (i + n)
                             (out @ map (\<lambda>j. of_nat j XOR seed) [i..<i + n])))
      else Inr out)"
  by pat_completeness auto
termination by (relation "measure (\<lambda>(env, ctx, seed, len, k, i, out). len - i)") (auto simp: DIAG_CHUNK_def)

declare allocated_loop.simps [simp del]

definition diagnostic_allocated ::
  "diag_env \<Rightarrow> JobContext \<Rightarrow> bytes \<Rightarrow> process \<Rightarrow> (rstr + JobOutput) outcome \<times> process" where
  "diagnostic_allocated env ctx input p =
     (case u32_arg input of
        None \<Rightarrow> (Done (Inl (lit ''mode 16 needs a u32 LE length'')), p)
      | Some w \<Rightarrow>
          if MAX_BUFFER_BYTES < unat w then (Done (Inl (too_large (unat w))), p)
          else
            (case allocated_loop env ctx (byte_or input 5 0) (unat w) 0 0 [] of
               Inl e \<Rightarrow> (Done (Inl e), p)
             | Inr out \<Rightarrow> (let (o1, p1) = de_output env out p in (Done (Inr o1), p1))))"

text \<open>The loops of modes 5, 6, 10 and 11, and the payload of mode 15.\<close>

fun check_rounds :: "diag_env \<Rightarrow> JobContext \<Rightarrow> nat \<Rightarrow> nat \<Rightarrow> CancelReason option" where
  "check_rounds env ctx k 0 = None"
| "check_rounds env ctx k (Suc n) =
     (case diag_check env k ctx of Inl r \<Rightarrow> Some r | Inr _ \<Rightarrow> check_rounds env ctx (k + 1) n)"

fun recurse :: "nat \<Rightarrow> u32" where
  "recurse 0 = 0"
| "recurse (Suc depth) = recurse depth + 1"

definition MAX_RECURSION_DEPTH :: u32 where "MAX_RECURSION_DEPTH = 100000"
definition MAX_SPIN_ITERS :: u32 where "MAX_SPIN_ITERS = 50000000"

function chunks_of :: "nat \<Rightarrow> 'a list \<Rightarrow> 'a list list" where
  "chunks_of n xs = (if n = 0 \<or> xs = [] then [] else take n xs # chunks_of n (drop n xs))"
  by pat_completeness auto
termination by (relation "measure (\<lambda>(n, xs). length xs)") auto

declare chunks_of.simps [simp del]

fun sum_chunks ::
  "(bytes \<Rightarrow> u32) \<Rightarrow> diag_env \<Rightarrow> JobContext \<Rightarrow> nat \<Rightarrow> u64 \<Rightarrow> bytes list \<Rightarrow> CancelReason + u64" where
  "sum_chunks kern env ctx k acc [] = Inr acc"
| "sum_chunks kern env ctx k acc (c # cs) =
     (case diag_check env k ctx of
        Inl r \<Rightarrow> Inl r
      | Inr _ \<Rightarrow> sum_chunks kern env ctx (k + 1) (acc + ucast (kern c)) cs)"

definition spin :: "nat \<Rightarrow> u64" where
  "spin iters = fold (\<lambda>i acc. acc + (of_nat i * of_nat i XOR word_rotl 7 acc)) [0..<iters] 0"

fun DropBomb :: "rstr \<Rightarrow> nat \<Rightarrow> payload" where
  "DropBomb f 0 = POther (Some (PStr (lit ''diagnostic payload destructor panicked''), (f, 258)))"
| "DropBomb f (Suc n) = POther (Some (DropBomb f n, (f, 260)))"

definition in_engine_enter :: "process \<Rightarrow> process" where
  "in_engine_enter p = p\<lparr>in_engine := in_engine p + 1, in_engine_peak := max (in_engine_peak p) (in_engine p + 1)\<rparr>"

definition in_engine_exit :: "process \<Rightarrow> process" where
  "in_engine_exit p = p\<lparr>in_engine := in_engine p - 1\<rparr>"

text \<open>Every mode but the delay prefix, which comes back here with the rest of the payload.\<close>

definition diagnostic_mode ::
  "thread \<Rightarrow> diag_env \<Rightarrow> JobContext \<Rightarrow> u8 \<Rightarrow> bytes \<Rightarrow> process \<Rightarrow> (rstr + bytes) outcome \<times> process" where
  "diagnostic_mode th env ctx mode input p =
     (let ok = (\<lambda>out. (Done (Inr out), p)); cancelled = (\<lambda>r. (Done (Inl (cancel_reason_string r)), p))
      in if mode = 0 then ok input
         else if mode = 1 then diag_panic th env (PStr (lit ''plain panic'')) 72 p
         else if mode = 2 then
           diag_panic th env (PStr (lit ''panic with embedded NUL '' @ [0] @ lit '' byte'')) 74 p
         else if mode = 3 then diag_panic th env (PI32 42) 76 p
         else if mode = 4 then diag_panic th env (PStr (lit ''panic inside Display implementation'')) 82 p
         else if mode = 5 then
           (case check_rounds env ctx 0 (if 2 \<le> length input then unat (input ! 1) else 100) of
              Some r \<Rightarrow> cancelled r
            | None \<Rightarrow> ok [5, 0])
         else if mode = 6 then
           ok (le_nat 4 (unat (recurse (unat (min (case u32_arg input of Some w \<Rightarrow> w | None \<Rightarrow> 50000) MAX_RECURSION_DEPTH)))))
         else if mode = 7 then ok (trace_id (ctx_header ctx) @ span_id (ctx_header ctx))
         else if mode = 8 then ok (le_nat 8 (case de_stack env of Some n \<Rightarrow> n | None \<Rightarrow> 0))
         else if mode = 10 then
           (case sum_chunks (sum_squares_chunk (de_avx512bw env) (de_avx2 env)) env ctx 0 0 (chunks_of 4096 (drop 1 input)) of
              Inl r \<Rightarrow> cancelled r
            | Inr acc \<Rightarrow> ok (u64_le acc))
         else if mode = 11 then
           ok (u64_le (spin (unat (min (case u32_arg input of Some w \<Rightarrow> w | None \<Rightarrow> 1000) MAX_SPIN_ITERS))))
         else if mode = 12 then diag_panic th env (PString (replicate (1024 * 1024) 65)) 231 p
         else if mode = 13 then
           (let sel = byte_or input 1 0
            in if sel = 0 then diag_panic th env (PU32 12345) 235 p
               else if sel = 1 then diag_panic th env (PI64 (- 9876543210)) 236 p
               else if sel = 2 then diag_panic th env (PBool True) 237 p
               else if sel = 3 then diag_panic th env (PUsize 999999) 238 p
               else diag_panic th env (PIsize (- 42)) 239 p)
         else if mode = 14 then
           (let count = byte_or input 1 10
            in (Done (Inr [14, count]),
                fold (\<lambda>i. log_line (th_id th) (lit ''worker log event '' @ show_nat i)) [0..<unat count] p))
         else if mode = 15 then
           diag_panic th env (DropBomb (de_file env) (min (unat (byte_or input 1 0)) 8)) 263 p
         else if mode = 17 then
           (Done (Inr [17]), in_engine_exit (de_hold env (in_engine_enter p)))
         else if mode = 18 then
           (Done (Inr (le_nat 8 (in_engine_peak p))), p\<lparr>in_engine_peak := in_engine p\<rparr>)
         else ok input)"

function diagnostic_dispatch ::
  "thread \<Rightarrow> diag_env \<Rightarrow> JobContext \<Rightarrow> bytes \<Rightarrow> process \<Rightarrow> (rstr + bytes) outcome \<times> process" where
  "diagnostic_dispatch th env ctx input p =
     (case input of
        [] \<Rightarrow> (Done (Inr []), p)
      | mode # _ \<Rightarrow>
          if mode = 9 then
            (case byte_at input 2 of
               None \<Rightarrow> (Done (Inr input), p)
             | Some b \<Rightarrow> if b = 9 then (Done (Inr input), p)
                         else diagnostic_dispatch th env ctx (drop 2 input) p)
          else diagnostic_mode th env ctx mode input p)"
  by pat_completeness auto
termination by (relation "measure (\<lambda>(th, env, ctx, input, p). length input)") auto

declare diagnostic_dispatch.simps [simp del]

subsection \<open>Dispatch\<close>

definition no_engine_for :: "u32 \<Rightarrow> rstr" where
  "no_engine_for op = lit ''gusset: no engine handler registered for opcode '' @ show_nat (unat op)
     @ lit '' (submission refused)''"

definition no_engine :: rstr where
  "no_engine = lit ''gusset: no engine handler registered; call gusset::set_engine_handler() before submitting work (submission refused rather than run against a built-in engine)''"

definition default_dispatch :: "engines \<Rightarrow> diag_env \<Rightarrow> EngineFn" where
  "default_dispatch e env th ctx input st =
     (if opcode ctx \<noteq> 0 then
        (case Option.bind (engine_registry e) (\<lambda>m. map_of m (opcode ctx)) of
           Some f \<Rightarrow> f th ctx input st
         | None \<Rightarrow> (Done (Inl (no_engine_for (opcode ctx))), st))
      else
        (case global_engine e of
           Some f \<Rightarrow> f th ctx input st
         | None \<Rightarrow>
             if flags (ctx_header ctx) AND GUSSET_FLAG_DIAGNOSTIC_ENGINE \<noteq> 0 then
               (if byte_at input 0 = Some DIAG_MODE_ALLOCATED then
                  (let (r, p1) = diagnostic_allocated env ctx input (fst st) in (r, p1, snd st))
                else
                  (let (r, p1) = diagnostic_dispatch th env ctx input (fst st)
                   in ((case r of Done (Inr out) \<Rightarrow> Done (Inr (OutBytes out))
                        | Done (Inl e) \<Rightarrow> Done (Inl e) | Raised pl \<Rightarrow> Raised pl), p1, snd st)))
             else (Done (Inl no_engine), st)))"

text \<open>The example crate's engine. Its output in buffer memory (opcode 13) is there with the allocator API.\<close>

definition example_engine :: "bool \<Rightarrow> diag_env \<Rightarrow> EngineFn" where
  "example_engine allocator_api env th ctx input st =
     (case input of
        [] \<Rightarrow> (Done (Inr (OutBytes [])), st)
      | op # rest \<Rightarrow>
          if op = 10 then
            (case sum_chunks sum_squares_portable env ctx 0 0 (chunks_of 4096 rest) of
               Inl r \<Rightarrow> (Done (Inl (cancel_reason_string r)), st)
             | Inr acc \<Rightarrow> (Done (Inr (OutBytes (u64_le acc))), st))
          else if op = 11 then
            (Raised (PStr (lit ''example engine induced panic'')), raise_panic th (de_file env, 52) (fst st), snd st)
          else if op = 12 then (Done (Inr (OutBytes rest)), st)
          else if op = 13 \<and> allocator_api then
            (case de_reserve env 0 of
               Some e \<Rightarrow> (Done (Inl e), st)
             | None \<Rightarrow> (let (o1, p1) = de_output env (rev rest) (fst st) in (Done (Inr o1), p1, snd st)))
          else (Done (Inl (lit ''unknown opcode: '' @ show_nat (unat op))), st))"

definition init_example_engine :: "bool \<Rightarrow> diag_env \<Rightarrow> engines \<Rightarrow> engines" where
  "init_example_engine allocator_api env e = set_engine_handler (example_engine allocator_api env) e"

subsection \<open>Lemmas: the registry\<close>

text \<open>A history of registry calls, and what it should leave: since the last clear, the first
  registration of an opcode and the last global handler.\<close>

datatype reg_op = SetGlobal EngineFn | RegisterOp u32 EngineFn | ClearAll

fun reg_step :: "reg_op \<Rightarrow> engines \<Rightarrow> engines" where
  "reg_step (SetGlobal f) e = set_engine_handler f e"
| "reg_step (RegisterOp op f) e = snd (register_engine op f e)"
| "reg_step ClearAll e = clear_engine_handlers e"

definition reg_run :: "reg_op list \<Rightarrow> engines" where
  "reg_run ops = fold reg_step ops engines_init"

fun is_clear :: "reg_op \<Rightarrow> bool" where
  "is_clear ClearAll = True"
| "is_clear _ = False"

definition since_clear :: "reg_op list \<Rightarrow> reg_op list" where
  "since_clear ops = rev (takeWhile (\<lambda>x. \<not> is_clear x) (rev ops))"

fun first_for :: "u32 \<Rightarrow> reg_op list \<Rightarrow> EngineFn option" where
  "first_for op [] = None"
| "first_for op (RegisterOp o1 f # xs) = (if o1 = op then Some f else first_for op xs)"
| "first_for op (_ # xs) = first_for op xs"

fun last_global :: "reg_op list \<Rightarrow> EngineFn option" where
  "last_global [] = None"
| "last_global (SetGlobal f # xs) = (case last_global xs of None \<Rightarrow> Some f | Some g \<Rightarrow> Some g)"
| "last_global (_ # xs) = last_global xs"

definition registered :: "engines \<Rightarrow> u32 \<Rightarrow> EngineFn option" where
  "registered e op = Option.bind (engine_registry e) (\<lambda>m. map_of m op)"

lemma since_clear_snoc: "since_clear (ops @ [x]) = (if is_clear x then [] else since_clear ops @ [x])"
  by (simp add: since_clear_def)

lemma first_for_snoc:
  "first_for op (xs @ [x]) = (case first_for op xs of Some f \<Rightarrow> Some f | None \<Rightarrow> first_for op [x])"
  by (induction op xs rule: first_for.induct) auto

lemma last_global_snoc:
  "last_global (xs @ [x]) = (case last_global [x] of Some f \<Rightarrow> Some f | None \<Rightarrow> last_global xs)"
  by (induction xs rule: last_global.induct) (auto split: option.splits)

lemma registered_register:
  "op \<noteq> 0 \<Longrightarrow> registered (snd (register_engine o1 f e)) op =
     (case registered e op of Some g \<Rightarrow> Some g | None \<Rightarrow> if o1 = op then Some f else None)"
  by (auto simp: registered_def register_engine_def Let_def update_conv' split: option.splits)

lemma global_register [simp]: "global_engine (snd (register_engine op f e)) = global_engine e"
  by (simp add: register_engine_def Let_def)

lemma reg_run_state:
  "global_engine (reg_run ops) = last_global (since_clear ops)
    \<and> (\<forall>op. op \<noteq> 0 \<longrightarrow> registered (reg_run ops) op = first_for op (since_clear ops))"
proof (induction ops rule: rev_induct)
  case Nil
  show ?case by (simp add: reg_run_def engines_init_def since_clear_def registered_def)
next
  case (snoc x ops)
  have run: "reg_run (ops @ [x]) = reg_step x (reg_run ops)" by (simp add: reg_run_def)
  show ?case
    unfolding run
  proof (cases x)
    case (SetGlobal f)
    with snoc show "global_engine (reg_step x (reg_run ops)) = last_global (since_clear (ops @ [x]))
        \<and> (\<forall>op. op \<noteq> 0 \<longrightarrow> registered (reg_step x (reg_run ops)) op = first_for op (since_clear (ops @ [x])))"
      by (auto simp: since_clear_snoc last_global_snoc first_for_snoc set_engine_handler_def registered_def
          split: option.splits)
  next
    case (RegisterOp op f)
    with snoc show "global_engine (reg_step x (reg_run ops)) = last_global (since_clear (ops @ [x]))
        \<and> (\<forall>op. op \<noteq> 0 \<longrightarrow> registered (reg_step x (reg_run ops)) op = first_for op (since_clear (ops @ [x])))"
      by (auto simp: since_clear_snoc last_global_snoc first_for_snoc registered_register split: option.splits)
  next
    case ClearAll
    then show "global_engine (reg_step x (reg_run ops)) = last_global (since_clear (ops @ [x]))
        \<and> (\<forall>op. op \<noteq> 0 \<longrightarrow> registered (reg_step x (reg_run ops)) op = first_for op (since_clear (ops @ [x])))"
      by (simp add: since_clear_snoc clear_engine_handlers_def registered_def)
  qed
qed

lemma default_dispatch_registered:
  "default_dispatch e env th ctx input st =
     (if opcode ctx \<noteq> 0 then
        (case registered e (opcode ctx) of
           Some f \<Rightarrow> f th ctx input st
         | None \<Rightarrow> (Done (Inl (no_engine_for (opcode ctx))), st))
      else
        (case global_engine e of
           Some f \<Rightarrow> f th ctx input st
         | None \<Rightarrow> default_dispatch engines_init env th ctx input st))"
  by (simp add: default_dispatch_def registered_def engines_init_def split: option.splits)

subsection \<open>Lemmas: the loops\<close>

lemma chunks_of_Nil [simp]: "chunks_of n [] = []"
  by (simp add: chunks_of.simps)

lemma concat_chunks_of: "n \<noteq> 0 \<Longrightarrow> concat (chunks_of n xs) = xs"
proof (induction n xs rule: chunks_of.induct)
  case (1 n xs)
  then show ?case by (cases "xs = []") (simp_all add: chunks_of.simps [of n xs])
qed

lemma length_chunks_of: "c \<in> set (chunks_of n xs) \<Longrightarrow> length c \<le> n"
proof (induction n xs rule: chunks_of.induct)
  case (1 n xs)
  then show ?case by (cases "n = 0 \<or> xs = []") (auto simp: chunks_of.simps [of n xs])
qed

text \<open>The square sum of a list of bytes.\<close>

definition squares :: "bytes \<Rightarrow> nat" where
  "squares bs = (\<Sum>b\<leftarrow>bs. unat b * unat b)"

lemma squares_append [simp]: "squares (xs @ ys) = squares xs + squares ys"
  by (simp add: squares_def)

lemma sum_chunks_pass:
  assumes "\<And>c. c \<in> set cs \<Longrightarrow> unat (kern c) = squares c" and "\<And>j. k \<le> j \<Longrightarrow> j < k + length cs \<Longrightarrow> diag_check env j ctx = Inr ()"
  shows "sum_chunks kern env ctx k acc cs = Inr (acc + of_nat (squares (concat cs)))"
  using assms
proof (induction cs arbitrary: k acc)
  case (Cons c cs)
  have c: "(ucast (kern c) :: u64) = of_nat (squares c)"
    using Cons.prems(1) [of c] by (metis list.set_intros(1) of_nat_unat)
  have "sum_chunks kern env ctx (k + 1) (acc + ucast (kern c)) cs = Inr (acc + ucast (kern c) + of_nat (squares (concat cs)))"
    using Cons.prems by (intro Cons.IH) auto
  with c Cons.prems(2) [of k] show ?case by (simp add: add.assoc)
qed (simp add: squares_def)

lemma sum_chunks_stop:
  assumes "j < length cs" and "diag_check env (k + j) ctx = Inl r" and "\<And>i. i < j \<Longrightarrow> diag_check env (k + i) ctx = Inr ()"
  shows "sum_chunks kern env ctx k acc cs = Inl r"
  using assms
proof (induction cs arbitrary: k acc j)
  case (Cons c cs)
  show ?case
  proof (cases j)
    case (Suc i)
    have "diag_check env k ctx = Inr ()" using Cons.prems(3) [of 0] Suc by simp
    moreover have "sum_chunks kern env ctx (k + 1) (acc + ucast (kern c)) cs = Inl r"
    proof (rule Cons.IH [of i])
      show "diag_check env (k + 1 + l) ctx = Inr ()" if "l < i" for l
        using Cons.prems(3) [of "Suc l"] that Suc by simp
    qed (use Cons.prems Suc in auto)
    ultimately show ?thesis by simp
  qed (use Cons.prems in simp)
qed simp

lemma kernel_exact:
  assumes "c \<in> set (chunks_of 4096 data)"
  shows "unat (sum_squares_chunk a b c) = squares c" "unat (sum_squares_portable c) = squares c"
  using sum_squares_chunk_exact [OF length_chunks_of [OF assms], of a b]
    sum_squares_chunk_exact [OF length_chunks_of [OF assms], of False False]
  by (simp_all add: squares_def sum_squares_chunk_def)

lemma le_val_u64_le: "le_val (u64_le w) = unat w"
  using u64_bound [of w] by (simp add: u64_le_def le_val_le_nat)

lemma allocated_loop_pass:
  assumes "\<And>j. diag_check env j ctx = Inr ()" and "\<And>j. de_reserve env j = None" and "i \<le> len"
  shows "allocated_loop env ctx seed len k i (map (\<lambda>j. of_nat j XOR seed) [0..<i])
    = Inr (map (\<lambda>j. of_nat j XOR seed) [0..<len])"
  using assms(3)
proof (induction "len - i" arbitrary: i k rule: less_induct)
  case less
  show ?case
  proof (cases "i < len")
    case True
    define n where "n = min DIAG_CHUNK (len - i)"
    have pos: "0 < n" "i + n \<le> len" using True by (simp_all add: n_def DIAG_CHUNK_def)
    have "[0..<i] @ [i..<i + n] = [0..<i + n]" using upt_add_eq_append [of 0 i n] by simp
    then have "map (\<lambda>j. of_nat j XOR seed) [0..<i] @ map (\<lambda>j. of_nat j XOR seed) [i..<i + n]
        = map (\<lambda>j. of_nat j XOR seed) [0..<i + n]" by (metis map_append)
    moreover have "allocated_loop env ctx seed len (k + 1) (i + n) (map (\<lambda>j. of_nat j XOR seed) [0..<i + n])
        = Inr (map (\<lambda>j. of_nat j XOR seed) [0..<len])"
      using less.hyps [of "i + n" "k + 1"] True pos by simp
    ultimately show ?thesis
      using True assms(1,2) unfolding allocated_loop.simps [of env ctx seed len k i] n_def [symmetric] Let_def
      by (simp del: map_append)
  next
    case False
    then show ?thesis using less.prems by (subst allocated_loop.simps) simp
  qed
qed

lemma recurse_of_nat: "recurse n = of_nat n"
  by (induction n) (simp_all add: add.commute)

subsection \<open>Properties\<close>

text \<open>Dispatch runs exactly the engine that was installed for the job, whatever the history of registry
  calls. A nonzero opcode runs the first handler registered for it since the last clear (a second
  registration is refused and changes nothing) and otherwise is refused: it never falls through to the
  global handler or the diagnostic engine. Opcode 0 runs the last global handler installed since the last
  clear; without one, the diagnostic engine when the caller's flag asks for it, and otherwise the job is
  refused without touching the state.\<close>

theorem dispatch_routes:
  "default_dispatch (reg_run ops) env th ctx input st =
     (if opcode ctx \<noteq> 0 then
        (case first_for (opcode ctx) (since_clear ops) of
           Some f \<Rightarrow> f th ctx input st
         | None \<Rightarrow> (Done (Inl (no_engine_for (opcode ctx))), st))
      else
        (case last_global (since_clear ops) of
           Some f \<Rightarrow> f th ctx input st
         | None \<Rightarrow>
             if flags (ctx_header ctx) AND GUSSET_FLAG_DIAGNOSTIC_ENGINE = 0 then (Done (Inl no_engine), st)
             else default_dispatch engines_init env th ctx input st))"
proof -
  have "default_dispatch engines_init env th ctx input st = (Done (Inl no_engine), st)"
    if "opcode ctx = 0" "flags (ctx_header ctx) AND GUSSET_FLAG_DIAGNOSTIC_ENGINE = 0"
    using that by (simp add: default_dispatch_def engines_init_def)
  then show ?thesis
    using reg_run_state [of ops]
    by (simp add: default_dispatch_registered [of "reg_run ops"] split: option.splits)
qed

text \<open>C35: The sum-of-squares jobs are exact and agree. Run to the end, opcode 10 of the example engine and
  mode 10 of the diagnostic engine, on any CPU, return the little-endian bytes of the sum of the squares of
  the payload's bytes modulo \<open>2 ^ 64\<close>; when a check fails before the last chunk, both report that cancel
  reason instead.\<close>

theorem sum_of_squares_jobs:
  assumes "\<And>i. i < j \<Longrightarrow> diag_check env i ctx = Inr ()"
    and "length (chunks_of 4096 data) \<le> j \<or> diag_check env j ctx = Inl r"
  shows "(length (chunks_of 4096 data) \<le> j \<longrightarrow>
      (\<exists>out. fst (example_engine api env th ctx (10 # data) st) = Done (Inr (OutBytes out))
         \<and> fst (diagnostic_dispatch th env ctx (10 # data) p) = Done (Inr out)
         \<and> length out = 8 \<and> le_val out = squares data mod 2 ^ 64))
    \<and> (j < length (chunks_of 4096 data) \<longrightarrow>
         fst (example_engine api env th ctx (10 # data) st) = Done (Inl (cancel_reason_string r))
         \<and> fst (diagnostic_dispatch th env ctx (10 # data) p) = Done (Inl (cancel_reason_string r)))"
proof -
  let ?cs = "chunks_of 4096 data" and ?k = "sum_squares_chunk (de_avx512bw env) (de_avx2 env)"
  have dd: "diagnostic_dispatch th env ctx (10 # data) p = (case sum_chunks ?k env ctx 0 0 ?cs of
      Inl r \<Rightarrow> (Done (Inl (cancel_reason_string r)), p) | Inr acc \<Rightarrow> (Done (Inr (u64_le acc)), p))"
    by (simp add: diagnostic_dispatch.simps [of th env ctx "10 # data"] diagnostic_mode_def)
  show ?thesis
  proof (cases "length ?cs \<le> j")
    case True
    have "sum_chunks kern env ctx 0 0 ?cs = Inr (of_nat (squares data))"
      if "\<And>c. c \<in> set ?cs \<Longrightarrow> unat (kern c) = squares c" for kern
    proof -
      have "sum_chunks kern env ctx 0 0 ?cs = Inr (0 + of_nat (squares (concat ?cs)))"
        using that assms(1) True by (intro sum_chunks_pass) auto
      then show ?thesis by (simp add: concat_chunks_of)
    qed
    from this [of ?k] this [of sum_squares_portable] have "sum_chunks ?k env ctx 0 0 ?cs = Inr (of_nat (squares data))"
      "sum_chunks sum_squares_portable env ctx 0 0 ?cs = Inr (of_nat (squares data))"
      by (simp_all add: kernel_exact)
    then show ?thesis using True dd
      by (auto simp: example_engine_def le_val_u64_le u64_le_def unat_of_nat le_val_le_nat)
  next
    case False
    then have "sum_chunks kern env ctx 0 0 ?cs = Inl r" for kern
      using sum_chunks_stop [of j ?cs env 0 ctx r] assms by auto
    with False dd show ?thesis by (simp add: example_engine_def)
  qed
qed

text \<open>An undisturbed run: a clock that stands still, no cancel, every reservation granted.\<close>

definition quiet_env :: diag_env where
  "quiet_env = \<lparr>de_now = (\<lambda>_. 0), de_cells = (\<lambda>_ _. False), de_stack = None, de_avx512bw = True, de_avx2 = True,
     de_file = lit ''diagnostic.rs'', de_hold = id, de_reserve = (\<lambda>_. None), de_output = (\<lambda>bs p. (OutBytes bs, p))\<rparr>"

lemma quiet_check: "diag_check quiet_env k (JobContext_new 0 CallHeader_default 1) = Inr ()"
  by (simp add: diag_check_def quiet_env_def check_def CallHeader_default_def resolve_deadline_def)

theorem sum_of_squares_jobs_witness:
  "\<exists>out. fst (example_engine True quiet_env \<lparr>th_id = 1, th_name = None\<rparr> (JobContext_new 0 CallHeader_default 1)
      (10 # [3, 4]) (process_init, Handle_new 1 True)) = Done (Inr (OutBytes out)) \<and> le_val out = 25"
proof -
  have "length (chunks_of 4096 [3, 4 :: u8]) \<le> 1" by (simp add: chunks_of.simps)
  moreover have "squares [3, 4] mod 2 ^ 64 = 25" by (simp add: squares_def)
  ultimately show ?thesis
    using sum_of_squares_jobs [of 1 quiet_env "JobContext_new 0 CallHeader_default 1" "[3, 4]" Explicit True
        "\<lparr>th_id = 1, th_name = None\<rparr>" "(process_init, Handle_new 1 True)" process_init] by (auto simp: quiet_check)
qed

text \<open>Mode 16 builds exactly the output asked for. Whatever its length argument, the job never
  allocates more than the buffer ceiling; with every check passing and every reservation granted it ends and
  hands over \<open>len\<close> bytes, byte \<open>j\<close> being \<open>j\<close> XOR the seed, however they are chunked; otherwise it
  ends with an error.\<close>

theorem diagnostic_allocated_output:
  assumes "u32_arg input = Some w"
  shows "(MAX_BUFFER_BYTES < unat w \<longrightarrow> diagnostic_allocated env ctx input p = (Done (Inl (too_large (unat w))), p))
    \<and> (unat w \<le> MAX_BUFFER_BYTES \<and> (\<forall>k. diag_check env k ctx = Inr () \<and> de_reserve env k = None) \<longrightarrow>
         diagnostic_allocated env ctx input p =
           (let (o1, p1) = de_output env (map (\<lambda>j. of_nat j XOR byte_or input 5 0) [0..<unat w]) p
            in (Done (Inr o1), p1)))
    \<and> (\<forall>r p1. diagnostic_allocated env ctx input p = (r, p1) \<longrightarrow> (\<exists>v. r = Done v))"
proof -
  have "allocated_loop env ctx (byte_or input 5 0) (unat w) 0 0 [] = Inr (map (\<lambda>j. of_nat j XOR byte_or input 5 0) [0..<unat w])"
    if "\<forall>k. diag_check env k ctx = Inr () \<and> de_reserve env k = None"
    using allocated_loop_pass [of env ctx 0 "unat w" "byte_or input 5 0" 0] that by simp
  with assms show ?thesis
    by (auto simp: diagnostic_allocated_def split: sum.splits prod.splits if_splits)
qed

theorem diagnostic_allocated_output_witness:
  "diagnostic_allocated quiet_env (JobContext_new 0 CallHeader_default 1) [16, 3, 0, 0, 0, 1] process_init
    = (Done (Inr (OutBytes [1, 0, 3])), process_init)"
proof -
  have "u32_arg [16, 3, 0, 0, 0, 1] = Some 3" by (simp add: u32_arg_def)
  from diagnostic_allocated_output [OF this, of quiet_env "JobContext_new 0 CallHeader_default 1" process_init]
  show ?thesis
    by (simp add: quiet_check MAX_BUFFER_BYTES_def byte_or_def byte_at_def upt_rec) (simp add: quiet_env_def)
qed

end
