(* ===== verification/Worker.thy ===== *)
theory Worker
  imports Engine
begin

text \<open>
  A worker's turn on one unit (\<open>pool/worker.rs\<close>): running it behind the engine's firewall, and
  delivering its result. A \<open>Weak<Handle>\<close> upgrade is a boolean of the environment. A fault is a panic
  that a guarded step raises outside the engine, before the step changed anything.
\<close>

definition WORKER_STACK_SIZE :: nat where "WORKER_STACK_SIZE = 8 * 1024 * 1024"

subsection \<open>Running a unit\<close>

fun payload_slice :: "mem \<Rightarrow> TaskPayload \<Rightarrow> bytes" where
  "payload_slice m (Small len bs) = take (unat len) bs"
| "payload_slice m (Inline v) = v"
| "payload_slice m (Shared b) = rb_as_slice m b"

text \<open>The clock at the dequeue, at the check before the engine, and at the re-check after an engine error;
  and whether the handle is still there once the engine has returned.\<close>

record unit_env =
  ue_dequeued :: instant
  ue_start :: instant
  ue_end :: instant
  ue_alive :: bool

type_synonym fault = "(payload \<times> source_loc) option"

definition caught_panic ::
  "thread \<Rightarrow> bool \<Rightarrow> payload \<Rightarrow> (rstr \<Rightarrow> rstr) \<Rightarrow> pstate \<Rightarrow> JobResult \<times> pstate" where
  "caught_panic th alive pl describe st =
     (let (p, h) = st;
          h1 = (if alive then poison h else h);
          (loc, p1) = take_panic_location th p;
          (msg, p2) = extract_panic_payload th pl p1
      in (ResPanic (describe msg) (map_option pl_file loc) (case loc of Some l \<Rightarrow> pl_line l | None \<Rightarrow> 0), p2, h1))"

definition aliased_output :: "u64 \<Rightarrow> rstr" where
  "aliased_output i = returned_id i
     @ (if i = 0 then lit ''id 0 is never a live buffer''
        else lit ''that is the input buffer, which the caller still owns'')
     @ lit ''; allocate a new buffer for the result''"

text \<open>The match on what the engine's firewall returned.\<close>

definition unit_result ::
  "sys_alloc \<Rightarrow> thread \<Rightarrow> unit_env \<Rightarrow> JobContext \<Rightarrow> u64 \<Rightarrow> (rstr + JobOutput) outcome \<Rightarrow> pstate \<Rightarrow> JobResult \<times> pstate" where
  "unit_result sa th ue ctx input_id r st =
     (case r of
        Done (Inr (OutBytes out)) \<Rightarrow> (ResOk out, st)
      | Done (Inr (OutBuffer i)) \<Rightarrow>
          if i = 0 \<or> i = input_id then (ResErr (aliased_output i), st)
          else if ue_alive ue then
            (case claim_output i st of
               (Inr _, st1) \<Rightarrow> (ResBuffer i, st1)
             | (Inl e, st1) \<Rightarrow> (ResErr e, st1))
          else (ResErr (lit ''handle is closed''), st)
      | Done (Inr (OutAllocated v)) \<Rightarrow>
          if ue_alive ue then adopt_output sa v st
          else (ResErr (lit ''handle is closed''), bv_drop v (fst st), snd st)
      | Done (Inl err) \<Rightarrow>
          (case check (ue_end ue) (cells (fst st)) ctx of
             Inl reason \<Rightarrow> (ResCancelled reason, st)
           | Inr _ \<Rightarrow> (ResErr err, st))
      | Raised pl \<Rightarrow> caught_panic th (ue_alive ue) pl id st)"

definition execute_unit ::
  "engines \<Rightarrow> diag_env \<Rightarrow> sys_alloc \<Rightarrow> thread \<Rightarrow> unit_env \<Rightarrow> WorkUnit \<Rightarrow> pstate \<Rightarrow> JobResult \<times> pstate" where
  "execute_unit e denv sa th ue unit st =
     (let (p, h) = st; ctx = mark_dequeued (ue_dequeued ue) (u_ctx unit)
      in case check (ue_start ue) (cells p) ctx of
           Inl reason \<Rightarrow> (ResCancelled reason, drop_unit unit p, h)
         | Inr _ \<Rightarrow>
             (let slice = payload_slice (pmem p) (u_payload unit);
                  p1 = snd (take_panic_location th p);
                  (r, st2) = default_dispatch e denv th ctx slice (p1, h);
                  (res, p3, h3) = unit_result sa th ue ctx (u_input_buffer_id unit) r st2
              in (res, drop_unit unit p3, h3)))"

subsection \<open>Delivering its result\<close>

text \<open>\<open>catch_unwind\<close> around a step.\<close>

definition guarded :: "thread \<Rightarrow> fault \<Rightarrow> (pstate \<Rightarrow> 'r \<times> pstate) \<Rightarrow> pstate \<Rightarrow> 'r outcome \<times> pstate" where
  "guarded th flt f st =
     (case flt of
        None \<Rightarrow> (let (r, st1) = f st in (Done r, st1))
      | Some (pl, l) \<Rightarrow> (Raised pl, raise_panic th l (fst st), snd st))"

definition remove_flag :: "u64 \<Rightarrow> Handle \<Rightarrow> Handle" where
  "remove_flag ticket h = h\<lparr>cancel_flags := AList.delete ticket (cancel_flags h)\<rparr>"

record deliver_env =
  dv_alive :: bool
  dv_store_fault :: fault
  dv_publish_fault :: fault
  dv_writes :: "attempt_env list"

fun panic_msg :: "JobResult \<Rightarrow> rstr option" where
  "panic_msg (ResPanic m _ _) = Some m"
| "panic_msg _ = None"

text \<open>The \<open>if let JobResult::Panic\<close> around a log line.\<close>

definition log_panic :: "nat \<Rightarrow> (rstr \<Rightarrow> rstr) \<Rightarrow> JobResult \<Rightarrow> process \<Rightarrow> process" where
  "log_panic me line r p = (case panic_msg r of Some m \<Rightarrow> log_line me (line m) p | None \<Rightarrow> p)"

definition publish_panicked :: "u64 \<Rightarrow> rstr \<Rightarrow> rstr" where
  "publish_panicked ticket m = lit ''gusset: panic while publishing the completion for ticket ''
     @ show_nat (unat ticket) @ lit '': '' @ m
     @ lit ''; the handle is poisoned and the ticket may have no completion''"

text \<open>The first guard: storing the result.\<close>

definition deliver_store :: "sys_alloc \<Rightarrow> thread \<Rightarrow> fault \<Rightarrow> JobResult \<Rightarrow> pstate \<Rightarrow> JobResult \<times> pstate" where
  "deliver_store sa th flt result st =
     (case guarded th flt (materialize_result sa result) st of
        (Done r, st1) \<Rightarrow> (r, st1)
      | (Raised pl, st1) \<Rightarrow>
          caught_panic th True pl (\<lambda>m. lit ''worker fault storing the result: '' @ m) st1)"

definition deliver ::
  "bool \<Rightarrow> (io_error \<Rightarrow> rstr) \<Rightarrow> sys_alloc \<Rightarrow> thread \<Rightarrow> deliver_env \<Rightarrow> u64 \<Rightarrow> JobResult \<Rightarrow> bool \<Rightarrow> pstate
    \<Rightarrow> (announcement list \<times> pstate) option" where
  "deliver be disp sa th dv ticket result wants st =
     (if \<not> dv_alive dv then Some ([], st)
      else
        (let (r, p1, h1) = deliver_store sa th (dv_store_fault dv) result st
         in case dv_publish_fault dv of
              None \<Rightarrow>
                map_option (\<lambda>(out, p2, h2). (out, p2, remove_flag ticket h2))
                  (complete be (th_id th) disp (dv_writes dv) ticket r wants (p1, h1))
            | Some (pl, l) \<Rightarrow>
                (let (r2, p2, h2) = caught_panic th True pl id (raise_panic th l p1, h1)
                 in Some ([], log_panic (th_id th) (publish_panicked ticket) r2 p2, remove_flag ticket h2))))"

subsection \<open>One turn of the worker's loop\<close>

record turn_env = deliver_env +
  te_unit :: unit_env
  te_execute_fault :: fault
  te_deliver_fault :: fault
  te_alive_end :: bool

definition delivery_panicked :: "u64 \<Rightarrow> rstr \<Rightarrow> rstr" where
  "delivery_panicked ticket m = lit ''gusset: panic delivering the completion for ticket ''
     @ show_nat (unat ticket) @ lit '': '' @ m @ lit ''; the handle is poisoned''"

definition wants_inline :: "WorkUnit \<Rightarrow> bool" where
  "wants_inline unit \<longleftrightarrow> flags (ctx_header (u_ctx unit)) AND GUSSET_FLAG_INLINE_COMPLETION \<noteq> 0"

text \<open>The second guard, around \<open>execute_unit\<close>: a fault there drops the unit it owns while it unwinds.\<close>

definition turn_execute ::
  "engines \<Rightarrow> diag_env \<Rightarrow> sys_alloc \<Rightarrow> thread \<Rightarrow> 'a turn_env_scheme \<Rightarrow> WorkUnit \<Rightarrow> pstate \<Rightarrow> JobResult \<times> pstate" where
  "turn_execute e denv sa th te unit st =
     (case te_execute_fault te of
        None \<Rightarrow> execute_unit e denv sa th (te_unit te) unit st
      | Some (pl, l) \<Rightarrow>
          caught_panic th (ue_alive (te_unit te)) pl
            (\<lambda>m. lit ''worker fault outside the engine call: '' @ m)
            (drop_unit unit (raise_panic th l (fst st)), snd st))"

definition worker_turn ::
  "bool \<Rightarrow> (io_error \<Rightarrow> rstr) \<Rightarrow> engines \<Rightarrow> diag_env \<Rightarrow> sys_alloc \<Rightarrow> thread \<Rightarrow> turn_env \<Rightarrow> WorkUnit \<Rightarrow> pstate
    \<Rightarrow> (announcement list \<times> pstate) option" where
  "worker_turn be disp e denv sa th te unit st =
     (let (result, p1, h1) = turn_execute e denv sa th te unit st; ticket = u_ticket unit
      in case te_deliver_fault te of
           None \<Rightarrow> deliver be disp sa th (deliver_env.truncate te) ticket result (wants_inline unit) (p1, h1)
         | Some (pl, l) \<Rightarrow>
             (let (r2, p2, h2) = caught_panic th (te_alive_end te) pl id (raise_panic th l p1, h1);
                  p3 = log_panic (th_id th) (delivery_panicked ticket) r2 p2
              in Some ([], p3, if te_alive_end te then remove_flag ticket h2 else h2)))"

subsection \<open>Frames\<close>

text \<open>A step that touches only the firewall's tables and the log.\<close>

definition guard_only :: "process \<Rightarrow> process \<Rightarrow> bool" where
  "guard_only p p' \<longleftrightarrow> pmem p' = pmem p \<and> arcs p' = arcs p \<and> next_ticket p' = next_ticket p
     \<and> next_buffer_id p' = next_buffer_id p \<and> cells p' = cells p \<and> shutting_down p' = shutting_down p
     \<and> (guard_ok p \<longrightarrow> guard_ok p')"

lemma guard_ok_rest [simp]:
  fixes p :: process
  shows "guard_ok (p\<lparr>log := x1\<rparr>) = guard_ok p" "guard_ok (p\<lparr>pmem := x2\<rparr>) = guard_ok p" "guard_ok (p\<lparr>arcs := x3\<rparr>) = guard_ok p"
    "guard_ok (p\<lparr>next_ticket := x4\<rparr>) = guard_ok p" "guard_ok (p\<lparr>next_buffer_id := x5\<rparr>) = guard_ok p"
    "guard_ok (p\<lparr>cells := x6\<rparr>) = guard_ok p" "guard_ok (p\<lparr>forgotten := x7\<rparr>) = guard_ok p"
    "guard_ok (p\<lparr>shutting_down := x8\<rparr>) = guard_ok p" "guard_ok (p\<lparr>in_engine := x9\<rparr>) = guard_ok p"
    "guard_ok (p\<lparr>in_engine_peak := x9\<rparr>) = guard_ok p"
  by (simp_all add: guard_ok_def)

text \<open>A step that touches only the handle's buffers, and may poison it.\<close>

definition pool_frame :: "Handle \<Rightarrow> Handle \<Rightarrow> bool" where
  "pool_frame h h' \<longleftrightarrow> h' = h\<lparr>buffers := buffers h', h_poisoned := h_poisoned h'\<rparr> \<and> (h_poisoned h \<longrightarrow> h_poisoned h')"

text \<open>A step that draws no ticket, gives no buffer id back and keeps the firewall's tables sound.\<close>

abbreviation proc_frame :: "process \<Rightarrow> process \<Rightarrow> bool" where
  "proc_frame p p' \<equiv> next_ticket p' = next_ticket p \<and> next_buffer_id p \<le> next_buffer_id p' \<and> (guard_ok p \<longrightarrow> guard_ok p')"

text \<open>An engine that leaves the pool it runs on alone: it may use buffers, log and poison, but does not
  submit to, take from or close its own handle.\<close>

definition engines_frame :: "engines \<Rightarrow> diag_env \<Rightarrow> bool" where
  "engines_frame e denv \<longleftrightarrow>
     (\<forall>th ctx input p h r p' h'. default_dispatch e denv th ctx input (p, h) = (r, p', h') \<longrightarrow>
        pool_frame h h' \<and> proc_frame p p')"

lemma guard_only_refl [simp]: "guard_only p p"
  by (simp add: guard_only_def)

lemma guard_only_trans: "guard_only p q \<Longrightarrow> guard_only q r \<Longrightarrow> guard_only p r"
  by (simp add: guard_only_def)

lemma guard_only_take: "guard_only p (snd (take_panic_location th p))"
proof -
  have "guard_ok p \<Longrightarrow> guard_ok (snd (take_panic_location th p))"
    using take_panic_location_spec(1) [of p th] by (cases "take_panic_location th p") simp
  then show ?thesis by (simp add: guard_only_def take_panic_location_def split: option.splits)
qed

lemma guard_only_raise [simp]: "guard_only p (raise_panic th l p)"
  using raise_panic_spec(1) [of p th l]
  by (simp add: guard_only_def) (simp add: raise_panic_def gusset_hook_def intern_file_string_def Let_def)

lemma guard_only_drop: "guard_only p (drop_panic_payload th pl p)"
proof (cases "payload_drop pl")
  case (Some sl)
  obtain second l where sl: "sl = (second, l)" by (cases sl)
  let ?g1 = "raise_panic th l p"
  let ?g2 = "if is_plain_payload second then ?g1 else ?g1\<lparr>forgotten := second # forgotten ?g1\<rparr>"
  have "drop_panic_payload th pl p = snd (take_panic_location th ?g2)"
    using Some sl plain_payload_drop [of second] by (simp add: drop_panic_payload_def run_drop_def)
  moreover have "guard_only p ?g2" using guard_only_raise [of p th l] by (simp add: guard_only_def)
  ultimately show ?thesis using guard_only_trans [OF _ guard_only_take] by simp
qed (simp add: drop_panic_payload_def run_drop_def)

lemma guard_only_describe: "describe_panic_payload th pl p = (r, p') \<Longrightarrow> guard_only p p'"
  by (cases "(th, pl, p)" rule: describe_panic_payload.cases)
     (auto elim!: display_error.elims simp: guard_only_raise)

lemma guard_only_extract: "extract_panic_payload th pl p = (m, p') \<Longrightarrow> guard_only p p'"
proof -
  assume run: "extract_panic_payload th pl p = (m, p')"
  obtain r q where d: "describe_panic_payload th pl p = (r, q)" by force
  note dq = guard_only_describe [OF d]
  show ?thesis
  proof (cases r)
    case (Done s)
    with run d have "p' = drop_panic_payload th pl q" by (simp add: extract_panic_payload_def)
    with dq guard_only_drop [of q th pl] guard_only_trans show ?thesis by blast
  next
    case (Raised d2)
    with run d have "p' = drop_panic_payload th pl (drop_panic_payload th d2 q)" by (simp add: extract_panic_payload_def)
    with dq guard_only_drop [of q th d2] guard_only_drop [of "drop_panic_payload th d2 q" th pl] guard_only_trans
    show ?thesis by blast
  qed
qed

lemma guard_only_log [simp]: "guard_only p (log_line me line p)"
  by (subst log_line_frame) (simp add: guard_only_def)

lemma guard_only_log_panic [simp]: "guard_only p (log_panic me line r p)"
  by (simp add: log_panic_def split: option.splits)

lemma caught_panic_spec:
  assumes "caught_panic th alive pl d (p, h) = (r, p', h')"
  shows "guard_only p p' \<and> h' = (if alive then poison h else h)
    \<and> (\<exists>m q. extract_panic_payload th pl q = (m, p') \<and> q = snd (take_panic_location th p)
         \<and> r = ResPanic (d m) (map_option pl_file (fst (take_panic_location th p)))
               (case fst (take_panic_location th p) of Some l \<Rightarrow> pl_line l | None \<Rightarrow> 0))"
proof -
  obtain loc p1 where t: "take_panic_location th p = (loc, p1)" by force
  obtain m p2 where e: "extract_panic_payload th pl p1 = (m, p2)" by force
  have "guard_only p p1" using guard_only_take [of p th] t by simp
  then have "guard_only p p2" using guard_only_extract [OF e] guard_only_trans by blast
  with assms t e show ?thesis by (auto simp: caught_panic_def)
qed

lemma pool_frame_refl [simp]: "pool_frame h h"
  by (simp add: pool_frame_def)

lemma pool_frame_poison [simp]: "pool_frame h (poison h)"
  by (simp add: pool_frame_def poison_def)

lemma pool_frame_buffers [simp]: "pool_frame h (h\<lparr>buffers := b\<rparr>)"
  by (simp add: pool_frame_def)

lemma pool_frame_trans: "pool_frame h1 h2 \<Longrightarrow> pool_frame h2 h3 \<Longrightarrow> pool_frame h1 h3"
  by (cases h1; cases h2; cases h3) (simp add: pool_frame_def)

lemma pool_frame_fields:
  assumes "pool_frame h h'"
  shows "cancel_flags h' = cancel_flags h" "results h' = results h" "h_queue h' = h_queue h" "h_ring h' = h_ring h"
    "h_closed h' = h_closed h" "inline_ok h' = inline_ok h" "ring_fine h' = ring_fine h" "h_pool_size h' = h_pool_size h"
  using assms by (cases h; cases h'; simp add: pool_frame_def ring_fine_def)+

lemma claim_output_frame: "claim_output i (p, h) = (r, p', h') \<Longrightarrow> pool_frame h h' \<and> p' = p"
  by (auto simp: claim_output_def Let_def split: option.splits if_splits)

lemma arc_frames [simp]:
  "next_ticket (arc_new b p) = next_ticket p" "next_ticket (arc_drop b p) = next_ticket p"
  "next_ticket (drop_payload u p) = next_ticket p" "next_ticket (drop_unit w p) = next_ticket p"
  "next_ticket (bv_drop v p) = next_ticket p"
  "next_buffer_id (arc_new b p) = next_buffer_id p" "next_buffer_id (arc_drop b p) = next_buffer_id p"
  "next_buffer_id (drop_payload u p) = next_buffer_id p" "next_buffer_id (drop_unit w p) = next_buffer_id p"
  "next_buffer_id (bv_drop v p) = next_buffer_id p"
  "guard_ok (arc_new b p) = guard_ok p" "guard_ok (arc_drop b p) = guard_ok p"
  "guard_ok (drop_payload u p) = guard_ok p" "guard_ok (drop_unit w p) = guard_ok p" "guard_ok (bv_drop v p) = guard_ok p"
  by (cases u; cases "u_payload w"; simp add: arc_new_def arc_drop_def drop_unit_def bv_drop_def)+

lemma build_slot_ticket: "build_slot mk c ch p = (r, p') \<Longrightarrow> proc_frame p p'"
  by (auto simp: build_slot_def BufferSlot_new_def split: sum.splits prod.splits)

lemma reserved_le: "reserve_id c = (Inr i, c') \<Longrightarrow> c \<le> c'"
  using reserve_id_Inr [of c i c'] by (simp add: word_le_nat_alt)

lemma register_frame:
  assumes "register build unused (p, h) = (r, p', h')"
    and "\<And>p r p1. build p = (r, p1) \<Longrightarrow> proc_frame p p1" and "proc_frame p (unused p)"
  shows "pool_frame h h' \<and> proc_frame p p'"
  using assms(1)
proof (cases rule: register_cases)
  case (1 e)
  with assms(3) show ?thesis by simp
next
  case (2 c i e)
  with assms(2) [OF 2(4)] reserved_le [OF 2(3)] show ?thesis by auto
next
  case (3 c i s)
  with assms(2) [OF 3(3)] reserved_le [OF 3(2)] show ?thesis by auto
qed

lemma buf_from_bytes_frame:
  "buf_from_bytes sa d (p, h) = (r, p', h') \<Longrightarrow> pool_frame h h' \<and> proc_frame p p'"
  unfolding buf_from_bytes_def by (erule register_frame) (auto dest: build_slot_ticket)

lemma materialize_frame:
  "materialize_result sa r (p, h) = (r', p', h') \<Longrightarrow> pool_frame h h' \<and> proc_frame p p'"
  by (auto simp: materialize_result_def split: JobResult.splits if_splits prod.splits sum.splits
      dest!: buf_from_bytes_frame)

lemma adopt_output_frame:
  assumes "adopt_output sa v (p, h) = (r, p', h')"
  shows "pool_frame h h' \<and> proc_frame p p'"
proof (cases "bv_len v = 0 \<or> MAX_BUFFER_BYTES < bv_len v")
  case True
  with assms show ?thesis by (auto simp: adopt_output_def split: if_splits)
next
  case False
  let ?build = "\<lambda>p. case rb_adopt v of
                          Inr b \<Rightarrow> (let (s, p1) = BufferSlot_output b p in (Inr s, p1))
                        | Inl foreign \<Rightarrow>
                            (case build_slot (rb_from_bytes sa (bv_bytes foreign p)) True False p of
                               (r, p1) \<Rightarrow> (r, bv_drop foreign p1))"
  have b: "proc_frame q p1" if "?build q = (x, p1)" for q x p1
    using that by (auto simp: BufferSlot_output_def BufferSlot_new_def split: sum.splits prod.splits dest!: build_slot_ticket)
  obtain x p1 h1 where reg: "register ?build (bv_drop v) (p, h) = (x, p1, h1)" by (rule prod_cases3)
  have "p' = p1" "h' = h1" using assms False reg by (auto simp: adopt_output_def split: sum.splits)
  with register_frame [OF reg b] show ?thesis by simp
qed

lemma unit_result_frame:
  assumes "unit_result sa th ue ctx i r (p, h) = (res, p', h')"
  shows "pool_frame h h' \<and> proc_frame p p'"
  using assms
  by (auto simp: unit_result_def guard_only_def split: outcome.splits sum.splits JobOutput.splits if_splits prod.splits
      dest!: claim_output_frame adopt_output_frame caught_panic_spec)

lemma execute_unit_frame:
  assumes eng: "engines_frame e denv" and run: "execute_unit e denv sa th ue unit (p, h) = (res, p', h')"
  shows "pool_frame h h' \<and> proc_frame p p'"
proof (cases "check (ue_start ue) (cells p) (mark_dequeued (ue_dequeued ue) (u_ctx unit))")
  case (Inl r)
  with run show ?thesis by (auto simp: execute_unit_def)
next
  case (Inr x)
  let ?ctx = "mark_dequeued (ue_dequeued ue) (u_ctx unit)" and ?p1 = "snd (take_panic_location th p)"
  obtain r p2 h2 where d: "default_dispatch e denv th ?ctx (payload_slice (pmem p) (u_payload unit)) (?p1, h) = (r, p2, h2)"
    by (rule prod_cases3)
  obtain q3 h3 where u: "unit_result sa th ue ?ctx (u_input_buffer_id unit) r (p2, h2) = (res, q3, h3)"
    and e: "p' = drop_unit unit q3" "h' = h3"
    using run Inr d by (auto simp: execute_unit_def Let_def split: prod.splits)
  have "pool_frame h h2" "proc_frame p p2"
    using eng d guard_only_take [of p th] unfolding engines_frame_def guard_only_def by metis+
  with unit_result_frame [OF u] e pool_frame_trans show ?thesis by auto
qed

lemma turn_execute_frame:
  assumes "engines_frame e denv" and "turn_execute e denv sa th te unit (p, h) = (res, p', h')"
  shows "pool_frame h h' \<and> proc_frame p p'"
proof (cases "te_execute_fault te")
  case None
  with assms(2) execute_unit_frame [OF assms(1)] show ?thesis by (simp add: turn_execute_def)
next
  case (Some x)
  obtain pl l where "x = (pl, l)" by (cases x)
  with assms(2) Some have "caught_panic th (ue_alive (te_unit te)) pl (\<lambda>m. lit ''worker fault outside the engine call: '' @ m)
      (drop_unit unit (raise_panic th l p), h) = (res, p', h')" by (simp add: turn_execute_def)
  from caught_panic_spec [OF this] guard_only_raise [of p th l] have "proc_frame p p'"
    "h' = (if ue_alive (te_unit te) then poison h else h)" by (simp_all add: guard_only_def)
  then show ?thesis by simp
qed

lemma deliver_store_frame:
  assumes "deliver_store sa th flt result (p, h) = (r, p', h')"
  shows "pool_frame h h' \<and> proc_frame p p' \<and> (flt \<noteq> None \<longrightarrow> h_poisoned h')"
proof (cases flt)
  case None
  with assms materialize_frame show ?thesis by (auto simp: deliver_store_def guarded_def split: prod.splits)
next
  case (Some x)
  obtain pl l where "x = (pl, l)" by (cases x)
  with assms Some have "caught_panic th True pl (\<lambda>m. lit ''worker fault storing the result: '' @ m) (raise_panic th l p, h) = (r, p', h')"
    by (simp add: deliver_store_def guarded_def)
  from caught_panic_spec [OF this] guard_only_raise [of p th l] show ?thesis
    by (auto simp: guard_only_def poison_def pool_frame_def)
qed

lemma only_outcome_size: "only_outcome h h' \<Longrightarrow> h_pool_size h' = h_pool_size h"
  by (cases h; cases h') (simp add: only_outcome_def)

lemma remove_flag_fields [simp]:
  "cancel_flags (remove_flag t h) = AList.delete t (cancel_flags h)" "results (remove_flag t h) = results h"
  "h_queue (remove_flag t h) = h_queue h" "h_closed (remove_flag t h) = h_closed h" "buffers (remove_flag t h) = buffers h"
  "h_poisoned (remove_flag t h) = h_poisoned h" "ring_fine (remove_flag t h) = ring_fine h" "h_ring (remove_flag t h) = h_ring h"
  "h_pool_size (remove_flag t h) = h_pool_size h"
  by (simp_all add: remove_flag_def ring_fine_def)

lemma carries_flag [simp]: "carries be t r (remove_flag x h) rec = carries be t r h rec"
  by (simp add: carries_def)

lemma write_failed_flag [simp]: "write_failed env t rec (remove_flag x h) = write_failed env t rec h"
  by (simp add: write_failed_def)

text \<open>What a turn without a publishing or delivery fault does.\<close>

definition turn_faultless :: "turn_env \<Rightarrow> bool" where
  "turn_faultless te \<longleftrightarrow> dv_alive te \<and> te_deliver_fault te = None \<and> dv_publish_fault te = None"

lemma worker_turn_spec:
  assumes eng: "engines_frame e denv" and ring: "ring_fine h" and tk: "unat (u_ticket unit) < 2 ^ 63" "u_ticket unit \<noteq> 0"
    and run: "worker_turn be disp e denv sa th te unit (p, h) = Some (out, p', h')" and fl: "turn_faultless te"
  shows "(\<exists>result. (\<exists>rec. announcing be out = [rec] \<and> carries be (u_ticket unit) result h' rec)
              \<or> announcing be out = [] \<and> (\<exists>rec. write_failed (dv_writes te) (u_ticket unit) rec h'))
    \<and> cancel_flags h' = AList.delete (u_ticket unit) (cancel_flags h)
    \<and> (\<forall>t. t \<noteq> u_ticket unit \<longrightarrow> map_of (results h') t = map_of (results h) t)
    \<and> (idmap_ok (results h) \<longrightarrow> idmap_ok (results h'))
    \<and> h_queue h' = h_queue h \<and> h_closed h' = h_closed h \<and> (h_poisoned h \<longrightarrow> h_poisoned h')
    \<and> ring_fine h' \<and> h_pool_size h' = h_pool_size h \<and> proc_frame p p'"
proof -
  let ?t = "u_ticket unit"
  obtain result p1 h1 where x: "turn_execute e denv sa th te unit (p, h) = (result, p1, h1)" by (rule prod_cases3)
  obtain r p2 h2 where d: "deliver_store sa th (dv_store_fault te) result (p1, h1) = (r, p2, h2)" by (rule prod_cases3)
  obtain h3 where c: "complete be (th_id th) disp (dv_writes te) ?t r (wants_inline unit) (p2, h2) = Some (out, p', h3)"
    and h': "h' = remove_flag ?t h3"
    using run fl x d by (auto simp: worker_turn_def deliver_def turn_faultless_def deliver_env.truncate_def Let_def)
  have f1: "pool_frame h h1" "proc_frame p p1" using turn_execute_frame [OF eng x] by auto
  have f2: "pool_frame h1 h2" "proc_frame p1 p2" using deliver_store_frame [OF d] by auto
  have fr: "pool_frame h h2" using pool_frame_trans [OF f1(1) f2(1)] .
  note ff = pool_frame_fields [OF fr]
  have fine: "ring_fine h2" using ff(7) ring by simp
  have sp: "(\<exists>l. p' = p2\<lparr>log := l\<rparr>) \<and> same_but_results ?t h2 h3
    \<and> ((\<exists>rec. announcing be out = [rec] \<and> carries be ?t r h3 rec)
       \<or> announcing be out = [] \<and> (\<exists>rec. write_failed (dv_writes te) ?t rec h3))"
    using complete_spec [OF c tk] fine by (simp add: ring_fine_def)
  have "h_poisoned h \<longrightarrow> h_poisoned h2" using fr by (simp add: pool_frame_def)
  moreover have pf: "proc_frame p p'" using sp f1(2) f2(2) by auto
  moreover have sz: "h_pool_size h3 = h_pool_size h2" and "ring_fine h3"
    using complete_frame [OF c fine] only_outcome_size by blast+
  ultimately show ?thesis using sp ff by (auto simp: h' same_but_results_def pf)
qed

lemma worker_turn_faulty:
  assumes "worker_turn be disp e denv sa th te unit (p, h) = Some (out, p', h')" and "\<not> turn_faultless te"
    and "te_alive_end te" and "dv_alive te"
  shows "map_of (cancel_flags h') (u_ticket unit) = None \<and> h_poisoned h' \<and> announcing be out = []"
proof -
  obtain result p1 h1 where x: "turn_execute e denv sa th te unit (p, h) = (result, p1, h1)" by (rule prod_cases3)
  obtain r p2 h2 where d: "deliver_store sa th (dv_store_fault te) result (p1, h1) = (r, p2, h2)" by (rule prod_cases3)
  show ?thesis
  proof (cases "te_deliver_fault te")
    case (Some y)
    obtain pl l where y: "y = (pl, l)" by (cases y)
    obtain r2 q2 g2 where c: "caught_panic th True pl id (raise_panic th l p1, h1) = (r2, q2, g2)" by (rule prod_cases3)
    with assms(1,3) Some y x have "h' = remove_flag (u_ticket unit) g2" "out = []" by (auto simp: worker_turn_def Let_def)
    with caught_panic_spec [OF c] show ?thesis by (simp add: delete_conv' poison_def announcing_def)
  next
    case None
    with assms(2,4) obtain y where y: "dv_publish_fault te = Some y" by (auto simp: turn_faultless_def)
    obtain pl l where pl: "y = (pl, l)" by (cases y)
    obtain r2 q2 g2 where c: "caught_panic th True pl id (raise_panic th l p2, h2) = (r2, q2, g2)" by (rule prod_cases3)
    with assms(1,4) None y pl x d have "h' = remove_flag (u_ticket unit) g2" "out = []"
      by (auto simp: worker_turn_def deliver_def deliver_env.truncate_def Let_def)
    with caught_panic_spec [OF c] show ?thesis by (simp add: delete_conv' poison_def announcing_def)
  qed
qed

subsection \<open>Memory over a turn\<close>

text \<open>An engine that keeps the registry's accounting and hands over a vector it owns.\<close>

definition engine_buf_ok :: "engines \<Rightarrow> diag_env \<Rightarrow> bool" where
  "engine_buf_ok e denv \<longleftrightarrow>
     (\<forall>th ctx input other us p h r p' h'. buf_inv other p h us \<longrightarrow>
        default_dispatch e denv th ctx input (p, h) = (r, p', h') \<longrightarrow>
        (\<exists>other'. buf_inv other' p' h' us \<and> (\<forall>v. r = Done (Inr (OutAllocated v)) \<longrightarrow> vec_ok other' p' v)))"

lemma buf_inv_guard_only:
  assumes "guard_only p p'" and "buf_inv other p h us"
  shows "buf_inv other p' h us"
proof -
  have "pmem p' = pmem p" "arcs p' = arcs p" "next_buffer_id p' = next_buffer_id p" using assms(1) by (simp_all add: guard_only_def)
  with assms(2) show ?thesis
    by (auto simp: buf_inv_def registry_inv_def intro: owner_inv_frame)
qed

lemma buf_inv_poison [simp]: "buf_inv other p (poison h) us = buf_inv other p h us"
  by (simp add: buf_inv_def registry_inv_def slots_disjoint_def held_def poison_def)

lemma caught_panic_inv:
  "caught_panic th alive pl d (p, h) = (r, p', h') \<Longrightarrow> buf_inv other p h us \<Longrightarrow> buf_inv other p' h' us"
  using buf_inv_guard_only by (auto dest!: caught_panic_spec)

text \<open>A result buffer is a live output of the registry.\<close>

definition result_ok :: "Handle \<Rightarrow> JobResult \<Rightarrow> bool" where
  "result_ok h r \<longleftrightarrow>
     (\<forall>i. r = ResBuffer i \<longrightarrow> (\<exists>s. map_of (buffers h) i = Some s \<and> output_claimed s))"

lemma unit_result_inv:
  assumes ok: "sys_alloc_ok sa" and inv: "buf_inv other p h us" and v: "\<forall>v. r = Done (Inr (OutAllocated v)) \<longrightarrow> vec_ok other p v"
    and run: "unit_result sa th ue ctx i r (p, h) = (res, p', h')"
  shows "(\<exists>other'. buf_inv other' p' h' us) \<and> result_ok h' res"
proof (cases r)
  case (Raised pl)
  with run have c: "caught_panic th (ue_alive ue) pl id (p, h) = (res, p', h')" by (simp add: unit_result_def)
  from caught_panic_inv [OF c inv] caught_panic_spec [OF c] show ?thesis by (auto simp: result_ok_def)
next
  case (Done x)
  show ?thesis
  proof (cases x)
    case (Inl err)
    with Done run have "p' = p" "h' = h" "\<forall>j. res \<noteq> ResBuffer j" by (auto simp: unit_result_def split: sum.splits)
    with inv show ?thesis by (auto simp: result_ok_def)
  next
    case (Inr y)
    show ?thesis
    proof (cases y)
      case (OutBytes b)
      with Done Inr run inv show ?thesis by (auto simp: unit_result_def result_ok_def)
    next
      case (OutBuffer j)
      obtain c p1 h1 where cl: "claim_output j (p, h) = (c, p1, h1)" by (rule prod_cases3)
      note ci = claim_output_inv [OF inv cl]
      have "c = Inr () \<Longrightarrow> \<exists>s. map_of (buffers h1) j = Some s \<and> output_claimed s"
        using cl by (auto simp: claim_output_def Let_def update_conv' split: option.splits if_splits)
      with Done Inr OutBuffer run inv cl ci show ?thesis
        by (cases c) (auto simp: unit_result_def result_ok_def split: if_splits)
    next
      case (OutAllocated w)
      with v Done Inr have w: "vec_ok other p w" by simp
      show ?thesis
      proof (cases "ue_alive ue")
        case True
        with Done Inr OutAllocated run have a: "adopt_output sa w (p, h) = (res, p', h')" by (simp add: unit_result_def)
        from adopt_output_cases [OF ok inv w a] show ?thesis by (auto simp: result_ok_def)
      next
        case False
        with Done Inr OutAllocated run bv_drop_inv [OF inv w] show ?thesis by (auto simp: unit_result_def result_ok_def)
      qed
    qed
  qed
qed

lemma execute_unit_inv:
  assumes ok: "sys_alloc_ok sa" and eng: "engine_buf_ok e denv" and inv: "buf_inv other p h (u_payload unit # us)"
    and run: "execute_unit e denv sa th ue unit (p, h) = (res, p', h')"
  shows "(\<exists>other'. buf_inv other' p' h' us) \<and> result_ok h' res"
proof (cases "check (ue_start ue) (cells p) (mark_dequeued (ue_dequeued ue) (u_ctx unit))")
  case (Inl r)
  with run drop_payload_inv [OF inv] show ?thesis by (auto simp: execute_unit_def drop_unit_def result_ok_def)
next
  case (Inr x)
  let ?ctx = "mark_dequeued (ue_dequeued ue) (u_ctx unit)" and ?p1 = "snd (take_panic_location th p)"
  obtain r p2 h2 where d: "default_dispatch e denv th ?ctx (payload_slice (pmem p) (u_payload unit)) (?p1, h) = (r, p2, h2)"
    by (rule prod_cases3)
  obtain q3 h3 where u: "unit_result sa th ue ?ctx (u_input_buffer_id unit) r (p2, h2) = (res, q3, h3)"
    and e: "p' = drop_unit unit q3" "h' = h3"
    using run Inr d by (auto simp: execute_unit_def Let_def split: prod.splits)
  have inv1: "buf_inv other ?p1 h (u_payload unit # us)" by (rule buf_inv_guard_only [OF guard_only_take inv])
  from eng [unfolded engine_buf_ok_def, rule_format, OF inv1 d] obtain other2 where "buf_inv other2 p2 h2 (u_payload unit # us)"
    "\<forall>v. r = Done (Inr (OutAllocated v)) \<longrightarrow> vec_ok other2 p2 v" by blast
  from unit_result_inv [OF ok this u] obtain other3 where
    "buf_inv other3 q3 h3 (u_payload unit # us)" "result_ok h3 res" by blast
  with drop_payload_inv [OF this(1)] e show ?thesis by (auto simp: drop_unit_def)
qed

subsection \<open>A turn on a live handle\<close>

definition turn_alive :: "turn_env \<Rightarrow> bool" where
  "turn_alive te \<longleftrightarrow> dv_alive te \<and> te_alive_end te"

text \<open>What any turn leaves of the handle, faults included: the unit's flag removed, nothing of other jobs.\<close>

definition turn_frame :: "u64 \<Rightarrow> pstate \<Rightarrow> pstate \<Rightarrow> bool" where
  "turn_frame t st st' \<longleftrightarrow>
     (case (st, st') of ((p, h), (p', h')) \<Rightarrow>
        cancel_flags h' = AList.delete t (cancel_flags h)
        \<and> (\<forall>x. x \<noteq> t \<longrightarrow> map_of (results h') x = map_of (results h) x)
        \<and> (idmap_ok (results h) \<longrightarrow> idmap_ok (results h'))
        \<and> h_queue h' = h_queue h \<and> h_closed h' = h_closed h \<and> (h_poisoned h \<longrightarrow> h_poisoned h')
        \<and> ring_fine h' \<and> h_pool_size h' = h_pool_size h \<and> proc_frame p p')"

lemma caught_turn_frame:
  assumes "caught_panic th True pl d (raise_panic th l p1, h1) = (r, p2, h2)" and "pool_frame h h1" and "ring_fine h"
    and "proc_frame p p1" and "guard_only p2 p3"
  shows "turn_frame t (p, h) (p3, remove_flag t h2)"
proof -
  note c = caught_panic_spec [OF assms(1)] and f = pool_frame_fields [OF assms(2)]
  have "proc_frame p p3" "h2 = poison h1"
    using c assms(4,5) guard_only_raise [of p1 th l] by (auto simp: guard_only_def)
  with f assms(3) show ?thesis by (simp add: turn_frame_def poison_def remove_flag_def ring_fine_def)
qed

lemma worker_turn_frame:
  assumes eng: "engines_frame e denv" and ring: "ring_fine h" and tk: "unat (u_ticket unit) < 2 ^ 63" "u_ticket unit \<noteq> 0"
    and run: "worker_turn be disp e denv sa th te unit (p, h) = Some (out, p', h')" and al: "turn_alive te"
  shows "turn_frame (u_ticket unit) (p, h) (p', h')"
proof (cases "turn_faultless te")
  case True
  from worker_turn_spec [OF eng ring tk run True] show ?thesis by (simp add: turn_frame_def)
next
  case False
  obtain result p1 h1 where x: "turn_execute e denv sa th te unit (p, h) = (result, p1, h1)" by (rule prod_cases3)
  obtain r p2 h2 where d: "deliver_store sa th (dv_store_fault te) result (p1, h1) = (r, p2, h2)" by (rule prod_cases3)
  have f1: "pool_frame h h1" "proc_frame p p1" using turn_execute_frame [OF eng x] by auto
  have f2: "pool_frame h h2" "proc_frame p p2"
    using deliver_store_frame [OF d] pool_frame_trans [OF f1(1)] f1(2) by auto
  show ?thesis
  proof (cases "te_deliver_fault te")
    case (Some y)
    obtain pl l where y: "y = (pl, l)" by (cases y)
    obtain r2 q2 g2 where c: "caught_panic th True pl id (raise_panic th l p1, h1) = (r2, q2, g2)" by (rule prod_cases3)
    with run al Some y x have "h' = remove_flag (u_ticket unit) g2"
      "p' = log_panic (th_id th) (delivery_panicked (u_ticket unit)) r2 q2" by (auto simp: worker_turn_def turn_alive_def Let_def)
    with caught_turn_frame [OF c f1(1) ring f1(2)] show ?thesis by simp
  next
    case None
    with False al obtain y where y: "dv_publish_fault te = Some y" by (auto simp: turn_faultless_def turn_alive_def)
    obtain pl l where pl: "y = (pl, l)" by (cases y)
    obtain r2 q2 g2 where c: "caught_panic th True pl id (raise_panic th l p2, h2) = (r2, q2, g2)" by (rule prod_cases3)
    with run al None y pl x d have "h' = remove_flag (u_ticket unit) g2"
      "p' = log_panic (th_id th) (publish_panicked (u_ticket unit)) r2 q2"
      by (auto simp: worker_turn_def deliver_def deliver_env.truncate_def turn_alive_def Let_def)
    with caught_turn_frame [OF c f2(1) ring f2(2)] show ?thesis by simp
  qed
qed

lemma buf_inv_handle: "buffers h' = buffers h \<Longrightarrow> buf_inv other p h us \<Longrightarrow> buf_inv other p h' us"
  by (simp add: buf_inv_def registry_inv_def slots_disjoint_def held_def)

lemma buf_inv_flag [simp]: "buf_inv other p (remove_flag t h) us = buf_inv other p h us"
  by (simp add: buf_inv_def registry_inv_def slots_disjoint_def held_def)

lemma turn_execute_inv:
  assumes ok: "sys_alloc_ok sa" and eng: "engine_buf_ok e denv" and inv: "buf_inv other p h (u_payload unit # us)"
    and run: "turn_execute e denv sa th te unit (p, h) = (res, p', h')"
  shows "\<exists>other'. buf_inv other' p' h' us"
proof (cases "te_execute_fault te")
  case None
  with run execute_unit_inv [OF ok eng inv] show ?thesis by (auto simp: turn_execute_def)
next
  case (Some x)
  obtain pl l where "x = (pl, l)" by (cases x)
  with run Some have c: "caught_panic th (ue_alive (te_unit te)) pl (\<lambda>m. lit ''worker fault outside the engine call: '' @ m)
      (drop_unit unit (raise_panic th l p), h) = (res, p', h')" by (simp add: turn_execute_def)
  have "buf_inv other (drop_unit unit (raise_panic th l p)) h us"
    unfolding drop_unit_def by (rule drop_payload_inv, rule buf_inv_guard_only [OF guard_only_raise inv])
  from caught_panic_inv [OF c this] show ?thesis by blast
qed

lemma deliver_store_inv:
  assumes ok: "sys_alloc_ok sa" and inv: "buf_inv other p h us" and run: "deliver_store sa th flt result (p, h) = (r, p', h')"
  shows "buf_inv other p' h' us"
proof (cases flt)
  case None
  with run materialize_result_inv [OF ok inv] show ?thesis by (auto simp: deliver_store_def guarded_def split: prod.splits)
next
  case (Some x)
  obtain pl l where "x = (pl, l)" by (cases x)
  with run Some have c: "caught_panic th True pl (\<lambda>m. lit ''worker fault storing the result: '' @ m) (raise_panic th l p, h) = (r, p', h')"
    by (simp add: deliver_store_def guarded_def)
  from caught_panic_inv [OF c buf_inv_guard_only [OF guard_only_raise inv]] show ?thesis .
qed

lemma worker_turn_inv:
  assumes ok: "sys_alloc_ok sa" and eng: "engine_buf_ok e denv" "engines_frame e denv" and inv: "buf_inv other p h (u_payload unit # us)"
    and ring: "ring_fine h" and run: "worker_turn be disp e denv sa th te unit (p, h) = Some (out, p', h')" and al: "turn_alive te"
  shows "\<exists>other'. buf_inv other' p' h' us"
proof -
  obtain result p1 h1 where x: "turn_execute e denv sa th te unit (p, h) = (result, p1, h1)" by (rule prod_cases3)
  from turn_execute_inv [OF ok eng(1) inv x] obtain o1 where i1: "buf_inv o1 p1 h1 us" by blast
  obtain r p2 h2 where d: "deliver_store sa th (dv_store_fault te) result (p1, h1) = (r, p2, h2)" by (rule prod_cases3)
  note i2 = deliver_store_inv [OF ok i1 d]
  have caught: "buf_inv o1 (log_panic me ln rr q2) (remove_flag t g2) us"
    if "caught_panic th True pl id (raise_panic th l q, g) = (rr, q2, g2)" "buf_inv o1 q g us" for pl l q g rr q2 g2 me ln t
    using caught_panic_inv [OF that(1) buf_inv_guard_only [OF guard_only_raise that(2)]]
      buf_inv_guard_only [OF guard_only_log_panic] by simp
  show ?thesis
  proof (cases "te_deliver_fault te")
    case (Some y)
    obtain pl l where y: "y = (pl, l)" by (cases y)
    obtain r2 q2 g2 where c: "caught_panic th True pl id (raise_panic th l p1, h1) = (r2, q2, g2)" by (rule prod_cases3)
    from caught [OF c i1] run al Some y x c show ?thesis by (fastforce simp: worker_turn_def turn_alive_def Let_def)
  next
    case None
    show ?thesis
    proof (cases "dv_publish_fault te")
      case (Some y)
      obtain pl l where y: "y = (pl, l)" by (cases y)
      obtain r2 q2 g2 where c: "caught_panic th True pl id (raise_panic th l p2, h2) = (r2, q2, g2)" by (rule prod_cases3)
      from caught [OF c i2] run al None Some y x d c show ?thesis
        by (fastforce simp: worker_turn_def deliver_def deliver_env.truncate_def turn_alive_def Let_def)
    next
      case n: None
      obtain h3 where c: "complete be (th_id th) disp (dv_writes te) (u_ticket unit) r (wants_inline unit) (p2, h2) = Some (out, p', h3)"
        and h': "h' = remove_flag (u_ticket unit) h3"
        using run al None n x d by (auto simp: worker_turn_def deliver_def turn_alive_def deliver_env.truncate_def Let_def)
      have fine: "ring_fine h2"
        using ring pool_frame_fields(7) pool_frame_trans turn_execute_frame [OF eng(2) x] deliver_store_frame [OF d] by blast
      have "buffers h3 = buffers h2" using complete_frame [OF c fine] by (cases h2; cases h3) (simp add: only_outcome_def)
      moreover obtain lg where "p' = p2\<lparr>log := lg\<rparr>" using complete_log [OF c] by blast
      then have "guard_only p2 p'" by (simp add: guard_only_def)
      ultimately have "buf_inv o1 p' h3 us" using buf_inv_handle buf_inv_guard_only i2 by blast
      then show ?thesis by (auto simp: h')
    qed
  qed
qed

subsection \<open>A concrete pool\<close>

text \<open>An echoing engine, a unit for it, and a turn that meets no fault and a pipe that takes the ticket.\<close>

definition echo_engines :: engines where
  "echo_engines = set_engine_handler (\<lambda>th ctx input st. (Done (Inr (OutBytes input)), st)) engines_init"

definition demo_unit :: WorkUnit where
  "demo_unit = \<lparr>u_ticket = 7, u_ctx = JobContext_new 0 CallHeader_default 7,
     u_payload = Small 2 ([1, 2] @ replicate 54 0), u_input_buffer_id = 0\<rparr>"

definition demo_turn :: "fault \<Rightarrow> turn_env" where
  "demo_turn flt = \<lparr>dv_alive = True, dv_store_fault = None, dv_publish_fault = None,
     dv_writes = [\<lparr>ae_fd = 3, ae_script = [Wrote 8], ae_closed = False, ae_elapsed = 0\<rparr>],
     te_unit = \<lparr>ue_dequeued = 0, ue_start = 0, ue_end = 0, ue_alive = True\<rparr>, te_execute_fault = None,
     te_deliver_fault = flt, te_alive_end = True\<rparr>"

definition demo_thread :: thread where
  "demo_thread = \<lparr>th_id = 1, th_name = Some (lit ''gusset-w0'')\<rparr>"

lemma echo_dispatch: "default_dispatch echo_engines denv th ctx input st =
    (if opcode ctx \<noteq> 0 then (Done (Inl (no_engine_for (opcode ctx))), st) else (Done (Inr (OutBytes input)), st))"
  by (simp add: default_dispatch_def echo_engines_def set_engine_handler_def engines_init_def)

lemma echo_ok: "engines_frame echo_engines denv" "engine_buf_ok echo_engines denv"
  by (auto simp: engines_frame_def engine_buf_ok_def echo_dispatch split: if_splits)

lemma demo_check: "check t (\<lambda>_. False) (JobContext_new 0 CallHeader_default c) = Inr ()"
  by (simp add: check_def CallHeader_default_def resolve_deadline_def)

lemma demo_execute:
  "execute_unit echo_engines quiet_env sa demo_thread \<lparr>ue_dequeued = 0, ue_start = 0, ue_end = 0, ue_alive = True\<rparr> demo_unit
     (process_init, h) = (ResOk [1, 2], process_init, h)"
proof -
  have t: "take_panic_location demo_thread process_init = (None, process_init)"
    by (simp add: take_panic_location_def process_init_def)
  have c: "check 0 (cells process_init) (u_ctx demo_unit) = Inr ()"
    by (simp add: demo_unit_def process_init_def demo_check)
  have o: "opcode (mark_dequeued 0 (u_ctx demo_unit)) = 0"
    by (simp add: opcode_def mark_dequeued_def demo_unit_def CallHeader_default_def)
  have d: "drop_unit demo_unit process_init = process_init" by (simp add: drop_unit_def demo_unit_def)
  show ?thesis by (simp add: execute_unit_def c t echo_dispatch o unit_result_def Let_def d) (simp add: demo_unit_def)
qed

lemma demo_run:
  "\<exists>p'. worker_turn False (\<lambda>_. []) echo_engines quiet_env bump_alloc demo_thread (demo_turn None) demo_unit
      (process_init, Handle_new 1 True)
    = Some ([InPipe (bare_record False 7)], p', remove_flag 7 (store_result 7 (ResOk [1, 2]) (Handle_new 1 True)))"
proof -
  let ?env = "[\<lparr>ae_fd = 3, ae_script = [Wrote 8], ae_closed = False, ae_elapsed = 0\<rparr>]"
  let ?rec = "bare_record False 7" and ?h = "store_result 7 (ResOk [1, 2]) (Handle_new 1 True)"
  have l: "length ?rec = 8" by (simp add: bare_record_def)
  then have ne: "?rec \<noteq> []" by auto
  have "fst (write_record_attempt 3 ?rec [Wrote 8]) = Some (Inr ())"
    using ne l by (simp add: write_record_attempt_def write_loop_start_def write_loop_eqs)
  then obtain w where "write_completion ?env 7 ?rec write_state_start = (Some (Inr ()), w)"
    by (cases "write_record_attempt 3 ?rec [Wrote 8]") auto
  then obtain p' where pub: "publish_completion 1 (\<lambda>_. []) ?env 7 ?rec (process_init, ?h) = Some (True, p', ?h)"
    by (auto simp: publish_completion_def)
  have ring: "h_ring ?h = None" by (simp add: Handle_new_def store_result_def)
  have m: "materialize_result bump_alloc (ResOk [1, 2]) (process_init, Handle_new 1 True) = (ResOk [1, 2], process_init, Handle_new 1 True)"
    by (simp add: materialize_result_def MAX_BUFFER_BYTES_def MAX_INLINE_INPUT_def)
  have w: "\<not> wants_inline demo_unit" by (simp add: wants_inline_def demo_unit_def CallHeader_default_def)
  have "goes_inline (Handle_new 1 True) False (ResOk [1, 2]) = None" by (simp add: goes_inline_def)
  with pub ring have "complete False 1 (\<lambda>_. []) ?env 7 (ResOk [1, 2]) False (process_init, Handle_new 1 True)
      = Some ([InPipe ?rec], p', ?h)" by (simp add: complete_def announce_def)
  with m w show ?thesis
    by (simp add: worker_turn_def turn_execute_def demo_turn_def demo_execute deliver_def deliver_store_def guarded_def
        deliver_env.truncate_def Let_def) (simp add: demo_thread_def demo_unit_def)
qed

subsection \<open>Properties\<close>







text \<open>Running a unit keeps memory sound. With an engine that itself respects the registry, after the
  unit ran and dropped its input every registered buffer and every other unit's input is live and counted
  (\<open>buf_inv\<close> without the unit), and a buffer returned as the result is a registered output, claimed for this
  result alone.\<close>

theorem unit_memory_safe:
  assumes "sys_alloc_ok sa" and "engine_buf_ok e denv" and "buf_inv other p h (u_payload unit # us)"
    and "execute_unit e denv sa th ue unit (p, h) = (res, p', h')"
  shows "(\<exists>other'. buf_inv other' p' h' us) \<and> result_ok h' res"
  using assms by (rule execute_unit_inv)

theorem unit_memory_safe_witness:
  "\<exists>other. buf_inv other process_init (Handle_new 1 True) []"
proof -
  have "buf_inv {} process_init (Handle_new 1 True) [u_payload demo_unit]"
    using buf_inv_init(1) [of 1 True] buf_inv_payload_free [of "u_payload demo_unit"] by (simp add: demo_unit_def)
  from unit_memory_safe [OF bump_alloc_ok echo_ok(2) this demo_execute] show ?thesis by blast
qed

end
