(* ===== verification/Spawn.thy ===== *)
theory Spawn
  imports Worker
begin

text \<open>
  Starting, reaping and replacing worker threads (\<open>pool/worker.rs\<close>). What the operating system answers to
  each spawn and what the new thread finds at its start are a script; which workers have ended by the time
  the pool looks is an argument. A worker's exit is an event of its own (\<open>exit_mark\<close>), so it can fall
  between any two steps of a respawn.
\<close>

subsection \<open>A worker's start\<close>

text \<open>One spawn: the new thread or the error of \<open>Builder::spawn\<close>; whether SIGPIPE could be blocked, whether
  the alternate signal stack was installed, the stack size read back; and what the spawner's wait saw.\<close>

datatype wait_end = InTime | TooLate | HungUp

record spawn_env =
  se_thread :: "rstr + nat"
  se_sigpipe :: bool
  se_altstack :: bool
  se_stack :: "nat option"
  se_wait :: wait_end

definition worker_name :: "u64 \<Rightarrow> rstr" where
  "worker_name wid = lit ''gusset-w'' @ show_nat (unat wid)"

definition altstack_refused :: "u64 \<Rightarrow> rstr" where
  "altstack_refused wid = lit ''worker '' @ worker_name wid
     @ lit '' could not install its sigaltstack (mmap, mprotect or sigaltstack failed); refusing to run without it (I5/R8)''"

text \<open>The thread's body up to its loop: its startup report, and the lines it logged.\<close>

definition worker_start :: "nat \<Rightarrow> u64 \<Rightarrow> spawn_env \<Rightarrow> process \<Rightarrow> (rstr + unit) \<times> process" where
  "worker_start tid wid se p =
     (let p1 = (if se_sigpipe se then p
                else log_line tid (lit ''gusset: worker '' @ worker_name wid
                  @ lit '' could not block SIGPIPE; a write to a closed pipe from this thread will terminate the process'') p)
      in if \<not> se_altstack se then
           (Inl (altstack_refused wid), log_line tid (lit ''gusset: '' @ altstack_refused wid) p1)
         else
           (Inr (),
            case se_stack se of
              Some got \<Rightarrow>
                if got < WORKER_STACK_SIZE then
                  log_line tid (lit ''gusset: worker '' @ worker_name wid @ lit '' has a '' @ show_nat got
                    @ lit '' byte stack, below the requested '' @ show_nat WORKER_STACK_SIZE
                    @ lit '' bytes; deep engine recursion may overflow (I5/R8)'') p1
                else p1
            | None \<Rightarrow>
                log_line tid (lit ''gusset: worker '' @ worker_name wid
                  @ lit '' could not read back its stack size; the 8 MiB guarantee is unverified on this platform (I5/R8)'') p1))"

text \<open>\<open>ExitMark\<close>: counted on any exit.\<close>

definition exit_mark :: "Handle \<Rightarrow> Handle" where
  "exit_mark h = h\<lparr>exited := exited h + 1\<rparr>"

text \<open>A spawned worker whose report has not been collected: its thread, its id, what \<open>recv_timeout\<close> will
  give.\<close>

datatype wait_result = Reported "rstr + unit" | Timeout | Disconnected

record Startup =
  su_thread :: nat
  su_worker_id :: u64
  su_ready :: wait_result

fun wait_result_of :: "wait_end \<Rightarrow> rstr + unit \<Rightarrow> wait_result" where
  "wait_result_of InTime r = Reported r"
| "wait_result_of TooLate r = Timeout"
| "wait_result_of HungUp r = Disconnected"

text \<open>\<open>spawn_workers_locked\<close>: a failed spawn returns at once, leaving the earlier threads registered and
  their reports uncollected. A script shorter than the count ends in such a failure.\<close>

fun spawn_workers_locked ::
  "spawn_env list \<Rightarrow> nat \<Rightarrow> process \<times> Handle \<Rightarrow> (rstr + Startup list) \<times> process \<times> Handle" where
  "spawn_workers_locked ses 0 st = (Inr [], st)"
| "spawn_workers_locked [] (Suc n) st = (Inl (lit ''failed to spawn worker thread: ''), st)"
| "spawn_workers_locked (se # ses) (Suc n) (p, h) =
     (let wid = next_worker_id h; h1 = h\<lparr>next_worker_id := wid + 1\<rparr>
      in case se_thread se of
           Inl e \<Rightarrow> (Inl (lit ''failed to spawn worker thread: '' @ e), p, h1)
         | Inr tid \<Rightarrow>
             (let (r, p1) = worker_start tid wid se p;
                  su = \<lparr>su_thread = tid, su_worker_id = wid, su_ready = wait_result_of (se_wait se) r\<rparr>;
                  (rest, st2) = spawn_workers_locked ses n
                    (p1, h1\<lparr>workers := workers h1 @ [\<lparr>wk_thread = tid, wk_id = wid\<rparr>]\<rparr>)
              in (map_sum id (\<lambda>sus. su # sus) rest, st2)))"

subsection \<open>Collecting the reports\<close>

definition not_ready_line :: "u64 \<Rightarrow> rstr" where
  "not_ready_line wid = lit ''gusset: worker '' @ worker_name wid
     @ lit '' did not report ready within 10s; continuing without confirmation of its sigaltstack''"

fun startup_outcome :: "Startup \<Rightarrow> rstr + unit" where
  "startup_outcome su =
     (case su_ready su of
        Reported r \<Rightarrow> r
      | Timeout \<Rightarrow> Inr ()
      | Disconnected \<Rightarrow> Inl (lit ''worker '' @ worker_name (su_worker_id su) @ lit '' exited during startup''))"

text \<open>Joining threads on thread \<open>th\<close>: \<open>died\<close> is the payload of one that died by a panic.\<close>

definition join_all :: "thread \<Rightarrow> (nat \<Rightarrow> payload option) \<Rightarrow> worker list \<Rightarrow> process \<Rightarrow> process" where
  "join_all th died ws p =
     fold (\<lambda>w q. case died (wk_thread w) of Some pl \<Rightarrow> drop_panic_payload th pl q | None \<Rightarrow> q) ws p"

text \<open>The removal of a failed worker. \<open>dead\<close> are the threads whose exit is already counted; joining one that
  is not waits for its exit mark.\<close>

definition remove_failed :: "nat set \<Rightarrow> nat \<Rightarrow> Handle \<Rightarrow> Handle" where
  "remove_failed dead tid h =
     (case position (\<lambda>w. wk_thread w = tid) (workers h) of
        None \<Rightarrow> h\<lparr>respawn_pending := True\<rparr>
      | Some at \<Rightarrow>
          (let h1 = h\<lparr>workers := swap_remove at (workers h)\<rparr>;
               h2 = (if tid \<in> dead then h1 else exit_mark h1)
           in h2\<lparr>exited := exited h2 - 1, respawn_pending := True\<rparr>))"

definition join_failed :: "thread \<Rightarrow> (nat \<Rightarrow> payload option) \<Rightarrow> nat \<Rightarrow> Handle \<Rightarrow> process \<Rightarrow> process" where
  "join_failed th died tid h p =
     (case position (\<lambda>w. wk_thread w = tid) (workers h) of
        None \<Rightarrow> p
      | Some at \<Rightarrow> join_all th died [workers h ! at] p)"

fun await_ready ::
  "thread \<Rightarrow> (nat \<Rightarrow> payload option) \<Rightarrow> nat set \<Rightarrow> Startup list \<Rightarrow> process \<times> Handle \<Rightarrow> (rstr + unit) \<times> process \<times> Handle" where
  "await_ready th died dead [] st = (Inr (), st)"
| "await_ready th died dead (su # sus) (p, h) =
     (let p1 = (if su_ready su = Timeout then log_line (th_id th) (not_ready_line (su_worker_id su)) p else p)
      in case startup_outcome su of
           Inr _ \<Rightarrow> await_ready th died dead sus (p1, h)
         | Inl msg \<Rightarrow>
             (let (_, st2) = await_ready th died dead sus
                    (join_failed th died (su_thread su) h p1, remove_failed dead (su_thread su) h)
              in (Inl (lit ''gusset: '' @ msg), st2)))"

definition spawn_workers ::
  "thread \<Rightarrow> (nat \<Rightarrow> payload option) \<Rightarrow> nat set \<Rightarrow> spawn_env list \<Rightarrow> nat \<Rightarrow> process \<times> Handle \<Rightarrow> (rstr + unit) \<times> process \<times> Handle" where
  "spawn_workers th died dead ses n st =
     (case spawn_workers_locked ses n st of
        (Inl e, st1) \<Rightarrow> (Inl e, st1)
      | (Inr starting, st1) \<Rightarrow> await_ready th died dead starting st1)"

subsection \<open>Replacing dead workers\<close>

definition nothing_to_do :: "Handle \<Rightarrow> bool" where
  "nothing_to_do h \<longleftrightarrow> exited h = 0 \<and> \<not> respawn_pending h"

text \<open>The part of \<open>ensure_workers\<close> under the \<open>workers\<close> lock: \<open>fin\<close> are the threads \<open>is_finished\<close> reports.\<close>

definition reap_and_spawn ::
  "thread \<Rightarrow> (nat \<Rightarrow> bool) \<Rightarrow> (nat \<Rightarrow> payload option) \<Rightarrow> spawn_env list \<Rightarrow> process \<times> Handle
    \<Rightarrow> (rstr + Startup list) \<times> process \<times> Handle" where
  "reap_and_spawn th fin died ses st =
     (let (p, h) = st;
          h1 = h\<lparr>respawn_pending := True\<rparr>;
          done_ws = filter (\<lambda>w. fin (wk_thread w)) (workers h1);
          h2 = h1\<lparr>workers := filter (\<lambda>w. \<not> fin (wk_thread w)) (workers h1), exited := exited h1 - length done_ws\<rparr>;
          p2 = join_all th died done_ws p
      in if length (workers h2) < h_pool_size h2
         then spawn_workers_locked ses (h_pool_size h2 - length (workers h2)) (p2, h2)
         else (Inr [], p2, h2))"

definition finish_respawn ::
  "thread \<Rightarrow> (nat \<Rightarrow> payload option) \<Rightarrow> nat set \<Rightarrow> Startup list \<Rightarrow> process \<times> Handle \<Rightarrow> (rstr + unit) \<times> process \<times> Handle" where
  "finish_respawn th died dead starting st =
     (case await_ready th died dead starting st of
        (Inl e, st1) \<Rightarrow> (Inl e, st1)
      | (Inr _, p1, h1) \<Rightarrow> (Inr (), p1, h1\<lparr>respawn_pending := False\<rparr>))"

definition ensure_workers ::
  "thread \<Rightarrow> (nat \<Rightarrow> bool) \<Rightarrow> (nat \<Rightarrow> payload option) \<Rightarrow> nat set \<Rightarrow> spawn_env list \<Rightarrow> process \<times> Handle
    \<Rightarrow> (rstr + unit) \<times> process \<times> Handle" where
  "ensure_workers th fin died dead ses st =
     (if nothing_to_do (snd st) then (Inr (), st)
      else if h_closed (snd st) then (Inr (), st)
      else
        (case reap_and_spawn th fin died ses st of
           (Inl e, st1) \<Rightarrow> (Inl e, st1)
         | (Inr starting, st1) \<Rightarrow> finish_respawn th died dead starting st1))"

subsection \<open>Lemmas\<close>

definition tids :: "spawn_env list \<Rightarrow> nat list" where
  "tids ses = concat (map (\<lambda>se. case se_thread se of Inr t \<Rightarrow> [t] | Inl _ \<Rightarrow> []) ses)"

abbreviation threads :: "Handle \<Rightarrow> nat list" where
  "threads h \<equiv> map wk_thread (workers h)"

text \<open>A step that only adds workers.\<close>

definition adds_workers :: "nat list \<Rightarrow> Handle \<Rightarrow> Handle \<Rightarrow> bool" where
  "adds_workers ts h h' \<longleftrightarrow> threads h' = threads h @ ts
     \<and> h' = h\<lparr>workers := workers h', next_worker_id := next_worker_id h'\<rparr>"

lemma adds_workers_fields:
  "adds_workers ts h h' \<Longrightarrow> exited h' = exited h \<and> respawn_pending h' = respawn_pending h
    \<and> h_pool_size h' = h_pool_size h \<and> h_closed h' = h_closed h"
  by (cases h; cases h') (simp add: adds_workers_def)

lemma adds_workers_step:
  "adds_workers ts (h\<lparr>next_worker_id := wid, workers := workers h @ [\<lparr>wk_thread = t, wk_id = i\<rparr>]\<rparr>) h' \<Longrightarrow>
     adds_workers (t # ts) h h'"
  by (cases h; cases h') (simp add: adds_workers_def)

lemma spawn_locked_spec:
  assumes "spawn_workers_locked ses n (p, h) = (r, p', h')"
  shows "\<exists>ts. adds_workers ts h h' \<and> (\<exists>rest. tids ses = ts @ rest) \<and> length ts \<le> n
    \<and> (\<forall>sus. r = Inr sus \<longrightarrow> map su_thread sus = ts \<and> length ts = n)"
  using assms
proof (induction ses n "(p, h)" arbitrary: p h r p' h' rule: spawn_workers_locked.induct)
  case (1 ses)
  then show ?case by (auto simp: adds_workers_def intro!: exI [of _ "[]"])
next
  case (2 n)
  then show ?case by (auto simp: adds_workers_def intro!: exI [of _ "[]"])
next
  case (3 se ses n p h)
  show ?case
  proof (cases "se_thread se")
    case (Inl e)
    with 3(2) show ?thesis by (intro exI [of _ "[]"]) (auto simp: adds_workers_def Let_def)
  next
    case (Inr tid)
    let ?wid = "next_worker_id h"
    obtain sr p1 where w: "worker_start tid ?wid se p = (sr, p1)" by force
    let ?h1 = "h\<lparr>next_worker_id := ?wid + 1, workers := workers h @ [\<lparr>wk_thread = tid, wk_id = ?wid\<rparr>]\<rparr>"
    obtain rest p2 h2 where x: "spawn_workers_locked ses n (p1, ?h1) = (rest, p2, h2)" by (rule prod_cases3)
    from 3(1) [OF refl refl Inr w [symmetric] refl refl, of rest p2 h2] x obtain ts where
      ts: "adds_workers ts ?h1 h2" "\<exists>rest. tids ses = ts @ rest" "length ts \<le> n"
        "\<forall>sus. rest = Inr sus \<longrightarrow> map su_thread sus = ts \<and> length ts = n" by auto
    have res: "r = map_sum id ((#) \<lparr>su_thread = tid, su_worker_id = ?wid, su_ready = wait_result_of (se_wait se) sr\<rparr>) rest"
      "p' = p2" "h' = h2"
      using 3(2) Inr w x by (auto simp: Let_def)
    have "adds_workers (tid # ts) h h2" using adds_workers_step [OF ts(1)] .
    moreover have "\<exists>rest. tids (se # ses) = (tid # ts) @ rest" using ts(2) Inr by (auto simp: tids_def)
    moreover have "\<forall>sus. r = Inr sus \<longrightarrow> map su_thread sus = tid # ts \<and> length (tid # ts) = Suc n"
      using res(1) ts(4) by (cases rest) auto
    ultimately show ?thesis using ts(3) res by (intro exI [of _ "tid # ts"]) auto
  qed
qed

lemma position_worker:
  "position (\<lambda>w. wk_thread w = t) ws = Some i \<Longrightarrow> i < length ws \<and> wk_thread (ws ! i) = t"
  using position_SomeD by fastforce

definition counted :: "nat set \<Rightarrow> Handle \<Rightarrow> nat" where
  "counted dead h = length (filter (\<lambda>w. wk_thread w \<in> dead) (workers h))"

definition same_crew :: "Handle \<Rightarrow> Handle \<Rightarrow> bool" where
  "same_crew h h' \<longleftrightarrow> h_pool_size h' = h_pool_size h \<and> h_closed h' = h_closed h"

lemma remove_failed_spec:
  assumes "exited h = counted dead h" and "distinct (threads h)"
  shows "exited (remove_failed dead t h) = counted dead (remove_failed dead t h)"
    and "distinct (threads (remove_failed dead t h))" and "set (threads (remove_failed dead t h)) \<subseteq> set (threads h)"
    and "length (workers (remove_failed dead t h)) \<le> length (workers h)"
    and "respawn_pending (remove_failed dead t h)" and "same_crew h (remove_failed dead t h)"
proof -
  have "exited (remove_failed dead t h) = counted dead (remove_failed dead t h) \<and> distinct (threads (remove_failed dead t h))
      \<and> set (threads (remove_failed dead t h)) \<subseteq> set (threads h) \<and> length (workers (remove_failed dead t h)) \<le> length (workers h)"
  proof (cases "position (\<lambda>w. wk_thread w = t) (workers h)")
    case None
    with assms show ?thesis by (simp add: remove_failed_def counted_def)
  next
    case (Some i)
    note i = position_worker [OF Some]
    let ?ws = "swap_remove i (workers h)"
    have ms: "mset (workers h) = add_mset (workers h ! i) (mset ?ws)" using i by (simp add: mset_swap_remove)
    have d: "distinct (wk_thread (workers h ! i) # map wk_thread ?ws)"
      using assms(2) mset_eq_imp_distinct_iff [of "map wk_thread (workers h)" "map wk_thread (workers h ! i # ?ws)"] ms by simp
    have st: "set (workers h) = insert (workers h ! i) (set ?ws)" using arg_cong [OF ms, of set_mset] by simp
    have len: "length (workers h) = Suc (length ?ws)" using arg_cong [OF ms, of size] by simp
    have "mset (filter (\<lambda>w. wk_thread w \<in> dead) (workers h))
        = mset (filter (\<lambda>w. wk_thread w \<in> dead) (workers h ! i # ?ws))" using ms by simp
    from mset_eq_length [OF this] i have "counted dead h = (if t \<in> dead then 1 else 0) + length (filter (\<lambda>w. wk_thread w \<in> dead) ?ws)"
      by (simp add: counted_def)
    with Some assms(1) d st len show ?thesis
      by (auto simp: remove_failed_def counted_def exit_mark_def Let_def)
  qed
  then show "exited (remove_failed dead t h) = counted dead (remove_failed dead t h)"
    "distinct (threads (remove_failed dead t h))" "set (threads (remove_failed dead t h)) \<subseteq> set (threads h)"
    "length (workers (remove_failed dead t h)) \<le> length (workers h)" by auto
  show "respawn_pending (remove_failed dead t h)" "same_crew h (remove_failed dead t h)"
    by (simp_all add: remove_failed_def exit_mark_def same_crew_def Let_def split: option.split)
qed

lemma await_ready_spec:
  assumes "await_ready th died dead sus (p, h) = (r, p', h')" and "exited h = counted dead h" and "distinct (threads h)"
  shows "exited h' = counted dead h' \<and> distinct (threads h') \<and> set (threads h') \<subseteq> set (threads h)
    \<and> length (workers h') \<le> length (workers h) \<and> same_crew h h'
    \<and> (respawn_pending h \<longrightarrow> respawn_pending h')
    \<and> (case r of Inr _ \<Rightarrow> h' = h | Inl _ \<Rightarrow> respawn_pending h')"
  using assms
proof (induction th died dead sus "(p, h)" arbitrary: p h r p' h' rule: await_ready.induct)
  case (1 th died dead)
  then show ?case by (auto simp: same_crew_def)
next
  case (2 th died dead su sus p h)
  let ?p1 = "if su_ready su = Timeout then log_line (th_id th) (not_ready_line (su_worker_id su)) p else p"
  show ?case
  proof (cases "startup_outcome su")
    case (Inr x)
    then have "await_ready th died dead sus (?p1, h) = (r, p', h')" using "2.prems"(1) by (simp add: Let_def)
    from 2(2) [OF refl Inr this "2.prems"(2,3)] show ?thesis .
  next
    case (Inl msg)
    let ?h1 = "remove_failed dead (su_thread su) h"
    obtain r2 p2 h2 where x: "await_ready th died dead sus (join_failed th died (su_thread su) h ?p1, ?h1) = (r2, p2, h2)" by (rule prod_cases3)
    note rf = remove_failed_spec [OF "2.prems"(2,3), of "su_thread su"]
    note ih = 2(1) [OF refl Inl x rf(1,2)]
    have "set (threads h2) \<subseteq> set (threads h)" using ih rf(3) by (meson order_trans)
    with ih rf(4-6) have
      "exited h2 = counted dead h2 \<and> distinct (threads h2) \<and> set (threads h2) \<subseteq> set (threads h)
        \<and> length (workers h2) \<le> length (workers h) \<and> same_crew h h2 \<and> respawn_pending h2"
      by (auto simp: same_crew_def)
    moreover have "r = Inl (lit ''gusset: '' @ msg)" "h' = h2" using "2.prems"(1) Inl x by (simp_all add: Let_def)
    ultimately show ?thesis by simp
  qed
qed

subsection \<open>The crew over time\<close>

text \<open>
  The handle with the threads whose exit is counted, the thread ids handed out so far (the operating system
  never reuses one within a process), and the reports a respawn in progress is waiting for. A respawn takes two
  steps, before and after the \<open>workers\<close> lock is released; \<open>respawn_lock\<close> keeps a second one out.
\<close>

record crew =
  cr_h :: Handle
  cr_dead :: "nat set"
  cr_used :: "nat set"
  cr_starting :: "Startup list option"

inductive crew_step :: "crew \<Rightarrow> crew \<Rightarrow> bool" where
  worker_exits: "w \<in> set (workers (cr_h s)) \<Longrightarrow> wk_thread w \<notin> cr_dead s \<Longrightarrow>
     crew_step s (s\<lparr>cr_h := exit_mark (cr_h s), cr_dead := insert (wk_thread w) (cr_dead s)\<rparr>)"
| respawn_refused: "cr_starting s = None \<Longrightarrow> \<not> nothing_to_do (cr_h s) \<Longrightarrow> \<not> h_closed (cr_h s) \<Longrightarrow>
     (\<And>t. fin t \<Longrightarrow> t \<in> cr_dead s) \<Longrightarrow> distinct (tids ses) \<Longrightarrow> set (tids ses) \<inter> cr_used s = {} \<Longrightarrow>
     reap_and_spawn th fin died ses (p, cr_h s) = (Inl e, p', h') \<Longrightarrow>
     crew_step s (s\<lparr>cr_h := h', cr_used := cr_used s \<union> set (tids ses)\<rparr>)"
| respawn_begins: "cr_starting s = None \<Longrightarrow> \<not> nothing_to_do (cr_h s) \<Longrightarrow> \<not> h_closed (cr_h s) \<Longrightarrow>
     (\<And>t. fin t \<Longrightarrow> t \<in> cr_dead s) \<Longrightarrow> distinct (tids ses) \<Longrightarrow> set (tids ses) \<inter> cr_used s = {} \<Longrightarrow>
     reap_and_spawn th fin died ses (p, cr_h s) = (Inr sus, p', h') \<Longrightarrow>
     crew_step s (s\<lparr>cr_h := h', cr_used := cr_used s \<union> set (tids ses), cr_starting := Some sus\<rparr>)"
| respawn_ends: "cr_starting s = Some sus \<Longrightarrow> finish_respawn th died (cr_dead s) sus (p, cr_h s) = (r, p', h') \<Longrightarrow>
     crew_step s (s\<lparr>cr_h := h', cr_starting := None\<rparr>)"

definition crew_inv :: "crew \<Rightarrow> bool" where
  "crew_inv s \<longleftrightarrow>
     (let h = cr_h s
      in distinct (threads h) \<and> set (threads h) \<subseteq> cr_used s \<and> cr_dead s \<subseteq> cr_used s
         \<and> exited h = counted (cr_dead s) h \<and> length (workers h) \<le> h_pool_size h
         \<and> (cr_starting s \<noteq> None \<longrightarrow> respawn_pending h \<and> length (workers h) = h_pool_size h)
         \<and> (\<not> respawn_pending h \<longrightarrow> length (workers h) = h_pool_size h))"

lemma counted_adds:
  assumes "adds_workers ts h h'" and "set ts \<inter> dead = {}"
  shows "counted dead h' = counted dead h"
proof -
  have c: "counted dead g = length (filter (\<lambda>t. t \<in> dead) (threads g))" for g
    by (simp add: counted_def filter_map comp_def)
  have "filter (\<lambda>t. t \<in> dead) ts = []" using assms(2) by (auto simp: filter_empty_conv)
  with assms(1) show ?thesis by (simp add: c adds_workers_def)
qed

lemma reap_spec:
  assumes inv: "crew_inv s" and fin: "\<And>t. fin t \<Longrightarrow> t \<in> cr_dead s" and fresh: "distinct (tids ses)" "set (tids ses) \<inter> cr_used s = {}"
    and run: "reap_and_spawn th fin died ses (p, cr_h s) = (r, p', h')"
  shows "distinct (threads h') \<and> set (threads h') \<subseteq> cr_used s \<union> set (tids ses) \<and> exited h' = counted (cr_dead s) h'
    \<and> length (workers h') \<le> h_pool_size h' \<and> respawn_pending h' \<and> h_pool_size h' = h_pool_size (cr_h s)
    \<and> (\<forall>sus. r = Inr sus \<longrightarrow> length (workers h') = h_pool_size h')"
proof -
  let ?h = "cr_h s" and ?live = "filter (\<lambda>w. \<not> fin (wk_thread w)) (workers (cr_h s))"
  let ?done = "filter (\<lambda>w. fin (wk_thread w)) (workers (cr_h s))"
  let ?h2 = "?h\<lparr>respawn_pending := True, workers := ?live, exited := exited ?h - length ?done\<rparr>"
  have i: "distinct (threads ?h)" "set (threads ?h) \<subseteq> cr_used s" "cr_dead s \<subseteq> cr_used s" "exited ?h = counted (cr_dead s) ?h"
    "length (workers ?h) \<le> h_pool_size ?h" using inv by (auto simp: crew_inv_def Let_def)
  have "length (filter (\<lambda>w. wk_thread w \<in> cr_dead s) (workers ?h))
      = length (filter (\<lambda>w. wk_thread w \<in> cr_dead s) ?live) + length (filter (\<lambda>w. wk_thread w \<in> cr_dead s) ?done)"
    using sum_length_filter_compl [of "\<lambda>w. fin (wk_thread w)" "filter (\<lambda>w. wk_thread w \<in> cr_dead s) (workers ?h)"]
    by (simp add: conj_commute add.commute)
  moreover have "filter (\<lambda>w. wk_thread w \<in> cr_dead s) ?done = ?done" by (rule filter_True) (auto simp: fin)
  ultimately have ex: "exited ?h2 = counted (cr_dead s) ?h2" using i(4) by (simp add: counted_def)
  have d2: "distinct (threads ?h2)" using i(1) by (simp add: distinct_map_filter)
  have s2: "set (threads ?h2) \<subseteq> cr_used s" using i(2) by auto
  have len2: "length (workers ?h2) \<le> h_pool_size ?h2" using i(5) le_trans [OF length_filter_le] by simp
  show ?thesis
  proof (cases "length (workers ?h2) < h_pool_size ?h2")
    case False
    with run have "h' = ?h2" by (auto simp: reap_and_spawn_def Let_def)
    with False d2 s2 ex len2 show ?thesis by auto
  next
    case True
    then have run2: "spawn_workers_locked ses (h_pool_size ?h2 - length (workers ?h2)) (join_all th died ?done p, ?h2) = (r, p', h')"
      using run by (simp add: reap_and_spawn_def Let_def)
    from spawn_locked_spec [OF this] obtain ts where ts: "adds_workers ts ?h2 h'" "\<exists>rest. tids ses = ts @ rest"
      "length ts \<le> h_pool_size ?h2 - length (workers ?h2)"
      "\<forall>sus. r = Inr sus \<longrightarrow> map su_thread sus = ts \<and> length ts = h_pool_size ?h2 - length (workers ?h2)" by blast
    have tsub: "set ts \<subseteq> set (tids ses)" "distinct ts" using ts(2) fresh(1) by auto
    have c: "counted (cr_dead s) h' = counted (cr_dead s) ?h2" using tsub fresh(2) i(3) by (intro counted_adds [OF ts(1)]) auto
    have th: "threads h' = threads ?h2 @ ts" using ts(1) by (simp add: adds_workers_def)
    from arg_cong [OF th, of length] have l: "length (workers h') = length (workers ?h2) + length ts" by simp
    note f = adds_workers_fields [OF ts(1)]
    have "distinct (threads h')" using th d2 tsub s2 fresh(2) by auto
    moreover have "set (threads h') \<subseteq> cr_used s \<union> set (tids ses)" using th s2 tsub by auto
    ultimately show ?thesis using c ex f l ts(3,4) True by auto
  qed
qed

lemma filter_insert_one:
  "distinct (map f xs) \<Longrightarrow> x \<in> set xs \<Longrightarrow> f x \<notin> D \<Longrightarrow>
     length (filter (\<lambda>v. f v \<in> insert (f x) D) xs) = Suc (length (filter (\<lambda>v. f v \<in> D) xs))"
proof (induction xs)
  case (Cons y ys)
  have "filter (\<lambda>v. f v \<in> insert (f x) D) ys = filter (\<lambda>v. f v \<in> D) ys" if "y = x"
    using Cons.prems that by (intro filter_cong) (auto simp: image_iff)
  moreover have "f y \<noteq> f x" if "y \<noteq> x" using Cons.prems that by auto
  ultimately show ?case using Cons by auto
qed simp

lemma crew_step_inv:
  assumes "crew_step s s'" and "crew_inv s"
  shows "crew_inv s'"
  using assms
proof (induction rule: crew_step.induct)
  case (worker_exits w s)
  then have "counted (insert (wk_thread w) (cr_dead s)) (cr_h s) = Suc (counted (cr_dead s) (cr_h s))"
    unfolding counted_def by (intro filter_insert_one) (auto simp: crew_inv_def Let_def)
  then have "counted (insert (wk_thread w) (cr_dead s)) (exit_mark (cr_h s)) = Suc (counted (cr_dead s) (cr_h s))"
    by (simp add: counted_def exit_mark_def)
  with worker_exits show ?case by (auto simp: crew_inv_def exit_mark_def Let_def)
next
  case (respawn_refused s fin ses th died p e p' h')
  from reap_spec [OF respawn_refused.prems respawn_refused.hyps(4-7)] respawn_refused.prems respawn_refused.hyps(1)
  show ?case by (auto simp: crew_inv_def Let_def)
next
  case (respawn_begins s fin ses th died p sus p' h')
  from reap_spec [OF respawn_begins.prems respawn_begins.hyps(4-7)] respawn_begins.prems
  show ?case by (auto simp: crew_inv_def Let_def)
next
  case (respawn_ends s sus th died p r p' h')
  obtain x p1 h1 where a: "await_ready th died (cr_dead s) sus (p, cr_h s) = (x, p1, h1)" by (rule prod_cases3)
  have i: "exited (cr_h s) = counted (cr_dead s) (cr_h s)" "distinct (threads (cr_h s))"
    using respawn_ends.prems by (auto simp: crew_inv_def Let_def)
  note aw = await_ready_spec [OF a i]
  show ?case
  proof (cases x)
    case (Inl e)
    with respawn_ends.hyps(2) a have "h' = h1" by (simp add: finish_respawn_def)
    moreover have "set (threads h1) \<subseteq> cr_used s"
      using aw respawn_ends.prems by (meson crew_inv_def order_trans)
    ultimately show ?thesis using aw Inl respawn_ends.prems by (simp add: crew_inv_def same_crew_def Let_def)
  next
    case (Inr y)
    with respawn_ends.hyps(2) a aw have "h' = (cr_h s)\<lparr>respawn_pending := False\<rparr>" by (auto simp: finish_respawn_def)
    with respawn_ends show ?thesis by (auto simp: crew_inv_def counted_def Let_def)
  qed
qed

text \<open>The crew of a handle that \<open>open\<close> has just made.\<close>

inductive crew_reachable :: "crew \<Rightarrow> bool" where
  opened: "spawn_workers th died {} ses n (p, Handle_new n inline) = (Inr (), p', h) \<Longrightarrow> distinct (tids ses) \<Longrightarrow>
     crew_reachable \<lparr>cr_h = h, cr_dead = {}, cr_used = set (tids ses), cr_starting = None\<rparr>"
| stepped: "crew_reachable s \<Longrightarrow> crew_step s s' \<Longrightarrow> crew_reachable s'"

lemma crew_opened:
  assumes "spawn_workers th died {} ses n (p, Handle_new n inline) = (Inr (), p', h)" and "distinct (tids ses)"
  shows "crew_inv \<lparr>cr_h = h, cr_dead = {}, cr_used = set (tids ses), cr_starting = None\<rparr>"
proof -
  obtain x p1 h1 where sl: "spawn_workers_locked ses n (p, Handle_new n inline) = (x, p1, h1)" by (rule prod_cases3)
  with assms(1) obtain sus where x: "x = Inr sus" "await_ready th died {} sus (p1, h1) = (Inr (), p', h)"
    by (cases x) (auto simp: spawn_workers_def)
  from spawn_locked_spec [OF sl] x(1) obtain ts where ts: "adds_workers ts (Handle_new n inline) h1"
    "\<exists>rest. tids ses = ts @ rest" "length ts = n" by auto
  have th: "threads h1 = ts" using ts(1) by (simp add: adds_workers_def Handle_new_def)
  note f = adds_workers_fields [OF ts(1)]
  have h1: "exited h1 = counted {} h1" "distinct (threads h1)"
    using f th ts(2) assms(2) by (auto simp: counted_def Handle_new_def)
  from await_ready_spec [OF x(2) h1] have "h = h1" by simp
  moreover have "length (workers h1) = n" using arg_cong [OF th, of length] ts(3) by simp
  ultimately show ?thesis using h1 f th ts(2) by (auto simp: crew_inv_def Handle_new_def Let_def)
qed

lemma crew_reachable_inv: "crew_reachable s \<Longrightarrow> crew_inv s"
  by (induction rule: crew_reachable.induct) (auto intro: crew_opened crew_step_inv)

subsection \<open>Properties\<close>

text \<open>C20: A pool that lost workers never forgets to replace them. From a freshly opened handle, through any
  interleaving of worker exits and respawns, whole, refused halfway by the operating system, or with a new
  worker failing its own startup, a handle never has more workers than its size, and whenever a submit would
  skip the respawn check (no exit counted, none pending) it has exactly its size of workers and none of them
  has exited.\<close>

theorem respawn_never_forgotten:
  assumes "crew_reachable s"
  shows "length (workers (cr_h s)) \<le> h_pool_size (cr_h s)
    \<and> (nothing_to_do (cr_h s) \<longrightarrow>
         length (workers (cr_h s)) = h_pool_size (cr_h s) \<and> (\<forall>w \<in> set (workers (cr_h s)). wk_thread w \<notin> cr_dead s))"
proof -
  have inv: "crew_inv s" using assms by (rule crew_reachable_inv)
  then have e: "exited (cr_h s) = counted (cr_dead s) (cr_h s)" by (simp add: crew_inv_def Let_def)
  have "\<forall>w \<in> set (workers (cr_h s)). wk_thread w \<notin> cr_dead s" if "nothing_to_do (cr_h s)"
    using that e by (auto simp: nothing_to_do_def counted_def filter_empty_conv)
  with inv show ?thesis by (auto simp: crew_inv_def nothing_to_do_def Let_def)
qed

definition good_start :: "nat \<Rightarrow> spawn_env" where
  "good_start t = \<lparr>se_thread = Inr t, se_sigpipe = True, se_altstack = True, se_stack = Some WORKER_STACK_SIZE, se_wait = InTime\<rparr>"

lemma demo_crew:
  "\<exists>p' h. spawn_workers demo_thread (\<lambda>_. None) {} [good_start 5] 1 (process_init, Handle_new 1 True) = (Inr (), p', h)
    \<and> workers h = [\<lparr>wk_thread = 5, wk_id = 0\<rparr>]"
  by (simp add: spawn_workers_def good_start_def worker_start_def Handle_new_def)

theorem respawn_never_forgotten_witness:
  "\<exists>s. crew_reachable s \<and> exited (cr_h s) = 1 \<and> length (workers (cr_h s)) \<le> h_pool_size (cr_h s)"
proof -
  obtain p' h where h: "spawn_workers demo_thread (\<lambda>_. None) {} [good_start 5] 1 (process_init, Handle_new 1 True) = (Inr (), p', h)"
    "workers h = [\<lparr>wk_thread = 5, wk_id = 0\<rparr>]" using demo_crew by blast
  have d: "distinct (tids [good_start 5])" by (simp add: tids_def good_start_def)
  let ?s = "\<lparr>cr_h = h, cr_dead = {}, cr_used = set (tids [good_start 5]), cr_starting = None\<rparr>"
  have r: "crew_reachable ?s" by (rule opened [OF h(1) d])
  have "crew_step ?s (?s\<lparr>cr_h := exit_mark h, cr_dead := {5}\<rparr>)"
    using worker_exits [of "\<lparr>wk_thread = 5, wk_id = 0\<rparr>" ?s] h(2) by simp
  then have r2: "crew_reachable (?s\<lparr>cr_h := exit_mark h, cr_dead := {5}\<rparr>)" using r stepped by blast
  have "exited h = 0" using crew_opened [OF h(1) d] by (simp add: crew_inv_def counted_def Let_def)
  then have "exited (cr_h (?s\<lparr>cr_h := exit_mark h, cr_dead := {5}\<rparr>)) = 1" by (simp add: exit_mark_def)
  with respawn_never_forgotten [OF r2] r2 show ?thesis by blast
qed

end
