(* ===== verification/Pool.thy ===== *)
theory Pool
  imports Spawn
begin

text \<open>
  The handle's own operations (\<open>pool/mod.rs\<close>): opening a pool, submitting, taking, cancelling. What the
  kernel answers about the completion pipe, and what the spawner meets, are arguments.
\<close>

subsection \<open>Opening\<close>

record open_env =
  oe_th :: thread
  oe_died :: "nat \<Rightarrow> payload option"
  oe_getfl :: "nat + u32"
  oe_fstat :: "nat + u32"
  oe_linux :: bool
  oe_getsz :: int
  oe_setsz_ok :: "nat \<Rightarrow> bool"
  oe_os_err :: rstr
  oe_io :: "io_error \<Rightarrow> rstr"
  oe_dead :: "nat set"
  oe_spawns :: "spawn_env list"
  oe_apple :: bool
  oe_fails :: "nat \<Rightarrow> bool"
  oe_fcntl :: "nat \<times> bool \<Rightarrow> rstr"

definition pool_too_large :: "nat \<Rightarrow> rstr" where
  "pool_too_large n = lit ''pool_size '' @ show_nat n @ lit '' exceeds maximum '' @ show_nat MAX_POOL_SIZE
     @ lit '' (each worker is an OS thread with an 8 MiB stack)''"

definition not_a_pipe :: "i32 \<Rightarrow> rstr \<Rightarrow> rstr" where
  "not_a_pipe fd e = lit ''pipe write fd '' @ show_int fd @ lit '' is not the write end of an open pipe: '' @ e"

definition effective_pool_size :: "u32 \<Rightarrow> nat" where
  "effective_pool_size n = (if n = 0 then DEFAULT_POOL_SIZE else unat n)"

text \<open>The result carries the state of the descriptor, which stays the caller's on every error. After an error
  past the spawn the half-open handle is dropped, which joins its workers; with no descriptor published it
  closes nothing, so the drop is left out. The registration for a shutdown is \<open>register_live\<close>.\<close>

definition open_classified ::
  "open_env \<Rightarrow> u32 \<Rightarrow> i32 \<Rightarrow> fd_state \<Rightarrow> process \<Rightarrow> (PoolError + Handle) \<times> fd_state \<times> process" where
  "open_classified oe pool_size fd fds p =
     (let p0 = install_panic_hook p; n = effective_pool_size pool_size
      in if fd < 0 then (Inl (BadArg (lit ''pipe_write_fd must be non-negative'')), fds, p0)
         else if MAX_POOL_SIZE < n then (Inl (BadArg (pool_too_large n)), fds, p0)
         else
           (case check_pipe_write_end fd (oe_getfl oe) (oe_fstat oe) of
              Inl e \<Rightarrow> (Inl (BadArg (not_a_pipe fd (oe_io oe e))), fds, p0)
            | Inr _ \<Rightarrow>
                (case size_completion_pipe n (oe_linux oe)
                        (\<lambda>k. ensure_pipe_capacity (oe_linux oe) (oe_getsz oe) (oe_setsz_ok oe k) (oe_os_err oe) k) of
                   Inl e \<Rightarrow> (Inl (Failed e), fds, p0)
                 | Inr inline \<Rightarrow>
                     (case spawn_workers (oe_th oe) (oe_died oe) (oe_dead oe) (oe_spawns oe) n (p0, Handle_new n inline) of
                        (Inl e, p1, _) \<Rightarrow> (Inl (Failed e), fds, p1)
                      | (Inr _, p1, h) \<Rightarrow>
                          (case set_nonblocking_with (oe_apple oe) (oe_fails oe) fd fds of
                             (Some e, fds1) \<Rightarrow>
                               (Inl (Failed (lit ''failed to set non-blocking on pipe write fd: '' @ oe_fcntl oe e)), fds1, p1)
                           | (None, fds1) \<Rightarrow> (Inr (h\<lparr>pipe_write_fd := fd\<rparr>), fds1, p1))))))"

definition open_handle ::
  "open_env \<Rightarrow> u32 \<Rightarrow> i32 \<Rightarrow> fd_state \<Rightarrow> process \<Rightarrow> (rstr + Handle) \<times> fd_state \<times> process" where
  "open_handle oe pool_size fd fds p =
     (case open_classified oe pool_size fd fds p of
        (Inl e, st) \<Rightarrow> (Inl (into_message e), st) | (Inr h, st) \<Rightarrow> (Inr h, st))"

subsection \<open>Submitting\<close>

record submit_env =
  se_th :: thread
  se_fin :: "nat \<Rightarrow> bool"
  se_died :: "nat \<Rightarrow> payload option"
  se_dead :: "nat set"
  se_spawns :: "spawn_env list"
  se_now :: instant
  se_late :: bool

definition unknown_flags :: "u32 \<Rightarrow> rstr" where
  "unknown_flags w = lit ''unknown CallHeader flag bits set: '' @ show_hex8 w @ lit '' (known mask ''
     @ show_hex8 GUSSET_FLAGS_KNOWN @ lit '')''"

text \<open>The input: a shared buffer, a refusal, or a copy in the unit.\<close>

definition make_payload :: "bytes \<Rightarrow> u64 \<Rightarrow> process \<times> Handle \<Rightarrow> (rstr + TaskPayload) \<times> process" where
  "make_payload input bid st =
     (if bid > 0 then share_buffer bid st
      else if MAX_INLINE_INPUT < length input then
        (Inl (lit ''inline input '' @ show_nat (length input) @ lit '' bytes exceeds '' @ show_nat MAX_INLINE_INPUT
           @ lit ''-byte copy limit; use a Buffer''), fst st)
      else if length input \<le> SMALL_INPUT then
        (Inr (Small (of_nat (length input)) (input @ replicate (SMALL_INPUT - length input) 0)), fst st)
      else (Inr (Inline input), fst st))"

text \<open>From the flag's insertion to the send. \<open>se_late\<close> says that a shutdown set its flag after the check at
  the top and before the one under the flags' lock.\<close>

definition enqueue ::
  "bool \<Rightarrow> WorkUnit \<Rightarrow> process \<times> Handle \<Rightarrow> (rstr + u64) \<times> process \<times> Handle" where
  "enqueue late unit st =
     (let (p, h) = st; t = u_ticket unit;
          p1 = p\<lparr>cells := (cells p)(t := late \<or> shutting_down p)\<rparr>;
          h1 = h\<lparr>cancel_flags := AList.update t t (cancel_flags h)\<rparr>
      in case try_send unit (h_queue h1) of
           (Inr _, q) \<Rightarrow> (Inr t, p1, h1\<lparr>h_queue := q\<rparr>)
         | (Inl err, q) \<Rightarrow>
             (Inl (case err of Full _ \<Rightarrow> lit ''submission queue is full'' | Closed _ \<Rightarrow> lit ''handle is closed''),
              drop_unit unit p1, remove_flag t (h1\<lparr>h_queue := q\<rparr>)))"

definition submit_classified ::
  "submit_env \<Rightarrow> CallHeader \<Rightarrow> bytes \<Rightarrow> u64 \<Rightarrow> process \<times> Handle \<Rightarrow> (PoolError + u64) \<times> process \<times> Handle" where
  "submit_classified se header input bid st =
     (let (p, h) = st
      in if h_poisoned h then (Inl (Failed (lit ''handle is poisoned'')), st)
         else if h_closed h then (Inl (Failed (lit ''handle is closed'')), st)
         else if shutting_down p then (Inl (Failed (lit ''gusset runtime is shutting down'')), st)
         else if flags header AND NOT GUSSET_FLAGS_KNOWN \<noteq> 0 then
           (Inl (BadArg (unknown_flags (flags header AND NOT GUSSET_FLAGS_KNOWN))), st)
         else
           (case ensure_workers (se_th se) (se_fin se) (se_died se) (se_dead se) (se_spawns se) st of
              (Inl e, st1) \<Rightarrow> (Inl (Failed e), st1)
            | (Inr _, p1, h1) \<Rightarrow>
                (case make_payload input bid (p1, h1) of
                   (Inl e, p2) \<Rightarrow> (Inl (Failed e), p2, h1)
                 | (Inr pay, p2) \<Rightarrow>
                     (case reserve_id (next_ticket p2) of
                        (Inl e, _) \<Rightarrow> (Inl (Failed e), drop_payload pay p2, h1)
                      | (Inr t, c) \<Rightarrow>
                          (case enqueue (se_late se)
                                  \<lparr>u_ticket = t, u_ctx = JobContext_new (se_now se) header t, u_payload = pay,
                                   u_input_buffer_id = bid\<rparr> (p2\<lparr>next_ticket := c\<rparr>, h1) of
                             (Inl e, st3) \<Rightarrow> (Inl (Failed e), st3)
                           | (Inr t1, st3) \<Rightarrow> (Inr t1, st3))))))"

definition submit ::
  "submit_env \<Rightarrow> CallHeader \<Rightarrow> bytes \<Rightarrow> u64 \<Rightarrow> process \<times> Handle \<Rightarrow> (rstr + u64) \<times> process \<times> Handle" where
  "submit se header input bid st =
     (case submit_classified se header input bid st of
        (Inl e, st1) \<Rightarrow> (Inl (into_message e), st1) | (Inr t, st1) \<Rightarrow> (Inr t, st1))"

subsection \<open>Taking and cancelling\<close>

definition take_result :: "u64 \<Rightarrow> Handle \<Rightarrow> (rstr + JobResult) \<times> Handle" where
  "take_result ticket h =
     (case map_of (results h) ticket of
        Some r \<Rightarrow> (Inr r, h\<lparr>results := AList.delete ticket (results h)\<rparr>)
      | None \<Rightarrow> (Inl (lit ''ticket '' @ show_nat (unat ticket) @ lit '' not found or already taken''), h))"

definition cancel :: "u64 \<Rightarrow> process \<times> Handle \<Rightarrow> bool \<times> process" where
  "cancel ticket st =
     (case map_of (cancel_flags (snd st)) ticket of
        Some c \<Rightarrow> (True, (fst st)\<lparr>cells := (cells (fst st))(c := True)\<rparr>)
      | None \<Rightarrow> (False, fst st))"

definition cancel_all :: "process \<times> Handle \<Rightarrow> nat \<times> process" where
  "cancel_all st =
     (length (cancel_flags (snd st)),
      (fst st)\<lparr>cells := (\<lambda>c. c \<in> snd ` set (cancel_flags (snd st)) \<or> cells (fst st) c)\<rparr>)"

subsection \<open>Lemmas: what each operation leaves alone\<close>

text \<open>Replacing workers changes the crew and the firewall's tables only.\<close>

definition crew_frame :: "Handle \<Rightarrow> Handle \<Rightarrow> bool" where
  "crew_frame h h' \<longleftrightarrow> h' = h\<lparr>workers := workers h', next_worker_id := next_worker_id h', exited := exited h',
     respawn_pending := respawn_pending h'\<rparr>"

lemma crew_frame_refl [simp]: "crew_frame h h"
  by (simp add: crew_frame_def)

lemma crew_frame_trans: "crew_frame h1 h2 \<Longrightarrow> crew_frame h2 h3 \<Longrightarrow> crew_frame h1 h3"
  by (cases h1; cases h2; cases h3) (simp add: crew_frame_def)

lemma crew_frame_fields:
  assumes "crew_frame h h'"
  shows "cancel_flags h' = cancel_flags h" "results h' = results h" "h_queue h' = h_queue h" "ring_fine h' = ring_fine h"
    "h_closed h' = h_closed h" "buffers h' = buffers h" "h_poisoned h' = h_poisoned h" "h_pool_size h' = h_pool_size h"
  using assms by (cases h; cases h'; simp add: crew_frame_def ring_fine_def)+

lemma worker_start_frame: "worker_start tid wid se p = (r, p') \<Longrightarrow> guard_only p p'"
proof -
  assume run: "worker_start tid wid se p = (r, p')"
  define p1 where "p1 = (if se_sigpipe se then p
                else log_line tid (lit ''gusset: worker '' @ worker_name wid
                  @ lit '' could not block SIGPIPE; a write to a closed pipe from this thread will terminate the process'') p)"
  have "p' = p1 \<or> (\<exists>line. p' = log_line tid line p1)"
    using run unfolding worker_start_def p1_def [symmetric] Let_def by (simp split: if_splits option.splits) blast+
  moreover have "guard_only p p1" by (simp add: p1_def)
  ultimately show ?thesis using guard_only_trans [OF _ guard_only_log] by blast
qed

lemma spawn_locked_frame:
  assumes "spawn_workers_locked ses n (p, h) = (r, p', h')"
  shows "guard_only p p' \<and> crew_frame h h'"
  using assms
proof (induction ses n "(p, h)" arbitrary: p h r p' h' rule: spawn_workers_locked.induct)
  case (3 se ses n p h)
  show ?case
  proof (cases "se_thread se")
    case (Inl e)
    with 3(2) show ?thesis by (auto simp: crew_frame_def Let_def)
  next
    case (Inr tid)
    let ?wid = "next_worker_id h"
    obtain sr p1 where w: "worker_start tid ?wid se p = (sr, p1)" by force
    let ?h1 = "h\<lparr>next_worker_id := ?wid + 1, workers := workers h @ [\<lparr>wk_thread = tid, wk_id = ?wid\<rparr>]\<rparr>"
    obtain rest p2 h2 where x: "spawn_workers_locked ses n (p1, ?h1) = (rest, p2, h2)" by (rule prod_cases3)
    from 3(1) [OF refl refl Inr w [symmetric] refl refl, of rest p2 h2] x have "guard_only p1 p2 \<and> crew_frame ?h1 h2" by simp
    moreover have "p' = p2" "h' = h2" using 3(2) Inr w x by (auto simp: Let_def)
    moreover have "crew_frame h ?h1" by (simp add: crew_frame_def)
    ultimately show ?thesis using worker_start_frame [OF w] guard_only_trans crew_frame_trans by blast
  qed
qed auto

lemma remove_failed_frame: "crew_frame h (remove_failed dead t h)"
  by (simp add: remove_failed_def crew_frame_def exit_mark_def Let_def split: option.split)

lemma join_all_frame: "guard_only p (join_all th died ws p)"
proof (induction ws arbitrary: p)
  case (Cons w ws)
  let ?q = "case died (wk_thread w) of Some pl \<Rightarrow> drop_panic_payload th pl p | None \<Rightarrow> p"
  have "guard_only p ?q" by (simp add: guard_only_drop split: option.split)
  moreover have "join_all th died (w # ws) p = join_all th died ws ?q" by (simp add: join_all_def)
  ultimately show ?case using Cons [of ?q] guard_only_trans by metis
qed (simp add: join_all_def)

lemma join_failed_frame: "guard_only p (join_failed th died t h p)"
  by (simp add: join_failed_def join_all_frame split: option.split)

lemma await_ready_frame:
  assumes "await_ready th died dead sus (p, h) = (r, p', h')"
  shows "guard_only p p' \<and> crew_frame h h'"
  using assms
proof (induction th died dead sus "(p, h)" arbitrary: p h r p' h' rule: await_ready.induct)
  case (2 th died dead su sus p h)
  let ?p1 = "if su_ready su = Timeout then log_line (th_id th) (not_ready_line (su_worker_id su)) p else p"
  have g: "guard_only p ?p1" by simp
  show ?case
  proof (cases "startup_outcome su")
    case (Inr x)
    then have "await_ready th died dead sus (?p1, h) = (r, p', h')" using "2.prems"(1) by (simp add: Let_def)
    from 2(2) [OF refl Inr this] g guard_only_trans show ?thesis by blast
  next
    case (Inl msg)
    let ?h1 = "remove_failed dead (su_thread su) h" and ?p2 = "join_failed th died (su_thread su) h ?p1"
    have g2: "guard_only p ?p2" using g join_failed_frame guard_only_trans by blast
    obtain r2 p2 h2 where x: "await_ready th died dead sus (?p2, ?h1) = (r2, p2, h2)" by (rule prod_cases3)
    have "p' = p2" "h' = h2" using "2.prems"(1) Inl x by (simp_all add: Let_def)
    with 2(1) [OF refl Inl x] g2 guard_only_trans crew_frame_trans remove_failed_frame show ?thesis by blast
  qed
qed simp

lemma spawn_workers_frame:
  assumes "spawn_workers th died dead ses n (p, h) = (r, p', h')"
  shows "guard_only p p' \<and> crew_frame h h'"
proof -
  obtain x p1 h1 where x: "spawn_workers_locked ses n (p, h) = (x, p1, h1)" by (rule prod_cases3)
  note f = spawn_locked_frame [OF x]
  from assms x have "p' = p1 \<and> h' = h1 \<or> (\<exists>sus. await_ready th died dead sus (p1, h1) = (r, p', h'))"
    by (auto simp: spawn_workers_def split: sum.splits)
  with f await_ready_frame guard_only_trans crew_frame_trans show ?thesis by blast
qed

text \<open>An accepted open: a handle of an allowed size, fresh but for its crew and its descriptor.\<close>

lemma open_classified_frame:
  assumes "open_classified oe n0 fd fds p = (Inr h, fds', p')"
  shows "\<exists>n inline h1. n \<le> MAX_POOL_SIZE \<and> guard_only (install_panic_hook p) p' \<and> crew_frame (Handle_new n inline) h1
    \<and> h = h1\<lparr>pipe_write_fd := fd\<rparr>"
  using assms
  by (auto simp: open_classified_def Let_def not_less split: if_splits sum.splits prod.splits option.splits dest!: spawn_workers_frame)

lemma open_refused_frame: "open_classified oe n0 fd fds p = (Inl err, fds', p') \<Longrightarrow> guard_only (install_panic_hook p) p'"
  by (auto simp: open_classified_def Let_def split: if_splits sum.splits prod.splits option.splits dest!: spawn_workers_frame)

lemma ensure_workers_frame:
  assumes "ensure_workers th fin died dead ses (p, h) = (r, p', h')"
  shows "guard_only p p' \<and> crew_frame h h'"
proof (cases "nothing_to_do h \<or> h_closed h")
  case True
  with assms show ?thesis by (auto simp: ensure_workers_def split: if_splits)
next
  case False
  obtain x p1 h1 where rs: "reap_and_spawn th fin died ses (p, h) = (x, p1, h1)" by (rule prod_cases3)
  let ?live = "filter (\<lambda>w. \<not> fin (wk_thread w)) (workers h)" and ?done = "filter (\<lambda>w. fin (wk_thread w)) (workers h)"
  let ?h2 = "h\<lparr>respawn_pending := True, workers := ?live, exited := exited h - length ?done\<rparr>"
  have c2: "crew_frame h ?h2" by (simp add: crew_frame_def)
  have "(p1 = join_all th died ?done p \<and> h1 = ?h2) \<or>
      (\<exists>n. spawn_workers_locked ses n (join_all th died ?done p, ?h2) = (x, p1, h1))"
    using rs by (auto simp: reap_and_spawn_def Let_def split: if_splits)
  then have f1: "guard_only p p1 \<and> crew_frame h h1"
    using join_all_frame guard_only_trans crew_frame_trans c2 spawn_locked_frame by (metis (no_types, lifting))
  show ?thesis
  proof (cases x)
    case (Inl e)
    with assms False rs f1 show ?thesis by (auto simp: ensure_workers_def)
  next
    case (Inr sus)
    obtain y p2 h2 where a: "await_ready th died dead sus (p1, h1) = (y, p2, h2)" by (rule prod_cases3)
    have "p' = p2" "h' = h2 \<or> h' = h2\<lparr>respawn_pending := False\<rparr>"
      using assms False rs Inr a by (auto simp: ensure_workers_def finish_respawn_def split: sum.splits)
    moreover have "crew_frame h2 (h2\<lparr>respawn_pending := False\<rparr>)" by (simp add: crew_frame_def)
    ultimately show ?thesis using await_ready_frame [OF a] f1 guard_only_trans crew_frame_trans by metis
  qed
qed

lemma make_payload_spec:
  assumes "make_payload input bid (p, h) = (r, p')" and "buf_inv other p h us"
  shows "next_ticket p' = next_ticket p \<and> next_buffer_id p' = next_buffer_id p \<and> shutting_down p' = shutting_down p \<and> (\<forall>pay. r = Inr pay \<longrightarrow> buf_inv other p' h (pay # us))
    \<and> (\<forall>e. r = Inl e \<longrightarrow> p' = p)"
proof (cases "bid > 0")
  case True
  with assms(1) have s: "share_buffer bid (p, h) = (r, p')" by (simp add: make_payload_def)
  then have "next_ticket p' = next_ticket p" "next_buffer_id p' = next_buffer_id p" "shutting_down p' = shutting_down p"
    by (auto simp: share_buffer_def arc_clone_def split: option.splits)
  with s share_buffer_inv [OF assms(2)] share_buffer_Inl show ?thesis by auto
next
  case False
  with assms show ?thesis by (auto simp: make_payload_def buf_inv_payload_free split: if_splits)
qed

lemma try_send_items:
  "try_send u q = (Inr w, q') \<Longrightarrow> items q' = items q @ [u] \<and> length (items q) < jq_cap q \<and> jq_cap q' = jq_cap q \<and> \<not> jq_closed q"
  "try_send u q = (Inl e, q') \<Longrightarrow> q' = q"
  by (auto simp: try_send_def push_def Let_def split: if_splits)

lemma delete_update_absent: "t \<notin> fst ` set al \<Longrightarrow> AList.delete t (AList.update t v al) = al"
  by (simp add: delete_update_same delete_absent)

text \<open>A submit either queues one unit under a fresh ticket, or leaves the jobs as they were.\<close>

lemma enqueue_spec:
  assumes "enqueue late u (p, h) = (r, p', h')" and "u_ticket u \<notin> fst ` set (cancel_flags h)"
  shows "next_ticket p' = next_ticket p \<and> next_buffer_id p' = next_buffer_id p \<and> results h' = results h
    \<and> ring_fine h' = ring_fine h \<and> buffers h' = buffers h
    \<and> h_poisoned h' = h_poisoned h \<and> h_closed h' = h_closed h \<and> h_pool_size h' = h_pool_size h
    \<and> (\<forall>t. r = Inr t \<longrightarrow> t = u_ticket u \<and> cancel_flags h' = AList.update t t (cancel_flags h)
         \<and> items (h_queue h') = items (h_queue h) @ [u] \<and> length (items (h_queue h)) < jq_cap (h_queue h)
         \<and> jq_cap (h_queue h') = jq_cap (h_queue h)
         \<and> pmem p' = pmem p \<and> arcs p' = arcs p \<and> next_buffer_id p' = next_buffer_id p)
    \<and> (\<forall>e. r = Inl e \<longrightarrow> h' = h \<and> (\<exists>c. p' = drop_unit u (p\<lparr>cells := c\<rparr>)))"
proof -
  let ?t = "u_ticket u" and ?p1 = "p\<lparr>cells := (cells p)(u_ticket u := late \<or> shutting_down p)\<rparr>"
  obtain x q where x: "try_send u (h_queue h) = (x, q)" by force
  show ?thesis
  proof (cases x)
    case (Inr w)
    with assms(1) x have "r = Inr ?t" "p' = ?p1" "h' = h\<lparr>cancel_flags := AList.update ?t ?t (cancel_flags h), h_queue := q\<rparr>"
      by (auto simp: enqueue_def Let_def)
    with try_send_items(1) [OF x [unfolded Inr]] show ?thesis by (simp add: ring_fine_def)
  next
    case (Inl e)
    note q = try_send_items(2) [OF x [unfolded Inl]]
    have del: "remove_flag ?t (h\<lparr>cancel_flags := AList.update ?t ?t (cancel_flags h), h_queue := h_queue h\<rparr>) = h"
      using assms(2) by (simp add: remove_flag_def delete_update_absent)
    with assms(1) x Inl q have "\<exists>e. r = Inl e" "p' = drop_unit u ?p1" "h' = h"
      by (auto simp: enqueue_def Let_def)
    then show ?thesis by auto
  qed
qed

end
