(* ===== verification/Lifecycle.thy ===== *)
theory Lifecycle
  imports Pool
begin

text \<open>
  Shutting the process down and closing a handle (\<open>pool/lifecycle.rs\<close>). A handle in the registry of live
  handles is named by a number; \<open>strong\<close> says which of the weak references still upgrade.
\<close>

subsection \<open>Process-wide shutdown\<close>

definition is_shutting_down :: "process \<Rightarrow> bool" where
  "is_shutting_down p = shutting_down p"

definition rearm :: "process \<Rightarrow> process" where
  "rearm p = p\<lparr>shutting_down := False\<rparr>"

definition begin_shutdown ::
  "(nat \<Rightarrow> bool) \<Rightarrow> (nat \<Rightarrow> Handle) \<Rightarrow> process \<times> nat list \<Rightarrow> nat \<times> process \<times> nat list" where
  "begin_shutdown strong hs st =
     (let (p, registry) = st;
          p1 = p\<lparr>shutting_down := True\<rparr>;
          live = filter strong registry
      in (length live, fold (\<lambda>i q. snd (cancel_all (q, hs i))) live p1, live))"

definition total_in_flight :: "(nat \<Rightarrow> bool) \<Rightarrow> (nat \<Rightarrow> Handle) \<Rightarrow> nat list \<Rightarrow> nat \<times> nat list" where
  "total_in_flight strong hs registry =
     (let live = filter strong registry in (sum_list (map (\<lambda>i. in_flight (hs i)) live), live))"

text \<open>The registration at the end of \<open>open\<close>.\<close>

definition register_live :: "(nat \<Rightarrow> bool) \<Rightarrow> nat \<Rightarrow> nat list \<Rightarrow> nat list" where
  "register_live strong i registry = filter strong registry @ [i]"

text \<open>The drain loop: each turn counts the units in flight, reads the clock, and may sleep. \<open>None\<close> is a
  loop still draining when the script of turns ends. The second component lists the sleeps.\<close>

record drain_turn =
  dt_strong :: "nat \<Rightarrow> bool"
  dt_handles :: "nat \<Rightarrow> Handle"
  dt_now :: instant

fun drain_loop :: "drain_turn list \<Rightarrow> instant \<Rightarrow> nat \<Rightarrow> nat list \<Rightarrow> nat option \<times> nat list \<times> nat list" where
  "drain_loop [] dl backoff registry = (None, [], registry)"
| "drain_loop (t # ts) dl backoff registry =
     (let (remaining, live) = total_in_flight (dt_strong t) (dt_handles t) registry
      in if remaining = 0 then (Some 0, [], live)
         else if dl \<le> dt_now t then (Some remaining, [], live)
         else
           (let (r, sleeps, live1) = drain_loop ts dl (min (backoff * 2) 5000000) live
            in (r, backoff # sleeps, live1)))"

definition shutdown ::
  "(nat \<Rightarrow> bool) \<Rightarrow> (nat \<Rightarrow> Handle) \<Rightarrow> instant \<Rightarrow> drain_turn list \<Rightarrow> nat \<Rightarrow> process \<times> nat list
    \<Rightarrow> nat option \<times> process \<times> nat list" where
  "shutdown strong hs start turns drain st =
     (let (_, p1, live) = begin_shutdown strong hs st;
          (r, _, live1) = drain_loop turns (start + drain) 200000 live
      in (r, p1, live1))"

subsection \<open>Closing a handle\<close>

definition CLOSE_JOIN_BUDGET :: nat where "CLOSE_JOIN_BUDGET = 30000000000"

text \<open>\<open>release_pipe\<close>: the descriptors passed to \<open>close\<close>, at most one.\<close>

definition release_pipe :: "Handle \<Rightarrow> int list \<times> Handle" where
  "release_pipe h = (close_fd_with (pipe_write_fd h), h\<lparr>pipe_write_fd := - 1\<rparr>)"

text \<open>The closing thread, the panics workers died of, whether a strong reference is left to keep the handle
  alive, whether the joiner thread could be started, and how the wait for it ended.\<close>

record close_env =
  ce_th :: thread
  ce_died :: "nat \<Rightarrow> payload option"
  ce_keeper :: bool
  ce_joiner :: bool
  ce_wait :: wait_end

definition close_timeout :: rstr where
  "close_timeout = lit ''close: workers still running after 30s; the pool stays alive until they exit and its memory is not freed under them''"

text \<open>The result, the descriptors closed, and whether a joiner is left running that will release the pipe.\<close>

definition join_workers ::
  "close_env \<Rightarrow> worker list \<Rightarrow> process \<times> Handle \<Rightarrow> (rstr + unit) \<times> int list \<times> bool \<times> process \<times> Handle" where
  "join_workers ce ws st =
     (let (p, h) = st;
          foreign = filter (\<lambda>w. wk_thread w \<noteq> th_id (ce_th ce)) ws;
          (fds, h1) = release_pipe h;
          p1 = join_all (ce_th ce) (ce_died ce) foreign p
      in if foreign = [] then (Inr (), fds, False, p, h1)
         else if \<not> ce_keeper ce then (Inr (), fds, False, p1, h1)
         else if \<not> ce_joiner ce then (Inr (), fds, False, p1, h1)
         else
           (case ce_wait ce of
              InTime \<Rightarrow> (Inr (), fds, False, p1, h1)
            | TooLate \<Rightarrow> (Inl close_timeout, [], True, p, h)
            | HungUp \<Rightarrow> (Inl (lit ''close: joiner exited before the workers were joined''), [], False, p, h)))"

text \<open>Everything before the join: a second close does nothing.\<close>

definition close_begin :: "process \<times> Handle \<Rightarrow> (worker list \<times> process \<times> Handle) option" where
  "close_begin st =
     (let (p, h) = st
      in if h_closed h then None
         else
           (let h1 = h\<lparr>h_closed := True, h_queue := close_store (close_lock (h_queue h))\<rparr>;
                p1 = snd (cancel_all (p, h1))
            in Some (workers h1, p1, h1\<lparr>workers := []\<rparr>)))"

definition close_within ::
  "close_env \<Rightarrow> process \<times> Handle \<Rightarrow> (rstr + unit) \<times> int list \<times> bool \<times> process \<times> Handle" where
  "close_within ce st =
     (case close_begin st of
        None \<Rightarrow> (Inr (), [], False, st)
      | Some (ws, st1) \<Rightarrow> join_workers ce ws st1)"

definition close :: "close_env \<Rightarrow> process \<times> Handle \<Rightarrow> (rstr + unit) \<times> int list \<times> bool \<times> process \<times> Handle" where
  "close ce st = close_within ce st"

text \<open>\<open>Drop\<close>: the strong count is zero, so no reference can be kept.\<close>

definition drop_handle :: "close_env \<Rightarrow> process \<times> Handle \<Rightarrow> int list \<times> process \<times> Handle" where
  "drop_handle ce st = (let (_, fds, _, st1) = close (ce\<lparr>ce_keeper := False\<rparr>) st in (fds, st1))"

text \<open>A joiner that a timed-out close left behind, once the workers have exited.\<close>

definition joiner_ends :: "close_env \<Rightarrow> worker list \<Rightarrow> process \<times> Handle \<Rightarrow> int list \<times> process \<times> Handle" where
  "joiner_ends ce ws st =
     (let (fds, h1) = release_pipe (snd st) in (fds, join_all (ce_th ce) (ce_died ce) ws (fst st), h1))"

subsection \<open>Lemmas\<close>

text \<open>What may happen to the descriptor over a handle's life.\<close>

datatype life_op = Close close_env | JoinerEnds close_env "worker list" | DropHandle close_env

fun life_step :: "life_op \<Rightarrow> int list \<times> process \<times> Handle \<Rightarrow> int list \<times> process \<times> Handle" where
  "life_step (Close ce) (fds, st) = (let (_, f, _, st1) = close ce st in (fds @ f, st1))"
| "life_step (JoinerEnds ce ws) (fds, st) = (let (f, st1) = joiner_ends ce ws st in (fds @ f, st1))"
| "life_step (DropHandle ce) (fds, st) = (let (f, st1) = drop_handle ce st in (fds @ f, st1))"

lemma close_begin_Some:
  "close_begin (p, h) = Some (ws, p1, h1) \<Longrightarrow> \<not> h_closed h \<and> h_closed h1 \<and> pipe_write_fd h1 = pipe_write_fd h
     \<and> jq_closed (h_queue h1) \<and> closed_flag (h_queue h1) \<and> items (h_queue h1) = items (h_queue h)
     \<and> cancel_flags h1 = cancel_flags h \<and> p1 = snd (cancel_all (p, h)) \<and> ws = workers h \<and> workers h1 = []"
  by (auto simp: close_begin_def close_store_def close_lock_def cancel_all_def Let_def split: if_splits)

text \<open>The descriptor is either still held and never closed, or gone and closed once.\<close>

definition fd_inv :: "int \<Rightarrow> int list \<Rightarrow> Handle \<Rightarrow> bool" where
  "fd_inv fd fds h \<longleftrightarrow> fds = [] \<and> pipe_write_fd h = fd \<or> fds = [fd] \<and> pipe_write_fd h = - 1"

lemma fd_inv_release:
  assumes "0 \<le> fd" and "fd_inv fd fds h" and "release_pipe h = (f, h1)"
  shows "fd_inv fd (fds @ f) h1 \<and> fds @ f = [fd] \<and> pipe_write_fd h1 = - 1"
  using assms by (auto simp: fd_inv_def release_pipe_def close_fd_with_def)

lemma join_workers_fd:
  assumes "0 \<le> fd" and "fd_inv fd fds h" and "join_workers ce ws (p, h) = (r, f, j, p1, h1)"
  shows "fd_inv fd (fds @ f) h1 \<and> (r = Inr () \<longrightarrow> fds @ f = [fd]) \<and> h_closed h1 = h_closed h"
proof -
  obtain f0 h0 where rl: "release_pipe h = (f0, h0)" by force
  have c: "h_closed h0 = h_closed h" using rl by (auto simp: release_pipe_def)
  have "(f, h1) = (f0, h0) \<or> (r \<noteq> Inr () \<and> f = [] \<and> h1 = h)"
    using assms(3) rl by (auto simp: join_workers_def Let_def split: if_splits wait_end.splits)
  with fd_inv_release [OF assms(1,2) rl] c assms(2) show ?thesis by auto
qed

lemma close_fd:
  assumes "0 \<le> fd" and "fd_inv fd fds h" and "close ce (p, h) = (r, f, j, p1, h1)"
  shows "fd_inv fd (fds @ f) h1 \<and> h_closed h1 \<and> (\<not> h_closed h \<and> r = Inr () \<longrightarrow> fds @ f = [fd])"
proof (cases "close_begin (p, h)")
  case None
  with assms show ?thesis by (auto simp: close_def close_within_def close_begin_def Let_def split: if_splits)
next
  case (Some x)
  obtain ws q g where x: "x = (ws, q, g)" by (rule prod_cases3)
  note b = close_begin_Some [OF Some [unfolded x]]
  have "join_workers ce ws (q, g) = (r, f, j, p1, h1)" using assms(3) Some x by (simp add: close_def close_within_def)
  moreover have "fd_inv fd fds g" using assms(2) b by (simp add: fd_inv_def)
  ultimately show ?thesis using join_workers_fd [OF assms(1)] b by metis
qed

lemma life_step_fd:
  assumes "0 \<le> fd" and "fd_inv fd fds h" and "life_step op (fds, p, h) = (fds', p', h')"
  shows "fd_inv fd fds' h'"
proof (cases op)
  case (Close ce)
  obtain r f j q g where c: "close ce (p, h) = (r, f, j, q, g)" by (metis prod_cases5)
  with Close assms(3) close_fd [OF assms(1,2) c] show ?thesis by simp
next
  case (JoinerEnds ce ws)
  obtain f g where r: "release_pipe h = (f, g)" by force
  with JoinerEnds assms(3) fd_inv_release [OF assms(1,2) r] show ?thesis by (auto simp: joiner_ends_def)
next
  case (DropHandle ce)
  obtain r f j q g where c: "close (ce\<lparr>ce_keeper := False\<rparr>) (p, h) = (r, f, j, q, g)" by (metis prod_cases5)
  with DropHandle assms(3) close_fd [OF assms(1,2) c] show ?thesis by (simp add: drop_handle_def)
qed

lemma life_run_fd:
  assumes "0 \<le> fd"
  shows "fd_inv fd fds h \<Longrightarrow> fold life_step ops (fds, p, h) = (fds', p', h') \<Longrightarrow> fd_inv fd fds' h'"
proof (induction ops arbitrary: fds p h)
  case (Cons op ops)
  obtain f q g where s: "life_step op (fds, p, h) = (f, q, g)" by (rule prod_cases3)
  from Cons.IH [OF life_step_fd [OF assms Cons.prems(1) s]] Cons.prems(2) s show ?case by simp
qed simp

subsection \<open>Lemmas: the drain\<close>

lemma drain_loop_returns:
  "\<exists>t \<in> set ts. dl \<le> dt_now t \<Longrightarrow> \<exists>r sleeps live. drain_loop ts dl b reg = (Some r, sleeps, live)"
proof (induction ts arbitrary: b reg)
  case (Cons t ts)
  obtain n lv where n: "total_in_flight (dt_strong t) (dt_handles t) reg = (n, lv)" by force
  show ?case
  proof (cases "n = 0 \<or> dl \<le> dt_now t")
    case False
    with Cons.prems have "\<exists>t \<in> set ts. dl \<le> dt_now t" by auto
    from Cons.IH [OF this, of "min (b * 2) 5000000" lv] n False show ?thesis by auto
  qed (use n in auto)
qed simp

text \<open>What the drain reports is what one of its turns counted, and a positive count only past the deadline;
  it sleeps at most 5 ms at a time.\<close>

lemma drain_loop_result:
  assumes "drain_loop ts dl b reg = (Some r, sleeps, lv)" and "b \<le> 5000000"
  shows "(\<exists>t \<in> set ts. \<exists>reg'. fst (total_in_flight (dt_strong t) (dt_handles t) reg') = r \<and> (0 < r \<longrightarrow> dl \<le> dt_now t))
    \<and> (\<forall>x \<in> set sleeps. x \<le> 5000000) \<and> length sleeps < length ts"
  using assms
proof (induction ts arbitrary: b reg sleeps)
  case (Cons t ts)
  obtain n l where n: "total_in_flight (dt_strong t) (dt_handles t) reg = (n, l)" by force
  show ?case
  proof (cases "n = 0 \<or> dl \<le> dt_now t")
    case True
    with Cons.prems(1) n have "r = n" "sleeps = []" by (auto split: if_splits)
    moreover have "fst (total_in_flight (dt_strong t) (dt_handles t) reg) = n" using n by simp
    ultimately show ?thesis using True by auto
  next
    case False
    obtain r1 s1 l1 where d: "drain_loop ts dl (min (b * 2) 5000000) l = (r1, s1, l1)" by (rule prod_cases3)
    with Cons.prems(1) n False have "r1 = Some r" "sleeps = b # s1" "lv = l1" by auto
    with Cons.IH [of "min (b * 2) 5000000" l s1] d Cons.prems(2) show ?thesis by auto
  qed
qed simp

subsection \<open>Submits racing a shutdown\<close>

text \<open>
  The two critical sections that race: a submit that passed the check at its top and inserts its flag later,
  under the flags' lock, and a shutdown that raises its flag and then cancels everything under the same lock.
  Units also finish, and a runtime may be re-armed.
\<close>

record drain_sys =
  ds_p :: process
  ds_h :: Handle
  ds_admitted :: nat
  ds_cancelled :: bool

inductive drain_step :: "drain_sys \<Rightarrow> drain_sys \<Rightarrow> bool" where
  admitted: "\<not> is_shutting_down (ds_p s) \<Longrightarrow> drain_step s (s\<lparr>ds_admitted := ds_admitted s + 1\<rparr>)"
| inserted: "0 < ds_admitted s \<Longrightarrow> u_ticket u \<notin> snd ` set (cancel_flags (ds_h s)) \<Longrightarrow>
     enqueue False u (ds_p s, ds_h s) = (r, p', h') \<Longrightarrow>
     drain_step s (s\<lparr>ds_p := p', ds_h := h', ds_admitted := ds_admitted s - 1\<rparr>)"
| finished: "drain_step s (s\<lparr>ds_h := remove_flag t (ds_h s)\<rparr>)"
| raised: "drain_step s (s\<lparr>ds_p := (ds_p s)\<lparr>shutting_down := True\<rparr>\<rparr>)"
| cancels: "is_shutting_down (ds_p s) \<Longrightarrow> cancel_all (ds_p s, ds_h s) = (n, p') \<Longrightarrow>
     drain_step s (s\<lparr>ds_p := p', ds_cancelled := True\<rparr>)"
| rearmed: "drain_step s (s\<lparr>ds_p := rearm (ds_p s), ds_cancelled := False\<rparr>)"

inductive drain_reachable :: "drain_sys \<Rightarrow> bool" where
  fresh: "drain_reachable \<lparr>ds_p = process_init, ds_h = Handle_new n inline, ds_admitted = 0, ds_cancelled = False\<rparr>"
| step: "drain_reachable s \<Longrightarrow> drain_step s s' \<Longrightarrow> drain_reachable s'"

definition drain_inv :: "drain_sys \<Rightarrow> bool" where
  "drain_inv s \<longleftrightarrow> (\<forall>(t, c) \<in> set (cancel_flags (ds_h s)). t = c)
     \<and> (ds_cancelled s \<longrightarrow> shutting_down (ds_p s) \<and> (\<forall>c \<in> snd ` set (cancel_flags (ds_h s)). cells (ds_p s) c))"

lemma set_update_subset: "set (AList.update k v al) \<subseteq> insert (k, v) (set al)"
  by (induction al) auto

lemma set_delete_subset: "set (AList.delete k al) \<subseteq> set al"
  by (induction al) auto

lemma drop_unit_frame [simp]: "cells (drop_unit u p) = cells p" "shutting_down (drop_unit u p) = shutting_down p"
  by (cases "u_payload u"; simp add: drop_unit_def arc_drop_def)+

lemma enqueue_flags:
  assumes "enqueue late u (p, h) = (r, p', h')"
  shows "set (cancel_flags h') \<subseteq> insert (u_ticket u, u_ticket u) (set (cancel_flags h))
    \<and> cells p' = (cells p)(u_ticket u := late \<or> shutting_down p) \<and> shutting_down p' = shutting_down p"
  using assms set_update_subset [of "u_ticket u" "u_ticket u" "cancel_flags h"]
    set_delete_subset [of "u_ticket u" "AList.update (u_ticket u) (u_ticket u) (cancel_flags h)"]
  by (auto simp: enqueue_def Let_def split: prod.splits sum.splits)

lemma drain_step_inv: "drain_step s s' \<Longrightarrow> drain_inv s \<Longrightarrow> drain_inv s'"
proof (induction rule: drain_step.induct)
  case (inserted s u r p' h')
  from enqueue_flags [OF inserted(3)] inserted.prems show ?case by (fastforce simp: drain_inv_def)
next
  case (finished s t)
  then show ?case using set_delete_subset [of t "cancel_flags (ds_h s)"] by (fastforce simp: drain_inv_def)
next
  case (cancels s n p')
  then have "p' = (ds_p s)\<lparr>cells := (\<lambda>c. c \<in> snd ` set (cancel_flags (ds_h s)) \<or> cells (ds_p s) c)\<rparr>"
    by (simp add: cancel_all_def)
  then have "shutting_down p' = shutting_down (ds_p s)" "\<forall>c \<in> snd ` set (cancel_flags (ds_h s)). cells p' c" by simp_all
  with cancels show ?case by (simp add: drain_inv_def is_shutting_down_def)
qed (auto simp: drain_inv_def rearm_def)

lemma drain_reachable_inv: "drain_reachable s \<Longrightarrow> drain_inv s"
proof (induction rule: drain_reachable.induct)
  case (fresh n inline)
  show ?case by (simp add: drain_inv_def Handle_new_def)
qed (rule drain_step_inv)

subsection \<open>Properties\<close>

text \<open>C21: A drain never waits for a job it did not cancel. In every interleaving of submits with a shutdown,
  and of shutdowns with re-arming, from the moment the shutdown has cancelled the in-flight jobs until the
  runtime is re-armed, the cancel flag of every unit in flight is set, also of one whose submit passed the
  shutdown check before the shutdown began and was queued after.\<close>

theorem drain_cancels_everything:
  assumes "drain_reachable s" and "ds_cancelled s"
  shows "is_shutting_down (ds_p s) \<and> (\<forall>(t, c) \<in> set (cancel_flags (ds_h s)). t = c \<and> cells (ds_p s) c)"
  using drain_reachable_inv [OF assms(1)] assms(2) by (fastforce simp: drain_inv_def is_shutting_down_def)

theorem drain_cancels_everything_witness:
  "\<exists>s. drain_reachable s \<and> ds_cancelled s \<and> is_shutting_down (ds_p s)"
proof -
  let ?s0 = "\<lparr>ds_p = process_init, ds_h = Handle_new 1 True, ds_admitted = 0, ds_cancelled = False\<rparr>"
  let ?p1 = "process_init\<lparr>shutting_down := True\<rparr>"
  obtain n p' where c: "cancel_all (?p1, Handle_new 1 True) = (n, p')" by force
  have r1: "drain_reachable (?s0\<lparr>ds_p := ?p1\<rparr>)" using drain_reachable.step [OF fresh raised, of 1 True] by simp
  have "drain_step (?s0\<lparr>ds_p := ?p1\<rparr>) (?s0\<lparr>ds_p := p', ds_cancelled := True\<rparr>)"
    using cancels [of "?s0\<lparr>ds_p := ?p1\<rparr>" n p'] c by (simp add: is_shutting_down_def)
  from drain_reachable.step [OF r1 this] have r2: "drain_reachable (?s0\<lparr>ds_p := p', ds_cancelled := True\<rparr>)" .
  from drain_cancels_everything [OF r2] r2 show ?thesis
    by (intro exI [of _ "?s0\<lparr>ds_p := p', ds_cancelled := True\<rparr>"]) simp
qed





end
