(* ===== verification/Pool_System.thy ===== *)
theory Pool_System
  imports Lifecycle
begin

text \<open>
  A handle in use: submitters, workers, the reader and the closer, each operation one step, in any order. A
  unit's turn is two steps, the dequeue and the delivery, so any number of units run at once. The engines
  are the adopter's, under the two contracts of \<open>Worker\<close>: they leave the pool's tables alone and respect
  the buffer registry.
\<close>

subsection \<open>The system\<close>

text \<open>\<open>ps_issued\<close>, \<open>ps_done\<close> and \<open>ps_taken\<close> record the history: the tickets returned by submits, those whose
  delivery has ended, and those whose result \<open>take\<close> has moved out.\<close>

record pool_sys =
  ps_p :: process
  ps_h :: Handle
  ps_running :: "WorkUnit list"
  ps_issued :: "u64 list"
  ps_done :: "u64 list"
  ps_taken :: "u64 list"

definition pool_start :: "nat \<Rightarrow> bool \<Rightarrow> pool_sys" where
  "pool_start n inline = \<lparr>ps_p = process_init, ps_h = Handle_new n inline, ps_running = [], ps_issued = [], ps_done = [], ps_taken = []\<rparr>"

inductive pool_step :: "engines \<Rightarrow> diag_env \<Rightarrow> sys_alloc \<Rightarrow> pool_sys \<Rightarrow> pool_sys \<Rightarrow> bool" for e denv sa where
  submitted: "submit_classified se header input bid (ps_p s, ps_h s) = (Inr t, p', h') \<Longrightarrow>
     pool_step e denv sa s (s\<lparr>ps_p := p', ps_h := h', ps_issued := ps_issued s @ [t]\<rparr>)"
| refused: "submit_classified se header input bid (ps_p s, ps_h s) = (Inl err, p', h') \<Longrightarrow>
     pool_step e denv sa s (s\<lparr>ps_p := p', ps_h := h'\<rparr>)"
| dequeued: "pop_poll (h_queue (ps_h s)) = (Some u, q') \<or> pop_locked (h_queue (ps_h s)) = (Took u, q') \<Longrightarrow>
     pool_step e denv sa s (s\<lparr>ps_h := (ps_h s)\<lparr>h_queue := q'\<rparr>, ps_running := u # ps_running s\<rparr>)"
| delivered: "u \<in> set (ps_running s) \<Longrightarrow> turn_alive te \<Longrightarrow>
     worker_turn be disp e denv sa th te u (ps_p s, ps_h s) = Some (out, p', h') \<Longrightarrow>
     pool_step e denv sa s (s\<lparr>ps_p := p', ps_h := h', ps_running := remove1 u (ps_running s), ps_done := ps_done s @ [u_ticket u]\<rparr>)"
| took: "take_result t (ps_h s) = (Inr r, h') \<Longrightarrow>
     pool_step e denv sa s (s\<lparr>ps_h := h', ps_taken := ps_taken s @ [t]\<rparr>)"
| cancelled: "cancel t (ps_p s, ps_h s) = (b, p') \<Longrightarrow> pool_step e denv sa s (s\<lparr>ps_p := p'\<rparr>)"
| allocated: "allocate_buffer sa len ch (ps_p s, ps_h s) = (r, p', h') \<Longrightarrow> pool_step e denv sa s (s\<lparr>ps_p := p', ps_h := h'\<rparr>)"
| freed: "buf_free i (ps_p s, ps_h s) = (p', h') \<Longrightarrow> pool_step e denv sa s (s\<lparr>ps_p := p', ps_h := h'\<rparr>)"
| published: "buf_from_bytes sa data (ps_p s, ps_h s) = (r, p', h') \<Longrightarrow> pool_step e denv sa s (s\<lparr>ps_p := p', ps_h := h'\<rparr>)"
| cancelled_all: "cancel_all (ps_p s, ps_h s) = (n, p') \<Longrightarrow> pool_step e denv sa s (s\<lparr>ps_p := p'\<rparr>)"
| attached: "attach_ring (ps_h s) = (r, h') \<Longrightarrow> pool_step e denv sa s (s\<lparr>ps_h := h'\<rparr>)"
| poisons: "pool_step e denv sa s (s\<lparr>ps_h := poison (ps_h s)\<rparr>)"
| closing: "close_begin (ps_p s, ps_h s) = Some (ws, p', h') \<Longrightarrow> pool_step e denv sa s (s\<lparr>ps_p := p', ps_h := h'\<rparr>)"
| joined: "join_workers ce ws (ps_p s, ps_h s) = (r, fds, late, p', h') \<Longrightarrow> pool_step e denv sa s (s\<lparr>ps_p := p', ps_h := h'\<rparr>)"
| draining: "begin_shutdown strong hs (ps_p s, registry) = (n, p', registry') \<Longrightarrow> pool_step e denv sa s (s\<lparr>ps_p := p'\<rparr>)"
| housekeeping: "guard_only (ps_p s) p' \<Longrightarrow> pool_step e denv sa s (s\<lparr>ps_p := p'\<rparr>)"

text \<open>\<open>housekeeping\<close> is a call that touches only panic locations, status messages and the log. A pool starts as
  \<open>open\<close> hands it out, or as it is just before its first worker is spawned.\<close>

inductive pool_initial :: "pool_sys \<Rightarrow> bool" where
  unspawned: "n \<le> MAX_POOL_SIZE \<Longrightarrow> pool_initial (pool_start n inline)"
| opened: "open_classified oe n0 fd fds process_init = (Inr h, fds', p) \<Longrightarrow>
     pool_initial \<lparr>ps_p = p, ps_h = h, ps_running = [], ps_issued = [], ps_done = [], ps_taken = []\<rparr>"

inductive pool_reachable :: "engines \<Rightarrow> diag_env \<Rightarrow> sys_alloc \<Rightarrow> pool_sys \<Rightarrow> bool" for e denv sa where
  start: "pool_initial s \<Longrightarrow> pool_reachable e denv sa s"
| step: "pool_reachable e denv sa s \<Longrightarrow> pool_step e denv sa s s' \<Longrightarrow> pool_reachable e denv sa s'"

text \<open>The units in flight: queued, then running.\<close>

definition in_flight_units :: "pool_sys \<Rightarrow> WorkUnit list" where
  "in_flight_units s = items (h_queue (ps_h s)) @ ps_running s"

subsection \<open>Its invariants\<close>

text \<open>Every issued ticket is in flight or done, once; the cancel flags are the in-flight tickets.\<close>

definition tickets_inv :: "pool_sys \<Rightarrow> bool" where
  "tickets_inv s \<longleftrightarrow>
     mset (ps_issued s) = mset (map u_ticket (in_flight_units s) @ ps_done s) \<and> distinct (ps_issued s)
     \<and> idmap_ok (cancel_flags (ps_h s)) \<and> fst ` set (cancel_flags (ps_h s)) = u_ticket ` set (in_flight_units s)
     \<and> 0 < unat (next_ticket (ps_p s))
     \<and> (\<forall>t \<in> set (ps_issued s). 0 < unat t \<and> unat t < 2 ^ 63 \<and> unat t < unat (next_ticket (ps_p s)))"

text \<open>A result is there only for a delivered ticket, and not after it was taken.\<close>

definition results_inv :: "pool_sys \<Rightarrow> bool" where
  "results_inv s \<longleftrightarrow> idmap_ok (results (ps_h s)) \<and> dom (map_of (results (ps_h s))) \<subseteq> set (ps_done s)
     \<and> distinct (ps_taken s) \<and> set (ps_taken s) \<subseteq> set (ps_done s) \<and> set (ps_taken s) \<inter> dom (map_of (results (ps_h s))) = {}"

text \<open>\<open>F\<close> are the buffers that other handles of the process and their units hold; a pool on its own has none. Like the
  inputs of the pool's own units, no step may take them away.\<close>

definition memory_inv :: "TaskPayload list \<Rightarrow> pool_sys \<Rightarrow> bool" where
  "memory_inv F s \<longleftrightarrow> (\<exists>other. buf_inv other (ps_p s) (ps_h s) (map u_payload (in_flight_units s) @ F))"

definition pool_inv :: "TaskPayload list \<Rightarrow> pool_sys \<Rightarrow> bool" where
  "pool_inv F s \<longleftrightarrow> tickets_inv s \<and> results_inv s \<and> memory_inv F s \<and> ring_fine (ps_h s)
     \<and> h_pool_size (ps_h s) \<le> MAX_POOL_SIZE"

lemma pool_inv_unspawned: "n \<le> MAX_POOL_SIZE \<Longrightarrow> pool_inv [] (pool_start n inline)"
proof -
  assume "n \<le> MAX_POOL_SIZE"
  moreover
  have "memory_inv [] (pool_start n inline)"
    using buf_inv_init(1) [of n inline] by (auto simp: memory_inv_def pool_start_def in_flight_units_def Handle_new_def JobQueue_new_def)
  ultimately show ?thesis
    by (simp add: pool_inv_def tickets_inv_def results_inv_def pool_start_def in_flight_units_def Handle_new_def
        JobQueue_new_def process_init_def idmap_ok_def ring_fine_def)
qed

text \<open>A step that leaves the jobs alone.\<close>

definition same_jobs :: "pool_sys \<Rightarrow> pool_sys \<Rightarrow> bool" where
  "same_jobs s s' \<longleftrightarrow> cancel_flags (ps_h s') = cancel_flags (ps_h s) \<and> results (ps_h s') = results (ps_h s)
     \<and> items (h_queue (ps_h s')) = items (h_queue (ps_h s)) \<and> (ring_fine (ps_h s) \<longrightarrow> ring_fine (ps_h s'))
     \<and> h_pool_size (ps_h s') = h_pool_size (ps_h s) \<and> unat (next_ticket (ps_p s)) \<le> unat (next_ticket (ps_p s')) \<and> ps_running s' = ps_running s
     \<and> ps_issued s' = ps_issued s \<and> ps_done s' = ps_done s \<and> ps_taken s' = ps_taken s"

lemma same_jobs_inv: "same_jobs s s' \<Longrightarrow> memory_inv F s' \<Longrightarrow> pool_inv F s \<Longrightarrow> pool_inv F s'"
  by (fastforce simp: same_jobs_def pool_inv_def tickets_inv_def results_inv_def in_flight_units_def)

lemma buf_inv_core:
  assumes "pmem p' = pmem p" "arcs p' = arcs p" "next_buffer_id p' = next_buffer_id p" "buffers h' = buffers h"
    and "buf_inv other p h us"
  shows "buf_inv other p' h' us"
  using assms(1-3) buf_inv_handle [OF assms(4,5)] by (auto simp: buf_inv_def registry_inv_def intro: owner_inv_frame)

lemma memory_inv_eq:
  assumes "memory_inv F s" and "buffers (ps_h s') = buffers (ps_h s)"
    and "pmem (ps_p s') = pmem (ps_p s)" "arcs (ps_p s') = arcs (ps_p s)" "next_buffer_id (ps_p s') = next_buffer_id (ps_p s)"
    and "mset (map u_payload (in_flight_units s')) = mset (map u_payload (in_flight_units s))"
  shows "memory_inv F s'"
proof -
  have "mset (map u_payload (in_flight_units s') @ F) = mset (map u_payload (in_flight_units s) @ F)" using assms(6) by simp
  from assms(1) buf_inv_mset [OF this] buf_inv_core [OF assms(3-5,2)] show ?thesis unfolding memory_inv_def by blast
qed

text \<open>How far a submit gets: no payload was made, the ids are exhausted, or its unit met the queue.\<close>

lemma submit_cases:
  assumes run: "submit_classified se header input bid (p, h) = (r, p', h')" and inv: "buf_inv other p h us"
  obtains (early) err where "r = Inl err" "guard_only p p'" "crew_frame h h'"
  | (exhausted) err p1 pay p2 where "r = Inl err" "guard_only p p1" "crew_frame h h'"
      "make_payload input bid (p1, h') = (Inr pay, p2)" "p' = drop_payload pay p2"
  | (queued) v p1 h1 pay p2 t cn where "guard_only p p1" "crew_frame h h1" "make_payload input bid (p1, h1) = (Inr pay, p2)"
      "reserve_id (next_ticket p2) = (Inr t, cn)" "r = map_sum Failed id v" "\<not> h_poisoned h" "\<not> h_closed h"
      "enqueue (se_late se) \<lparr>u_ticket = t, u_ctx = JobContext_new (se_now se) header t, u_payload = pay, u_input_buffer_id = bid\<rparr>
         (p2\<lparr>next_ticket := cn\<rparr>, h1) = (v, p', h')"
proof (cases "h_poisoned h \<or> h_closed h \<or> shutting_down p \<or> flags header AND NOT GUSSET_FLAGS_KNOWN \<noteq> 0")
  case True
  with run have "p' = p" "h' = h" "\<exists>e. r = Inl e" unfolding submit_classified_def by (simp_all split: if_splits) blast+
  then show thesis using early by auto
next
  case False
  obtain w p1 h1 where w: "ensure_workers (se_th se) (se_fin se) (se_died se) (se_dead se) (se_spawns se) (p, h) = (w, p1, h1)"
    by (rule prod_cases3)
  have f: "guard_only p p1" "crew_frame h h1" using ensure_workers_frame [OF w] by auto
  obtain y p2 where y: "make_payload input bid (p1, h1) = (y, p2)" by force
  have "buf_inv other p1 h1 us"
    by (rule buf_inv_core [OF _ _ _ crew_frame_fields(6) [OF f(2)] inv]) (use f(1) in \<open>simp_all add: guard_only_def\<close>)
  note m = make_payload_spec [OF y this]
  consider (1) e where "w = Inl e" | (2) x e where "w = Inr x" "y = Inl e" | (3) x pay where "w = Inr x" "y = Inr pay"
    by (cases w; cases y) auto
  then show thesis
  proof cases
    case 3
    obtain z cn where z: "reserve_id (next_ticket p2) = (z, cn)" by force
    show thesis
    proof (cases z)
      case (Inl e)
      with False run w 3 y z f show thesis by (intro exhausted) (auto simp: submit_classified_def)
    next
      case (Inr t)
      obtain v p3 h3 where v: "enqueue (se_late se) \<lparr>u_ticket = t, u_ctx = JobContext_new (se_now se) header t, u_payload = pay,
          u_input_buffer_id = bid\<rparr> (p2\<lparr>next_ticket := cn\<rparr>, h1) = (v, p3, h3)" by (rule prod_cases3)
      with Inr False run w 3 y z have "r = map_sum Failed id v" "p3 = p'" "h3 = h'"
        by (auto simp: submit_classified_def split: sum.splits)
      with queued Inr False f y z v 3 show thesis by simp
    qed
  qed (use False run w y m f early in \<open>auto simp: submit_classified_def\<close>)
qed

text \<open>A submit queues one unit under the next ticket, or leaves the jobs as they were.\<close>

lemma submit_spec:
  assumes run: "submit_classified se header input bid (p, h) = (r, p', h')" and inv: "buf_inv other p h us"
    and fresh: "\<forall>t \<in> fst ` set (cancel_flags h). unat t < unat (next_ticket p)"
  shows "results h' = results h \<and> ring_fine h' = ring_fine h \<and> h_poisoned h' = h_poisoned h \<and> h_closed h' = h_closed h
    \<and> h_pool_size h' = h_pool_size h \<and> next_buffer_id p' = next_buffer_id p
    \<and> (\<forall>t. r = Inr t \<longrightarrow> \<not> h_poisoned h \<and> \<not> h_closed h \<and> t = next_ticket p \<and> 0 < unat t \<and> unat t < 2 ^ 63
         \<and> unat (next_ticket p') = unat t + 1 \<and> cancel_flags h' = AList.update t t (cancel_flags h)
         \<and> (\<exists>u. u_ticket u = t \<and> items (h_queue h') = items (h_queue h) @ [u] \<and> buf_inv other p' h' (u_payload u # us)))
    \<and> (\<forall>e. r = Inl e \<longrightarrow> cancel_flags h' = cancel_flags h \<and> items (h_queue h') = items (h_queue h)
         \<and> unat (next_ticket p) \<le> unat (next_ticket p') \<and> buf_inv other p' h' us)"
  using run inv
proof (cases rule: submit_cases)
  case early
  have "buf_inv other p' h' us"
    by (rule buf_inv_core [OF _ _ _ crew_frame_fields(6) [OF early(3)] inv]) (use early(2) in \<open>simp_all add: guard_only_def\<close>)
  with early crew_frame_fields [OF early(3)] show ?thesis by (simp add: guard_only_def)
next
  case (exhausted err p1 pay p2)
  have "buf_inv other p1 h' us"
    by (rule buf_inv_core [OF _ _ _ crew_frame_fields(6) [OF exhausted(3)] inv]) (use exhausted(2) in \<open>simp_all add: guard_only_def\<close>)
  from make_payload_spec [OF exhausted(4) this] exhausted crew_frame_fields [OF exhausted(3)] drop_payload_inv
  show ?thesis by (auto simp: guard_only_def)
next
  case (queued v p1 h1 pay p2 t cn)
  let ?p3 = "p2\<lparr>next_ticket := cn\<rparr>"
  note f = crew_frame_fields [OF queued(2)] and t = reserve_id_Inr [OF queued(4)]
  have "buf_inv other p1 h1 us"
    by (rule buf_inv_core [OF _ _ _ f(6) inv]) (use queued(1) in \<open>simp_all add: guard_only_def\<close>)
  from make_payload_spec [OF queued(3) this] queued(1)
  have i2: "buf_inv other p2 h1 (pay # us)" and n2: "next_ticket p2 = next_ticket p" "next_buffer_id p2 = next_buffer_id p"
    by (simp_all add: guard_only_def)
  have i3: "buf_inv other ?p3 h1 (pay # us)" by (rule buf_inv_core [OF _ _ _ _ i2]) simp_all
  have "t \<notin> fst ` set (cancel_flags h1)" using fresh f(1) t n2 by auto
  note en = enqueue_spec [OF queued(8), simplified, OF this]
  show ?thesis
  proof (cases v)
    case (Inl e2)
    with en obtain cs where d: "h' = h1" "p' = drop_payload pay (?p3\<lparr>cells := cs\<rparr>)" by (auto simp: drop_unit_def)
    have "buf_inv other (?p3\<lparr>cells := cs\<rparr>) h1 (pay # us)" by (rule buf_inv_core [OF _ _ _ _ i3]) simp_all
    from drop_payload_inv [OF this] d en f t n2 queued(5) Inl show ?thesis by auto
  next
    case (Inr t1)
    with en have "buf_inv other p' h' (pay # us)" by (intro buf_inv_core [OF _ _ _ _ i3]) auto
    then show ?thesis using en Inr queued(5-7) f t n2 by auto
  qed
qed

subsection \<open>Every step keeps the invariant\<close>

lemma tickets_inv_tickets:
  assumes "tickets_inv s"
  shows "u_ticket ` set (in_flight_units s) \<union> set (ps_done s) = set (ps_issued s)"
    and "distinct (map u_ticket (in_flight_units s) @ ps_done s)"
proof -
  have m: "mset (ps_issued s) = mset (map u_ticket (in_flight_units s) @ ps_done s)" and d: "distinct (ps_issued s)"
    using assms by (auto simp: tickets_inv_def)
  from mset_eq_setD [OF m] show "u_ticket ` set (in_flight_units s) \<union> set (ps_done s) = set (ps_issued s)" by simp
  from m d show "distinct (map u_ticket (in_flight_units s) @ ps_done s)" using mset_eq_imp_distinct_iff by blast
qed

lemma fresh_ticket:
  assumes "tickets_inv s"
  shows "\<forall>t \<in> fst ` set (cancel_flags (ps_h s)). unat t < unat (next_ticket (ps_p s))"
  using assms tickets_inv_tickets(1) [OF assms] by (auto simp: tickets_inv_def)

lemma set_keys_update: "fst ` set (AList.update k v al) = insert k (fst ` set al)"
  by (induction al) auto

lemma set_keys_delete: "fst ` set (AList.delete k al) = fst ` set al - {k}"
  by (induction al) (auto simp: AList.delete_eq)

lemma step_submitted:
  assumes inv: "pool_inv F s" and run: "submit_classified se header input bid (ps_p s, ps_h s) = (Inr t, p', h')"
  shows "pool_inv F (s\<lparr>ps_p := p', ps_h := h', ps_issued := ps_issued s @ [t]\<rparr>)" (is "pool_inv F ?s")
proof -
  have ti: "tickets_inv s" and ri: "results_inv s" and rf: "ring_fine (ps_h s)" using inv by (simp_all add: pool_inv_def)
  obtain other where b: "buf_inv other (ps_p s) (ps_h s) (map u_payload (in_flight_units s) @ F)"
    using inv by (auto simp: pool_inv_def memory_inv_def)
  note sp = submit_spec [OF run b fresh_ticket [OF ti]]
  from sp obtain u where u: "u_ticket u = t" "items (h_queue h') = items (h_queue (ps_h s)) @ [u]"
    "buf_inv other p' h' (u_payload u # map u_payload (in_flight_units s) @ F)" by (metis append_Cons)
  have it: "in_flight_units ?s = items (h_queue (ps_h s)) @ u # ps_running s" by (simp add: in_flight_units_def u(2))
  have "mset (map u_payload (in_flight_units ?s) @ F) = mset (u_payload u # map u_payload (in_flight_units s) @ F)"
    unfolding it by (simp add: in_flight_units_def)
  from buf_inv_mset [OF this u(3)] have mi: "memory_inv F ?s" by (auto simp: memory_inv_def)
  have "t \<notin> set (ps_issued s)" using ti sp by (auto simp: tickets_inv_def)
  with ti sp u(1) have "tickets_inv ?s" unfolding tickets_inv_def it
    by (auto simp: in_flight_units_def idmap_ok_def distinct_update set_keys_update)
  with mi ri rf sp inv show ?thesis by (simp add: pool_inv_def results_inv_def)
qed

lemma step_refused:
  assumes inv: "pool_inv F s" and run: "submit_classified se header input bid (ps_p s, ps_h s) = (Inl err, p', h')"
  shows "pool_inv F (s\<lparr>ps_p := p', ps_h := h'\<rparr>)"
proof -
  have ti: "tickets_inv s" using inv by (simp add: pool_inv_def)
  obtain other where b: "buf_inv other (ps_p s) (ps_h s) (map u_payload (in_flight_units s) @ F)"
    using inv by (auto simp: pool_inv_def memory_inv_def)
  from submit_spec [OF run b fresh_ticket [OF ti]] show ?thesis
    by (intro same_jobs_inv [OF _ _ inv]) (auto simp: same_jobs_def memory_inv_def in_flight_units_def)
qed

lemma popped_items:
  "pop_poll q = (Some u, q') \<or> pop_locked q = (Took u, q') \<Longrightarrow> items q = u # items q'"
  by (auto simp: pop_poll_def pop_locked_def Let_def split: if_splits list.splits)

lemma step_dequeued:
  assumes inv: "pool_inv F s" and pop: "pop_poll (h_queue (ps_h s)) = (Some u, q') \<or> pop_locked (h_queue (ps_h s)) = (Took u, q')"
  shows "pool_inv F (s\<lparr>ps_h := (ps_h s)\<lparr>h_queue := q'\<rparr>, ps_running := u # ps_running s\<rparr>)" (is "pool_inv F ?s")
proof -
  note q = popped_items [OF pop]
  have m: "mset (in_flight_units ?s) = mset (in_flight_units s)" by (simp add: in_flight_units_def q)
  then have ms: "set (in_flight_units ?s) = set (in_flight_units s)" by (rule mset_eq_setD)
  have mm: "mset (map f (in_flight_units ?s)) = mset (map f (in_flight_units s))" for f :: "WorkUnit \<Rightarrow> 'z"
    using m by (simp only: mset_map)
  have "memory_inv F ?s" using inv by (intro memory_inv_eq [OF _ _ _ _ _ mm]) (simp_all add: pool_inv_def)
  with inv show ?thesis
    unfolding pool_inv_def tickets_inv_def results_inv_def ms mset_append mm by (simp add: ring_fine_def)
qed

lemma step_took:
  assumes inv: "pool_inv F s" and run: "take_result t (ps_h s) = (Inr r, h')"
  shows "pool_inv F (s\<lparr>ps_h := h', ps_taken := ps_taken s @ [t]\<rparr>)" (is "pool_inv F ?s")
proof -
  have h': "h' = (ps_h s)\<lparr>results := AList.delete t (results (ps_h s))\<rparr>" "map_of (results (ps_h s)) t = Some r"
    using run by (auto simp: take_result_def split: option.splits)
  have "results_inv s" "memory_inv F s" using inv by (simp_all add: pool_inv_def)
  moreover have "memory_inv F ?s" using calculation(2) by (rule memory_inv_eq) (simp_all add: h' in_flight_units_def)
  moreover have "results_inv ?s"
    using calculation(1) h'(2) unfolding results_inv_def
    by (auto simp: h'(1) idmap_ok_def distinct_delete delete_conv' dom_def split: if_splits)
  ultimately show ?thesis using inv by (simp add: pool_inv_def tickets_inv_def in_flight_units_def h'(1) ring_fine_def)
qed

lemma allocate_buffer_frame:
  assumes "allocate_buffer sa len ch (p, h) = (r, p', h')"
  shows "pool_frame h h' \<and> proc_frame p p'"
proof (cases "h_poisoned h")
  case True
  with assms show ?thesis by (simp add: allocate_buffer_def)
next
  case False
  with assms have "register (build_slot (rb_allocate sa len) False ch) id (p, h) = (r, p', h')"
    by (simp add: allocate_buffer_def)
  then show ?thesis by (rule register_frame) (auto simp: build_slot_def rb_allocate_def BufferSlot_new_def arc_new_def Let_def split: sum.splits prod.splits)
qed

lemma buf_free_frame: "buf_free i (p, h) = (p', h') \<Longrightarrow> pool_frame h h' \<and> proc_frame p p'"
  by (auto simp: buf_free_def arc_drop_def split: option.splits)

text \<open>The steps that leave jobs and memory as they are.\<close>

definition quiet :: "process \<Rightarrow> Handle \<Rightarrow> process \<Rightarrow> Handle \<Rightarrow> bool" where
  "quiet p h p' h' \<longleftrightarrow> pmem p' = pmem p \<and> arcs p' = arcs p \<and> next_buffer_id p' = next_buffer_id p \<and> proc_frame p p'
     \<and> cancel_flags h' = cancel_flags h \<and> results h' = results h \<and> buffers h' = buffers h
     \<and> items (h_queue h') = items (h_queue h) \<and> h_pool_size h' = h_pool_size h
     \<and> (ring_fine h \<longrightarrow> ring_fine h') \<and> (h_poisoned h \<longrightarrow> h_poisoned h') \<and> (h_closed h \<longrightarrow> h_closed h')"

lemma guard_only_quiet: "guard_only p p' \<Longrightarrow> quiet p h p' h"
  by (simp add: quiet_def guard_only_def)

lemma cancel_quiet: "cancel t (p, h) = (b, p') \<Longrightarrow> quiet p h p' h"
  by (auto simp: quiet_def cancel_def split: option.splits)

lemma cancel_all_quiet: "cancel_all (p, h) = (n, p') \<Longrightarrow> quiet p h' p' h'"
  by (auto simp: quiet_def cancel_all_def)

lemma quiet_trans: "quiet p h q g \<Longrightarrow> quiet q g r f \<Longrightarrow> quiet p h r f"
  by (simp add: quiet_def)

lemma poison_quiet: "quiet p h p (poison h)"
  by (simp add: quiet_def poison_def ring_fine_def)

lemma attach_quiet: "attach_ring h = (r, h') \<Longrightarrow> h_pool_size h \<le> MAX_POOL_SIZE \<Longrightarrow> quiet p h p h'"
  using ring_new_ok(1) [of "h_pool_size h"]
  by (auto simp: quiet_def attach_ring_def MAX_POOL_SIZE_def Let_def split: option.splits)

lemma close_begin_quiet: "close_begin (p, h) = Some (ws, p', h') \<Longrightarrow> quiet p h p' h'"
  by (auto simp: quiet_def close_begin_def close_store_def close_lock_def cancel_all_def ring_fine_def Let_def split: if_splits)

lemma join_quiet: "join_workers ce ws (p, h) = (r, fds, late, p', h') \<Longrightarrow> quiet p h p' h'"
proof -
  assume run: "join_workers ce ws (p, h) = (r, fds, late, p', h')"
  have "guard_only p p'" using run join_all_frame
    by (auto simp: join_workers_def Let_def split: prod.splits if_splits wait_end.splits)
  moreover have "h' = h \<or> h' = snd (release_pipe h)" using run
    by (auto simp: join_workers_def Let_def split: prod.splits if_splits wait_end.splits)
  ultimately show ?thesis by (auto simp: quiet_def guard_only_def release_pipe_def ring_fine_def)
qed

lemma shutdown_quiet: "begin_shutdown strong hs (p, registry) = (n, p', registry') \<Longrightarrow> quiet p h p' h"
proof -
  have "quiet q h (fold (\<lambda>i q. snd (cancel_all (q, hs i))) js q) h" for q js
  proof (induction js arbitrary: q)
    case (Cons j js)
    have "quiet q h (snd (cancel_all (q, hs j))) h" using cancel_all_quiet [of q "hs j" _ _ h] by (cases "cancel_all (q, hs j)") simp
    with Cons.IH show ?case by (auto intro: quiet_trans)
  qed (simp add: quiet_def)
  moreover have "quiet p h (p\<lparr>shutting_down := True\<rparr>) h" by (simp add: quiet_def guard_ok_def)
  ultimately show "begin_shutdown strong hs (p, registry) = (n, p', registry') \<Longrightarrow> quiet p h p' h"
    by (auto simp: begin_shutdown_def Let_def intro: quiet_trans)
qed

lemma open_quiet:
  assumes "open_classified oe n0 fd fds p = (Inr h, fds', p')"
  obtains n inline where "n \<le> MAX_POOL_SIZE" "quiet p (Handle_new n inline) p' h" "h_poisoned h = False" "h_closed h = False"
proof -
  obtain n inline h1 where n: "n \<le> MAX_POOL_SIZE" "guard_only (install_panic_hook p) p'"
    and c: "crew_frame (Handle_new n inline) h1" and h: "h = h1\<lparr>pipe_write_fd := fd\<rparr>"
    using open_classified_frame [OF assms] by blast
  have "quiet p (Handle_new n inline) p' h"
    using n(2) crew_frame_fields [OF c] by (simp add: quiet_def guard_only_def h ring_fine_def install_panic_hook_def guard_ok_def)
  moreover have "h_poisoned h = False" "h_closed h = False"
    using crew_frame_fields [OF c] by (simp_all add: h Handle_new_def)
  ultimately show thesis using that n(1) by blast
qed

lemma quiet_inv:
  assumes "quiet (ps_p s) (ps_h s) p' h'" and inv: "pool_inv F s"
  shows "pool_inv F (s\<lparr>ps_p := p', ps_h := h'\<rparr>)"
proof -
  have "memory_inv F s" using inv by (simp add: pool_inv_def)
  with assms(1) show ?thesis unfolding quiet_def
    by (intro same_jobs_inv [OF _ memory_inv_eq inv]) (simp_all add: same_jobs_def in_flight_units_def)
qed

lemma step_buffers:
  assumes inv: "pool_inv F s" and fr: "pool_frame (ps_h s) h'" "next_ticket p' = next_ticket (ps_p s)"
    and buf: "\<And>other us. buf_inv other (ps_p s) (ps_h s) us \<Longrightarrow> buf_inv other p' h' us"
  shows "pool_inv F (s\<lparr>ps_p := p', ps_h := h'\<rparr>)"
proof -
  note f = pool_frame_fields [OF fr(1)]
  have "memory_inv F s" using inv by (simp add: pool_inv_def)
  then have "memory_inv F (s\<lparr>ps_p := p', ps_h := h'\<rparr>)" using buf by (auto simp: memory_inv_def in_flight_units_def f)
  then show ?thesis by (intro same_jobs_inv [OF _ _ inv]) (simp_all add: same_jobs_def f fr(2))
qed

lemma pool_inv_start: "pool_initial s \<Longrightarrow> pool_inv [] s"
proof (induction rule: pool_initial.induct)
  case (unspawned n inline)
  then show ?case by (rule pool_inv_unspawned)
next
  case (opened oe n0 fd fds h fds' p)
  then obtain n inline where n: "n \<le> MAX_POOL_SIZE" and q: "quiet process_init (Handle_new n inline) p h" by (rule open_quiet)
  have "pool_inv [] ((pool_start n inline)\<lparr>ps_p := p, ps_h := h\<rparr>)"
    using q by (intro quiet_inv pool_inv_unspawned [OF n]) (simp add: pool_start_def)
  then show ?case by (simp add: pool_start_def)
qed

text \<open>Most steps are quiet.\<close>

lemma pool_step_quiet:
  assumes "pool_step e denv sa s s'" and "pool_inv F s"
  obtains (quiet) p' h' where "s' = s\<lparr>ps_p := p', ps_h := h'\<rparr>" "quiet (ps_p s) (ps_h s) p' h'"
  | (submitted) se header input bid t p' h' where "submit_classified se header input bid (ps_p s, ps_h s) = (Inr t, p', h')"
      "s' = s\<lparr>ps_p := p', ps_h := h', ps_issued := ps_issued s @ [t]\<rparr>"
  | (refused) se header input bid err p' h' where "submit_classified se header input bid (ps_p s, ps_h s) = (Inl err, p', h')"
      "s' = s\<lparr>ps_p := p', ps_h := h'\<rparr>"
  | (dequeued) u q' where "pop_poll (h_queue (ps_h s)) = (Some u, q') \<or> pop_locked (h_queue (ps_h s)) = (Took u, q')"
      "s' = s\<lparr>ps_h := (ps_h s)\<lparr>h_queue := q'\<rparr>, ps_running := u # ps_running s\<rparr>"
  | (delivered) u te be disp th out p' h' where "u \<in> set (ps_running s)" "turn_alive te"
      "worker_turn be disp e denv sa th te u (ps_p s, ps_h s) = Some (out, p', h')"
      "s' = s\<lparr>ps_p := p', ps_h := h', ps_running := remove1 u (ps_running s), ps_done := ps_done s @ [u_ticket u]\<rparr>"
  | (took) t r h' where "take_result t (ps_h s) = (Inr r, h')" "s' = s\<lparr>ps_h := h', ps_taken := ps_taken s @ [t]\<rparr>"
  | (buffers) p' h' where "s' = s\<lparr>ps_p := p', ps_h := h'\<rparr>" "pool_frame (ps_h s) h'" "proc_frame (ps_p s) p'"
      "sys_alloc_ok sa \<Longrightarrow> (\<And>other us. buf_inv other (ps_p s) (ps_h s) us \<Longrightarrow> buf_inv other p' h' us)"
  using assms(1)
proof cases
  case (attached r h')
  then show ?thesis using attach_quiet [of "ps_h s"] assms(2) by (intro quiet [where p' = "ps_p s" and h' = h']) (simp_all add: pool_inv_def)
next
  case poisons
  then show ?thesis using poison_quiet by (intro quiet [where p' = "ps_p s"]) simp_all
next
  case (cancelled t b p')
  then show ?thesis using cancel_quiet by (intro quiet [where p' = p' and h' = "ps_h s"]) simp_all
next
  case (cancelled_all n p')
  then show ?thesis using cancel_all_quiet by (intro quiet [where p' = p' and h' = "ps_h s"]) simp_all
next
  case (closing ws p' h')
  then show ?thesis using close_begin_quiet by (intro quiet [where p' = p' and h' = h']) simp_all
next
  case (joined ce ws r fds late p' h')
  then show ?thesis using join_quiet by (intro quiet [where p' = p' and h' = h']) simp_all
next
  case (draining strong hs registry n p' registry')
  then show ?thesis using shutdown_quiet by (intro quiet [where p' = p' and h' = "ps_h s"]) simp_all
next
  case (housekeeping p')
  then show ?thesis using guard_only_quiet by (intro quiet [where p' = p' and h' = "ps_h s"]) simp_all
next
  case (allocated len ch r p' h')
  then show ?thesis using allocate_buffer_frame [OF allocated(2)] allocate_buffer_inv [OF _ _ allocated(2)]
    by (intro buffers [where p' = p' and h' = h']) simp_all
next
  case (freed i p' h')
  then show ?thesis using buf_free_frame [OF freed(2)] buf_free_inv [OF _ freed(2)] by (intro buffers [where p' = p' and h' = h']) simp_all
next
  case (published data r p' h')
  then show ?thesis using buf_from_bytes_frame [OF published(2)] buf_from_bytes_inv [OF _ _ published(2)]
    by (intro buffers [where p' = p' and h' = h']) simp_all
qed (rule submitted refused dequeued delivered took; assumption)+

subsection \<open>The contract of an adopter\<close>

text \<open>What the adopter's engines and the allocator promise the pool: the allocator hands out memory of its own;
  the engines leave the pool they run on alone and respect the buffer registry.\<close>

definition pool_contract :: "engines \<Rightarrow> diag_env \<Rightarrow> sys_alloc \<Rightarrow> bool" where
  "pool_contract e denv sa \<longleftrightarrow> sys_alloc_ok sa \<and> engines_frame e denv \<and> engine_buf_ok e denv"

locale pool_client =
  fixes e :: engines and denv :: diag_env and sa :: sys_alloc
  assumes allocator: "sys_alloc_ok sa"
    and engines_keep_pool: "engines_frame e denv"
    and engines_keep_buffers: "engine_buf_ok e denv"
begin

lemma turn_framed:
  assumes inv: "pool_inv F s" and u: "u \<in> set (ps_running s)" and al: "turn_alive te"
    and run: "worker_turn be disp e denv sa th te u (ps_p s, ps_h s) = Some (out, p', h')"
  shows "turn_frame (u_ticket u) (ps_p s, ps_h s) (p', h')"
proof -
  have ti: "tickets_inv s" and rf: "ring_fine (ps_h s)" using inv by (simp_all add: pool_inv_def)
  have "u_ticket u \<in> set (ps_issued s)" using tickets_inv_tickets(1) [OF ti] u by (auto simp: in_flight_units_def)
  with ti have "0 < unat (u_ticket u)" "unat (u_ticket u) < 2 ^ 63" by (auto simp: tickets_inv_def)
  moreover from this(1) have "u_ticket u \<noteq> 0" by auto
  ultimately show ?thesis using worker_turn_frame [OF engines_keep_pool rf _ _ run al] by blast
qed

lemma step_delivered:
  assumes inv: "pool_inv F s" and u: "u \<in> set (ps_running s)" and al: "turn_alive te"
    and run: "worker_turn be disp e denv sa th te u (ps_p s, ps_h s) = Some (out, p', h')"
  shows "pool_inv F (s\<lparr>ps_p := p', ps_h := h', ps_running := remove1 u (ps_running s), ps_done := ps_done s @ [u_ticket u]\<rparr>)"
    (is "pool_inv F ?s")
proof -
  have ti: "tickets_inv s" and ri: "results_inv s" and rf: "ring_fine (ps_h s)" using inv by (simp_all add: pool_inv_def)
  note tk = tickets_inv_tickets [OF ti]
  have uin: "u \<in> set (in_flight_units s)" using u by (simp add: in_flight_units_def)
  have m: "mset (in_flight_units s) = add_mset u (mset (items (h_queue (ps_h s)) @ remove1 u (ps_running s)))"
    using u by (simp add: in_flight_units_def)
  from turn_framed [OF inv u al run] have fr: "cancel_flags h' = AList.delete (u_ticket u) (cancel_flags (ps_h s))"
    "\<And>x. x \<noteq> u_ticket u \<Longrightarrow> map_of (results h') x = map_of (results (ps_h s)) x"
    "idmap_ok (results (ps_h s)) \<longrightarrow> idmap_ok (results h')" "h_queue h' = h_queue (ps_h s)" "ring_fine h'"
    "next_ticket p' = next_ticket (ps_p s)" "h_pool_size h' = h_pool_size (ps_h s)" by (auto simp: turn_frame_def)
  have it: "in_flight_units ?s = items (h_queue (ps_h s)) @ remove1 u (ps_running s)" by (simp add: in_flight_units_def fr(4))
  obtain other where b: "buf_inv other (ps_p s) (ps_h s) (map u_payload (in_flight_units s) @ F)"
    using inv by (auto simp: pool_inv_def memory_inv_def)
  have mp: "mset (map f (in_flight_units s)) = mset (f u # map f (in_flight_units ?s))" for f :: "WorkUnit \<Rightarrow> 'z"
    using m unfolding it mset_map by simp
  have "mset (u_payload u # map u_payload (in_flight_units ?s) @ F) = mset (map u_payload (in_flight_units s) @ F)"
    using mp [of u_payload] by simp
  from buf_inv_mset [OF this b]
  have "buf_inv other (ps_p s) (ps_h s) (u_payload u # map u_payload (in_flight_units ?s) @ F)" .
  from worker_turn_inv [OF allocator engines_keep_buffers engines_keep_pool this rf run al] have mi: "memory_inv F ?s" by (auto simp: memory_inv_def)
  have dist: "distinct (u_ticket u # map u_ticket (in_flight_units ?s) @ ps_done s)"
    using tk(2) mp [of u_ticket] mset_eq_imp_distinct_iff [of "map u_ticket (in_flight_units s) @ ps_done s"
      "u_ticket u # map u_ticket (in_flight_units ?s) @ ps_done s"] by simp
  have sets: "u_ticket ` set (in_flight_units s) = insert (u_ticket u) (u_ticket ` set (in_flight_units ?s))"
    using mset_eq_setD [OF mp [of u_ticket]] by simp
  have "tickets_inv ?s"
    using ti dist sets fr(1,6) mp [of u_ticket]
    by (auto simp: tickets_inv_def idmap_ok_def distinct_delete set_keys_delete)
  moreover have "results_inv ?s"
  proof -
    have nd: "u_ticket u \<notin> set (ps_done s)" using dist by simp
    have sub: "dom (map_of (results h')) \<subseteq> insert (u_ticket u) (dom (map_of (results (ps_h s))))" using fr(2) by fastforce
    have "set (ps_taken s) \<inter> dom (map_of (results h')) = {}" using sub nd ri unfolding results_inv_def by blast
    moreover have "dom (map_of (results h')) \<subseteq> set (ps_done s @ [u_ticket u])" using sub ri unfolding results_inv_def by auto
    ultimately show ?thesis using ri fr(3) unfolding results_inv_def by auto
  qed
  ultimately show ?thesis using mi inv fr(5,7) by (simp add: pool_inv_def)
qed

lemma pool_step_inv:
  assumes "pool_step e denv sa s s'" and inv: "pool_inv F s"
  shows "pool_inv F s'"
  using assms
proof (cases rule: pool_step_quiet)
  case quiet
  then show ?thesis using quiet_inv [OF _ inv] by simp
next
  case submitted
  then show ?thesis using step_submitted [OF inv] by simp
next
  case refused
  then show ?thesis using step_refused [OF inv] by simp
next
  case dequeued
  then show ?thesis using step_dequeued [OF inv] by simp
next
  case delivered
  then show ?thesis using step_delivered [OF inv] by simp
next
  case took
  then show ?thesis using step_took [OF inv] by simp
next
  case buffers
  then show ?thesis using step_buffers [OF inv] allocator by simp
qed

text \<open>The id counters never go back.\<close>

lemma pool_step_counters:
  assumes "pool_step e denv sa s s'" and inv: "pool_inv F s"
  shows "next_buffer_id (ps_p s) \<le> next_buffer_id (ps_p s') \<and> unat (next_ticket (ps_p s)) \<le> unat (next_ticket (ps_p s'))
    \<and> (ps_issued s' = ps_issued s \<or> ps_issued s' = ps_issued s @ [next_ticket (ps_p s)])"
proof -
  obtain other where b: "buf_inv other (ps_p s) (ps_h s) (map u_payload (in_flight_units s) @ F)"
    using inv by (auto simp: pool_inv_def memory_inv_def)
  have ti: "tickets_inv s" using inv by (simp add: pool_inv_def)
  from assms show ?thesis
  proof (cases rule: pool_step_quiet)
    case submitted
    with submit_spec [OF submitted(1) b fresh_ticket [OF ti]] show ?thesis by auto
  next
    case refused
    with submit_spec [OF refused(1) b fresh_ticket [OF ti]] show ?thesis by auto
  next
    case delivered
    with turn_framed [OF inv delivered(1-3)] show ?thesis by (simp add: turn_frame_def)
  qed (simp_all add: quiet_def)
qed

lemma pool_reachable_inv:
  assumes "pool_reachable e denv sa s"
  shows "pool_inv [] s"
  using assms by induction (auto intro: pool_inv_start pool_step_inv)

text \<open>A poisoned handle stays poisoned and issues nothing.\<close>

lemma poisoned_step:
  assumes step: "pool_step e denv sa s s'" and inv: "pool_inv F s" and pz: "h_poisoned (ps_h s)"
  shows "h_poisoned (ps_h s') \<and> ps_issued s' = ps_issued s"
  using step inv
proof (cases rule: pool_step_quiet)
  case quiet
  with pz show ?thesis by (simp add: quiet_def)
next
  case delivered
  with turn_framed [OF inv delivered(1-3)] pz show ?thesis by (simp add: turn_frame_def)
next
  case took
  with pz show ?thesis by (auto simp: take_result_def split: option.splits)
next
  case buffers
  with pz show ?thesis by (auto simp: pool_frame_def)
qed (use pz in \<open>simp_all add: submit_classified_def\<close>)

lemma poisoned_steps:
  assumes "(pool_step e denv sa)\<^sup>*\<^sup>* s s'" and "pool_inv F s" and "h_poisoned (ps_h s)"
  shows "h_poisoned (ps_h s') \<and> ps_issued s' = ps_issued s \<and> pool_inv F s'"
  using assms(1)
proof induction
  case base
  with assms(2,3) show ?case by simp
next
  case (step y z)
  with poisoned_step [OF step(2), of F] pool_step_inv [OF step(2), of F] show ?case by simp
qed

end

lemma pool_client_iff: "pool_client e denv sa \<longleftrightarrow> pool_contract e denv sa"
  by (auto simp: pool_client_def pool_contract_def)

lemma in_flight_count:
  assumes "tickets_inv s"
  shows "in_flight (ps_h s) = length (in_flight_units s)"
proof -
  have "in_flight (ps_h s) = card (fst ` set (cancel_flags (ps_h s)))"
    using assms distinct_card [of "map fst (cancel_flags (ps_h s))"] by (simp add: in_flight_def tickets_inv_def idmap_ok_def)
  also have "\<dots> = card (set (map u_ticket (in_flight_units s)))" using assms by (simp add: tickets_inv_def)
  also have "\<dots> = length (in_flight_units s)"
    using distinct_card [of "map u_ticket (in_flight_units s)"] tickets_inv_tickets(2) [OF assms] by simp
  finally show ?thesis .
qed

lemma memory_inv_live:
  assumes "memory_inv F s"
  shows "map_of (buffers (ps_h s)) i = Some b \<Longrightarrow> live_buf (ps_p s) (slot_buf b)"
    and "u \<in> set (items (h_queue (ps_h s))) \<union> set (ps_running s) \<Longrightarrow> u_payload u = Shared c \<Longrightarrow> live_buf (ps_p s) c"
    and "slots_disjoint (ps_h s)"
proof -
  obtain other where b: "buf_inv other (ps_p s) (ps_h s) (map u_payload (in_flight_units s) @ F)" using assms by (auto simp: memory_inv_def)
  then have lv: "live_buf (ps_p s) x" if "x \<in> set (held (ps_h s) (map u_payload (in_flight_units s) @ F))" for x
    using that by (auto simp: buf_inv_def owner_inv_def)
  show "map_of (buffers (ps_h s)) i = Some b \<Longrightarrow> live_buf (ps_p s) (slot_buf b)"
    by (rule lv) (auto simp: held_def dest!: map_of_SomeD intro!: rev_image_eqI)
  show "u \<in> set (items (h_queue (ps_h s))) \<union> set (ps_running s) \<Longrightarrow> u_payload u = Shared c \<Longrightarrow> live_buf (ps_p s) c"
    by (rule lv) (force simp: held_def in_flight_units_def)
  show "slots_disjoint (ps_h s)" by (rule inv_disjoint [OF b])
qed

subsection \<open>A job in flight\<close>

text \<open>A pool of one worker in which one two-byte job has been submitted and dequeued.\<close>

definition demo_submit :: submit_env where
  "demo_submit = \<lparr>se_th = demo_thread, se_fin = (\<lambda>_. False), se_died = (\<lambda>_. None), se_dead = {}, se_spawns = [],
     se_now = 0, se_late = False\<rparr>"

lemma demo_submitted:
  "\<exists>p' h' u. submit_classified demo_submit CallHeader_default [1, 2] 0 (process_init, Handle_new 1 True) = (Inr 1, p', h')
    \<and> items (h_queue h') = [u] \<and> u_ticket u = 1 \<and> \<not> h_poisoned h'"
  by (simp add: submit_classified_def demo_submit_def CallHeader_default_def ensure_workers_def nothing_to_do_def
      make_payload_def reserve_id_def enqueue_def try_send_def push_def Handle_new_def JobQueue_new_def process_init_def
      SMALL_INPUT_def MAX_INLINE_INPUT_def ID_CEILING_def TAKE_OWNED_FLAG_def word_le_nat_alt Let_def)

lemma echo_contract: "pool_contract echo_engines quiet_env bump_alloc"
  by (simp add: pool_contract_def bump_alloc_ok echo_ok)

lemma demo_running:
  "\<exists>s. pool_reachable echo_engines quiet_env bump_alloc s \<and> ps_issued s = [1] \<and> map u_ticket (ps_running s) = [1]
    \<and> ps_done s = [] \<and> items (h_queue (ps_h s)) = []"
proof -
  let ?s0 = "pool_start 1 True"
  obtain p h u where run: "submit_classified demo_submit CallHeader_default [1, 2] 0 (process_init, Handle_new 1 True) = (Inr 1, p, h)"
    and u: "items (h_queue h) = [u]" "u_ticket u = 1" using demo_submitted by blast
  let ?s1 = "?s0\<lparr>ps_p := p, ps_h := h, ps_issued := ps_issued ?s0 @ [1]\<rparr>"
  have "pool_reachable echo_engines quiet_env bump_alloc ?s1"
    by (rule pool_reachable.step [OF pool_reachable.start [OF unspawned] pool_step.submitted]) (use run in \<open>simp_all add: pool_start_def MAX_POOL_SIZE_def\<close>)
  moreover obtain q where q: "pop_locked (h_queue h) = (Took u, q)" "items q = []" using u by (simp add: pop_locked_def)
  then have "pool_step echo_engines quiet_env bump_alloc ?s1 (?s1\<lparr>ps_h := (ps_h ?s1)\<lparr>h_queue := q\<rparr>, ps_running := u # ps_running ?s1\<rparr>)"
    by (intro pool_step.dequeued) simp
  ultimately have "pool_reachable echo_engines quiet_env bump_alloc (?s1\<lparr>ps_h := (ps_h ?s1)\<lparr>h_queue := q\<rparr>, ps_running := u # ps_running ?s1\<rparr>)"
    (is "pool_reachable _ _ _ ?s2") by (rule pool_reachable.step)
  moreover have "ps_issued ?s2 = [1]" "map u_ticket (ps_running ?s2) = [1]" "ps_done ?s2 = []" "items (h_queue (ps_h ?s2)) = []"
    by (simp_all add: pool_start_def u q)
  ultimately show ?thesis by (intro exI [of _ ?s2] conjI)
qed

subsection \<open>Properties\<close>

text \<open>C1: No ticket is lost or answered twice. In every state a handle can reach, under any interleaving of
  submits, dequeues, deliveries, takes, cancels, buffer calls and a close, each ticket a submit returned is in
  exactly one place: queued, running, or delivered once. The flags counted by \<open>in_flight\<close>, on which the
  drain of a shutdown waits, are exactly the queued and running tickets.\<close>

theorem ticket_conservation:
  assumes "pool_reachable e denv sa s" and "pool_contract e denv sa"
  shows "mset (ps_issued s) = mset (map u_ticket (items (h_queue (ps_h s)))) + mset (map u_ticket (ps_running s)) + mset (ps_done s)
    \<and> distinct (ps_issued s) \<and> in_flight (ps_h s) = length (items (h_queue (ps_h s))) + length (ps_running s)
    \<and> (\<forall>t. map_of (cancel_flags (ps_h s)) t \<noteq> None \<longleftrightarrow>
          t \<in> set (map u_ticket (items (h_queue (ps_h s)))) \<or> t \<in> set (map u_ticket (ps_running s)))"
proof -
  have ti: "tickets_inv s" using pool_client.pool_reachable_inv [OF pool_client_iff [THEN iffD2, OF assms(2)] assms(1)] by (simp add: pool_inv_def)
  have "map_of (cancel_flags (ps_h s)) t \<noteq> None \<longleftrightarrow> t \<in> u_ticket ` set (in_flight_units s)" for t
    using ti by (simp add: tickets_inv_def map_of_eq_None_iff)
  with ti in_flight_count [OF ti] show ?thesis by (auto simp: tickets_inv_def in_flight_units_def)
qed

theorem ticket_conservation_witness:
  "\<exists>s. pool_reachable echo_engines quiet_env bump_alloc s \<and> ps_issued s = [1] \<and> in_flight (ps_h s) = 1"
proof -
  obtain s where s: "pool_reachable echo_engines quiet_env bump_alloc s" "ps_issued s = [1]" "map u_ticket (ps_running s) = [1]"
    "items (h_queue (ps_h s)) = []" using demo_running by (elim exE conjE)
  have "length (ps_running s) = 1" using arg_cong [OF s(3), of length] by simp
  with ticket_conservation [OF s(1) echo_contract] s show ?thesis by auto
qed

text \<open>A result is moved out once, and only after its delivery. In every reachable state the tickets
  taken are distinct and were all delivered, and a further \<open>take\<close> of one of them, or a \<open>take\<close> of a ticket
  still in flight, finds nothing.\<close>

theorem result_taken_once:
  assumes "pool_reachable e denv sa s" and "pool_contract e denv sa"
  shows "distinct (ps_taken s) \<and> set (ps_taken s) \<subseteq> set (ps_done s)
    \<and> (\<forall>t r h'. take_result t (ps_h s) = (Inr r, h') \<longrightarrow>
          t \<in> set (ps_done s) \<and> t \<notin> set (ps_taken s) \<and> map_of (cancel_flags (ps_h s)) t = None)"
proof -
  have ti: "tickets_inv s" and ri: "results_inv s" using pool_client.pool_reachable_inv [OF pool_client_iff [THEN iffD2, OF assms(2)] assms(1)] by (simp_all add: pool_inv_def)
  have gone: "map_of (cancel_flags (ps_h s)) t = None" if "t \<in> set (ps_done s)" for t
  proof -
    have "t \<notin> u_ticket ` set (in_flight_units s)" using tickets_inv_tickets(2) [OF ti] that by auto
    with ti show ?thesis by (simp add: tickets_inv_def map_of_eq_None_iff)
  qed
  have "t \<in> set (ps_done s) \<and> t \<notin> set (ps_taken s)" if "take_result t (ps_h s) = (Inr r, h')" for t r h'
  proof -
    have "t \<in> dom (map_of (results (ps_h s)))" using that by (auto simp: take_result_def split: option.splits)
    with ri show ?thesis unfolding results_inv_def by blast
  qed
  with gone ri show ?thesis unfolding results_inv_def by blast
qed

theorem result_taken_once_witness:
  "\<exists>s. pool_reachable echo_engines quiet_env bump_alloc s \<and> ps_issued s = [1]
    \<and> (\<exists>e. fst (take_result 1 (ps_h s)) = Inl e)"
proof -
  obtain s where s: "pool_reachable echo_engines quiet_env bump_alloc s" "ps_issued s = [1]" "ps_done s = []"
    using demo_running by blast
  have "fst (take_result 1 (ps_h s)) \<noteq> Inr r" for r
    using result_taken_once [OF s(1) echo_contract] s(3) by (cases "take_result 1 (ps_h s)") auto
  then have "\<exists>e. fst (take_result 1 (ps_h s)) = Inl e" by (cases "fst (take_result 1 (ps_h s))") auto
  with s show ?thesis by blast
qed

text \<open>C8: The pool as a whole is memory-safe. In every reachable state each registered buffer, and the input
  of every queued or running unit, is live memory of at least its length, and two buffer ids never name the
  same block: no free, cancel, close or panic pulls a buffer from under a job.\<close>

theorem pool_memory_safe:
  assumes "pool_reachable e denv sa s" and "pool_contract e denv sa"
  shows "(\<forall>i b. map_of (buffers (ps_h s)) i = Some b \<longrightarrow> live_buf (ps_p s) (slot_buf b))
    \<and> (\<forall>u b. u \<in> set (items (h_queue (ps_h s))) \<union> set (ps_running s) \<and> u_payload u = Shared b \<longrightarrow> live_buf (ps_p s) b)
    \<and> slots_disjoint (ps_h s)"
proof -
  have "memory_inv [] s" using pool_client.pool_reachable_inv [OF pool_client_iff [THEN iffD2, OF assms(2)] assms(1)] by (simp add: pool_inv_def)
  from memory_inv_live [OF this] show ?thesis by blast
qed

theorem pool_memory_safe_witness:
  "\<exists>s. pool_reachable echo_engines quiet_env bump_alloc s \<and> ps_issued s = [1] \<and> slots_disjoint (ps_h s)"
  using demo_running pool_memory_safe [OF _ echo_contract] by blast

text \<open>Poisoning is final. Once a reachable handle is poisoned, whatever steps follow, it stays poisoned
  and no submit is accepted: no further ticket is ever issued.\<close>

theorem poison_is_final:
  assumes "pool_reachable e denv sa s" and "pool_contract e denv sa" and "h_poisoned (ps_h s)"
    and "(pool_step e denv sa)\<^sup>*\<^sup>* s s'"
  shows "h_poisoned (ps_h s') \<and> ps_issued s' = ps_issued s"
proof -
  have client: "pool_client e denv sa" using assms(2) by (simp add: pool_client_iff)
  show ?thesis using pool_client.poisoned_steps [OF client assms(4) pool_client.pool_reachable_inv [OF client assms(1)] assms(3)] by simp
qed

theorem poison_is_final_witness:
  "\<exists>s. pool_reachable echo_engines quiet_env bump_alloc s \<and> h_poisoned (ps_h s) \<and> ps_issued s = [1]
    \<and> (\<forall>s'. (pool_step echo_engines quiet_env bump_alloc)\<^sup>*\<^sup>* s s' \<longrightarrow> ps_issued s' = [1])"
proof -
  let ?te = "demo_turn (Some (PStr [98], [97], 9))"
  obtain s where s: "pool_reachable echo_engines quiet_env bump_alloc s" "ps_issued s = [1]" "map u_ticket (ps_running s) = [1]"
    using demo_running by (elim exE conjE)
  then obtain u where u: "u \<in> set (ps_running s)" by (cases "ps_running s") auto
  have "worker_turn False (\<lambda>_. []) echo_engines quiet_env bump_alloc demo_thread ?te u (ps_p s, ps_h s) \<noteq> None"
    by (simp add: worker_turn_def demo_turn_def Let_def split: prod.split)
  then obtain out p' h' where run: "worker_turn False (\<lambda>_. []) echo_engines quiet_env bump_alloc demo_thread ?te u (ps_p s, ps_h s)
      = Some (out, p', h')" by auto
  have al: "turn_alive ?te" "\<not> turn_faultless ?te" "te_alive_end ?te" "dv_alive ?te"
    by (simp_all add: turn_alive_def turn_faultless_def demo_turn_def)
  define s2 where "s2 = s\<lparr>ps_p := p', ps_h := h', ps_running := remove1 u (ps_running s), ps_done := ps_done s @ [u_ticket u]\<rparr>"
  have r2: "pool_reachable echo_engines quiet_env bump_alloc s2"
    unfolding s2_def by (rule pool_reachable.step [OF s(1) pool_step.delivered [OF u al(1) run]])
  moreover have "h_poisoned (ps_h s2)" "ps_issued s2 = [1]"
    using worker_turn_faulty [OF run al(2-4)] s(2) by (simp_all add: s2_def)
  moreover from this have "ps_issued s' = [1]" if "(pool_step echo_engines quiet_env bump_alloc)\<^sup>*\<^sup>* s2 s'" for s'
    using poison_is_final [OF r2 echo_contract _ that] by simp
  ultimately show ?thesis using r2 by (intro exI [of _ s2]) simp
qed

end
