(* ===== verification/Abi_Fields.thy ===== *)
theory Abi_Fields
  imports Header Status Alloc_Stats
begin

text \<open>
  The layout contract of the boundary (\<open>ffi/fields.rs\<close> and the layout types of \<open>ffi/mod.rs\<close>): the offset
  and size of every field of the four \<open>repr(C)\<close> types. \<open>offset_of!\<close> and \<open>size_of\<close> are computed by the rules
  of \<open>repr(C)\<close> on a 64-bit target, the only one the size assertions of the crate accept.
\<close>

subsection \<open>The rules of repr(C)\<close>

datatype c_type = CInt nat | CPtr | CUsize | CArray c_type nat

fun size_of :: "c_type \<Rightarrow> nat" where
  "size_of (CInt n) = n"
| "size_of CPtr = 8"
| "size_of CUsize = 8"
| "size_of (CArray t n) = size_of t * n"

fun align_of :: "c_type \<Rightarrow> nat" where
  "align_of (CInt n) = n"
| "align_of CPtr = 8"
| "align_of CUsize = 8"
| "align_of (CArray t n) = align_of t"

definition round_up :: "nat \<Rightarrow> nat \<Rightarrow> nat" where
  "round_up n a = (n + a - 1) div a * a"

text \<open>Each field goes at the next multiple of its alignment; \<open>struct_end\<close> is the first byte after the last.\<close>

fun struct_offsets :: "nat \<Rightarrow> c_type list \<Rightarrow> nat list" where
  "struct_offsets cur [] = []"
| "struct_offsets cur (t # ts) = (let x = round_up cur (align_of t) in x # struct_offsets (x + size_of t) ts)"

fun struct_end :: "nat \<Rightarrow> c_type list \<Rightarrow> nat" where
  "struct_end cur [] = cur"
| "struct_end cur (t # ts) = struct_end (round_up cur (align_of t) + size_of t) ts"

definition struct_align :: "c_type list \<Rightarrow> nat" where
  "struct_align ts = Max (set (1 # map align_of ts))"

definition struct_size :: "c_type list \<Rightarrow> nat" where
  "struct_size ts = round_up (struct_end 0 ts) (struct_align ts)"

subsection \<open>The four types\<close>

definition ABI_TYPE_COUNT :: nat where "ABI_TYPE_COUNT = 4"
definition ABI_FIELD_COUNT :: nat where "ABI_FIELD_COUNT = 17"
definition GUSSET_ABI_VERSION :: u32 where "GUSSET_ABI_VERSION = 2"

type_synonym c_struct = "(rstr \<times> c_type) list"

definition CallHeader_fields :: c_struct where
  "CallHeader_fields = [(lit ''trace_id'', CArray (CInt 1) 16), (lit ''span_id'', CArray (CInt 1) 8),
     (lit ''timeout_ns'', CInt 8), (lit ''flags'', CInt 4), (lit ''reserved'', CInt 4)]"

definition FfiStatus_fields :: c_struct where
  "FfiStatus_fields = [(lit ''code'', CInt 4), (lit ''msg'', CPtr), (lit ''msg_len'', CUsize),
     (lit ''file'', CPtr), (lit ''file_len'', CUsize), (lit ''line'', CInt 4)]"

definition AbiLayout_fields :: c_struct where
  "AbiLayout_fields = [(lit ''version'', CInt 4), (lit ''sizes'', CArray (CInt 4) ABI_TYPE_COUNT),
     (lit ''aligns'', CArray (CInt 4) ABI_TYPE_COUNT)]"

definition AllocStats_fields :: c_struct where
  "AllocStats_fields = [(lit ''live_bytes'', CUsize), (lit ''peak_bytes'', CUsize), (lit ''alloc_count'', CUsize)]"

definition abi_structs :: "(rstr \<times> c_struct) list" where
  "abi_structs = [(lit ''CallHeader'', CallHeader_fields), (lit ''FfiStatus'', FfiStatus_fields),
     (lit ''AbiLayout'', AbiLayout_fields), (lit ''AllocStats'', AllocStats_fields)]"

definition ABI_FIELD_NAMES :: "rstr list" where
  "ABI_FIELD_NAMES =
     [lit ''CallHeader.trace_id'', lit ''CallHeader.span_id'', lit ''CallHeader.timeout_ns'', lit ''CallHeader.flags'',
      lit ''CallHeader.reserved'', lit ''FfiStatus.code'', lit ''FfiStatus.msg'', lit ''FfiStatus.msg_len'',
      lit ''FfiStatus.file'', lit ''FfiStatus.file_len'', lit ''FfiStatus.line'', lit ''AbiLayout.version'',
      lit ''AbiLayout.sizes'', lit ''AbiLayout.aligns'', lit ''AllocStats.live_bytes'', lit ''AllocStats.peak_bytes'',
      lit ''AllocStats.alloc_count'']"

text \<open>One field's \<open>slot!\<close>: its offset and its size, as \<open>u32\<close>; and the table of all of them.\<close>

definition struct_slots :: "c_struct \<Rightarrow> (u32 \<times> u32) list" where
  "struct_slots fs = map (\<lambda>(x, t). (of_nat x, of_nat (size_of t))) (zip (struct_offsets 0 (map snd fs)) (map snd fs))"

definition layout :: "u32 list \<times> u32 list" where
  "layout = (let slots = concat (map (struct_slots \<circ> snd) abi_structs) in (map fst slots, map snd slots))"

record AbiLayout =
  al_version :: u32
  al_sizes :: "u32 list"
  al_aligns :: "u32 list"

definition abi_layout :: AbiLayout where
  "abi_layout = \<lparr>al_version = GUSSET_ABI_VERSION,
     al_sizes = map (\<lambda>s. of_nat (struct_size (map snd (snd s)))) abi_structs,
     al_aligns = map (\<lambda>s. of_nat (struct_align (map snd (snd s)))) abi_structs\<rparr>"

text \<open>\<open>gusset_abi_fields\<close>'s two copies: at most \<open>cap\<close> entries over the front of the caller's array.\<close>

definition write_front :: "nat \<Rightarrow> u32 list \<Rightarrow> u32 list \<Rightarrow> u32 list" where
  "write_front cap vs arr = take (min cap ABI_FIELD_COUNT) vs @ drop (min cap ABI_FIELD_COUNT) arr"

definition report_fields :: "u32 \<Rightarrow> u32 list option \<Rightarrow> u32 list option \<Rightarrow> u32 list option \<times> u32 list option \<times> u32" where
  "report_fields cap offsets sizes =
     (map_option (write_front (unat cap) (fst layout)) offsets, map_option (write_front (unat cap) (snd layout)) sizes,
      of_nat ABI_FIELD_COUNT)"

subsection \<open>Lemmas\<close>

lemma round_up_spec:
  assumes "0 < a"
  shows "n \<le> round_up n a" and "round_up n a < n + a" and "a dvd round_up n a"
proof -
  have "(n + a - 1) div a * a + (n + a - 1) mod a = n + a - 1" by simp
  moreover have "(n + a - 1) mod a < a" using assms by simp
  ultimately show "n \<le> round_up n a" "round_up n a < n + a" using assms unfolding round_up_def by linarith+
qed (simp add: round_up_def)

text \<open>What a C compiler guarantees of a struct: aligned fields, in order, none overlapping the next.\<close>

definition slots_fit :: "nat \<Rightarrow> nat \<Rightarrow> (nat \<times> c_type) list \<Rightarrow> bool" where
  "slots_fit from lim os \<longleftrightarrow>
     (\<forall>(x, t) \<in> set os. align_of t dvd x \<and> from \<le> x \<and> x + size_of t \<le> lim)
     \<and> sorted_wrt (\<lambda>(x, t) (x', t'). x + size_of t \<le> x') os"

lemma struct_end_ge: "\<forall>t \<in> set ts. 0 < align_of t \<Longrightarrow> cur \<le> struct_end cur ts"
proof (induction ts arbitrary: cur)
  case (Cons t ts)
  let ?x = "round_up cur (align_of t)"
  have "cur \<le> ?x" using Cons.prems by (intro round_up_spec(1)) simp
  moreover have "?x + size_of t \<le> struct_end (?x + size_of t) ts" by (rule Cons.IH) (use Cons.prems in simp)
  ultimately show ?case by simp
qed simp

lemma struct_offsets_fit:
  "\<forall>t \<in> set ts. 0 < align_of t \<Longrightarrow>
     length (struct_offsets cur ts) = length ts \<and> slots_fit cur (struct_end cur ts) (zip (struct_offsets cur ts) ts)"
proof (induction ts arbitrary: cur)
  case (Cons t ts)
  let ?x = "round_up cur (align_of t)" and ?e = "struct_end (round_up cur (align_of t) + size_of t) ts"
  have r: "cur \<le> ?x" "align_of t dvd ?x" using Cons.prems round_up_spec [of "align_of t" cur] by simp_all
  have e: "?x + size_of t \<le> ?e" using Cons.prems by (intro struct_end_ge) simp
  have ih: "length (struct_offsets (?x + size_of t) ts) = length ts"
    "slots_fit (?x + size_of t) ?e (zip (struct_offsets (?x + size_of t) ts) ts)" using Cons by simp_all
  then have "slots_fit cur ?e ((?x, t) # zip (struct_offsets (?x + size_of t) ts) ts)"
    using r e unfolding slots_fit_def by fastforce
  with ih show ?case by (simp add: Let_def)
qed (simp add: slots_fit_def)

lemma struct_size_ge:
  assumes "\<forall>t \<in> set ts. 0 < align_of t"
  shows "struct_end 0 ts \<le> struct_size ts" and "struct_align ts dvd struct_size ts"
proof -
  have "1 \<le> struct_align ts" unfolding struct_align_def by (intro Max_ge) simp_all
  then have "0 < struct_align ts" by simp
  from round_up_spec [OF this] show "struct_end 0 ts \<le> struct_size ts" "struct_align ts dvd struct_size ts"
    by (simp_all add: struct_size_def)
qed

lemmas abi_struct_defs = abi_structs_def CallHeader_fields_def FfiStatus_fields_def AbiLayout_fields_def
  AllocStats_fields_def ABI_TYPE_COUNT_def

lemma abi_layout_values:
  "map (\<lambda>s. struct_size (map snd (snd s))) abi_structs = [40, 48, 36, 24]"
  "map (\<lambda>s. struct_align (map snd (snd s))) abi_structs = [8, 8, 4, 8]"
  by (simp_all add: abi_struct_defs struct_size_def struct_align_def round_up_def)

lemma layout_values:
  "layout = ([0, 16, 24, 32, 36, 0, 8, 16, 24, 32, 40, 0, 4, 20, 0, 8, 16], [16, 8, 8, 4, 4, 4, 8, 8, 8, 8, 4, 4, 16, 16, 8, 8, 8])"
  by (simp add: layout_def abi_struct_defs struct_slots_def round_up_def Let_def)

subsection \<open>Properties\<close>



text \<open>\<open>gusset_abi_fields\<close> never writes past the caller's \<open>cap\<close> entries: whatever \<open>cap\<close> is, entries from
  \<open>cap\<close> on keep what the caller had, the array keeps its length, the entries written are the table's own,
  and the count returned is the real one, so that a short caller learns how much it missed.\<close>

theorem abi_fields_in_bounds:
  assumes "report_fields cap (Some offs) (Some szs) = (Some offs', Some szs', n)"
    and "unat cap \<le> length offs" and "unat cap \<le> length szs"
  shows "length offs' = length offs \<and> length szs' = length szs \<and> n = 17
    \<and> (\<forall>i < length offs. offs' ! i = (if i < unat cap \<and> i < 17 then fst layout ! i else offs ! i))
    \<and> (\<forall>i < length szs. szs' ! i = (if i < unat cap \<and> i < 17 then snd layout ! i else szs ! i))"
proof -
  have w: "length (write_front c vs arr) = length arr \<and>
      (\<forall>i < length arr. write_front c vs arr ! i = (if i < c \<and> i < 17 then vs ! i else arr ! i))"
    if "length vs = 17" "c \<le> length arr" for c vs arr
    using that by (auto simp: write_front_def ABI_FIELD_COUNT_def nth_append)
  have "length (fst layout) = 17" "length (snd layout) = 17" by (simp_all add: layout_values)
  with w [of _ "unat cap" offs] w [of _ "unat cap" szs] assms show ?thesis
    by (auto simp: report_fields_def ABI_FIELD_COUNT_def)
qed

theorem abi_fields_in_bounds_witness:
  "\<exists>offs' szs'. report_fields 2 (Some [7, 7, 7]) (Some [9, 9]) = (Some offs', Some szs', 17) \<and> offs' ! 2 = 7"
proof -
  obtain offs' szs' n where r: "report_fields 2 (Some [7, 7, 7]) (Some [9, 9]) = (Some offs', Some szs', n)"
    by (auto simp: report_fields_def)
  from abi_fields_in_bounds [OF r] r show ?thesis by (auto dest: spec [of _ 2])
qed

end
