(* ===== verification/Exports.thy ===== *)
theory Exports
  imports Pool_System Abi_Fields
begin

text \<open>
  The exported C functions (\<open>ffi/mod.rs\<close>). A nullable pointer argument is an option or a boolean; what an
  export writes through an out pointer is part of its result (\<open>None\<close>: not written), and \<open>has_status\<close> is
  \<open>!status.is_null()\<close>. A fault is a panic on the caller's thread at the start of the guarded body.
\<close>

subsection \<open>The guard around an export's body\<close>

text \<open>\<open>ffi_guard_code\<close> over the process and what else the body changes, a \<open>Handle\<close> or a descriptor.\<close>

record 's export_state = process +
  es_rest :: 's

definition with_rest :: "process \<Rightarrow> 's \<Rightarrow> 's export_state" where
  "with_rest p s = process.extend p (export_state.fields s)"

definition guard_call ::
  "thread \<Rightarrow> bool \<Rightarrow> (process \<times> 's \<Rightarrow> (FfiError + 'r) outcome \<times> process \<times> 's) \<Rightarrow> process \<times> 's
    \<Rightarrow> (i32 + 'r) \<times> FfiStatus option \<times> process \<times> 's" where
  "guard_call th has_status f st =
     (let (r, slot, g) = ffi_guard_code th has_status
            (\<lambda>g. let (x, p, s) = f (process.truncate g, es_rest g) in (x, with_rest p s)) (with_rest (fst st) (snd st))
      in (r, slot, process.truncate g, es_rest g))"

text \<open>A body that may be struck by a fault, and its result as the guard wants it.\<close>

definition body ::
  "thread \<Rightarrow> fault \<Rightarrow> ('e \<Rightarrow> FfiError) \<Rightarrow> (process \<times> 's \<Rightarrow> ('e + 'r) \<times> process \<times> 's) \<Rightarrow> process \<times> 's
    \<Rightarrow> (FfiError + 'r) outcome \<times> process \<times> 's" where
  "body th flt conv f st =
     (case flt of
        Some (pl, l) \<Rightarrow> (Raised pl, raise_panic th l (fst st), snd st)
      | None \<Rightarrow> (case f st of (Inl e, st1) \<Rightarrow> (Done (Inl (conv e)), st1) | (Inr v, st1) \<Rightarrow> (Done (Inr v), st1)))"

subsection \<open>Refusals and outcomes\<close>

definition write_status ::
  "bool \<Rightarrow> (box_heap \<Rightarrow> FfiStatus \<times> box_heap) \<Rightarrow> process \<Rightarrow> FfiStatus option \<times> process" where
  "write_status has_status mk p =
     (if has_status then (let (s, bh) = mk (msg_heap p) in (Some s, p\<lparr>msg_heap := bh\<rparr>)) else (None, p))"

definition refuse_arg :: "bool \<Rightarrow> rstr \<Rightarrow> process \<Rightarrow> i32 \<times> FfiStatus option \<times> process" where
  "refuse_arg has_status msg p = (FFI_BAD_ARG, write_status has_status (bad_arg msg) p)"

definition refuse_poisoned :: "bool \<Rightarrow> process \<Rightarrow> i32 \<times> FfiStatus option \<times> process" where
  "refuse_poisoned has_status p = (FFI_POISONED, write_status has_status (poisoned (lit ''handle is poisoned'')) p)"

definition poison_on_panic :: "Handle \<Rightarrow> i32 \<Rightarrow> i32 \<times> Handle" where
  "poison_on_panic h code = (code, if code = FFI_PANIC then poison h else h)"

definition handle_outcome :: "Handle \<Rightarrow> i32 + 'r \<Rightarrow> i32 \<times> Handle" where
  "handle_outcome h res = (case res of Inr _ \<Rightarrow> (FFI_OK, h) | Inl code \<Rightarrow> poison_on_panic h code)"

text \<open>\<open>None\<close>: the slot did not own the message \<open>overwrite\<close> releases.\<close>

definition poison_checked_outcome ::
  "FfiStatus option \<Rightarrow> i32 + 'r \<Rightarrow> process \<times> Handle \<Rightarrow> (i32 \<times> FfiStatus option \<times> process \<times> Handle) option" where
  "poison_checked_outcome slot res st =
     (let (p, h) = st
      in case res of
           Inr _ \<Rightarrow> Some (FFI_OK, slot, p, h)
         | Inl code \<Rightarrow>
             if code = FFI_PANIC then (let (c, h1) = poison_on_panic h FFI_PANIC in Some (c, slot, p, h1))
             else if is_poisoned h then
               (case slot of
                  None \<Rightarrow> Some (FFI_POISONED, None, p, h)
                | Some s \<Rightarrow>
                    (let (new, bh) = poisoned (lit ''handle is poisoned'') (msg_heap p)
                     in map_option (\<lambda>(s1, bh1). (FFI_POISONED, Some s1, p\<lparr>msg_heap := bh1\<rparr>, h)) (overwrite s new bh)))
             else Some (code, slot, p, h))"

text \<open>The value an export writes through its out pointers: only a body that succeeded writes.\<close>

definition written :: "i32 + 'r \<Rightarrow> 'r option" where
  "written res = (case res of Inr v \<Rightarrow> Some v | Inl _ \<Rightarrow> None)"

type_synonym 'o export = "i32 \<times> FfiStatus option \<times> 'o option \<times> process \<times> Handle"

definition refused :: "i32 \<times> FfiStatus option \<times> process \<Rightarrow> Handle \<Rightarrow> 'o export" where
  "refused r h = (case r of (c, s, p) \<Rightarrow> (c, s, None, p, h))"

text \<open>The tail of every handle-bound export: guard, then \<open>handle_outcome\<close> or \<open>poison_checked_outcome\<close>.\<close>

definition handle_export ::
  "thread \<Rightarrow> bool \<Rightarrow> (process \<times> Handle \<Rightarrow> (FfiError + 'r) outcome \<times> process \<times> Handle) \<Rightarrow> process \<times> Handle \<Rightarrow> 'r export" where
  "handle_export th has_status f st =
     (let (res, slot, p, h) = guard_call th has_status f st; (code, h1) = handle_outcome h res
      in (code, slot, written res, p, h1))"

definition checked_export ::
  "thread \<Rightarrow> bool \<Rightarrow> (process \<times> Handle \<Rightarrow> (FfiError + 'r) outcome \<times> process \<times> Handle) \<Rightarrow> process \<times> Handle
    \<Rightarrow> 'r export option" where
  "checked_export th has_status f st =
     (let (res, slot, p, h) = guard_call th has_status f st
      in map_option (\<lambda>(code, slot1, st1). (code, slot1, written res, st1)) (poison_checked_outcome slot res (p, h)))"

subsection \<open>The ABI exports\<close>

definition gusset_abi_layout :: "thread \<Rightarrow> fault \<Rightarrow> bool \<Rightarrow> process \<Rightarrow> AbiLayout option \<times> process" where
  "gusset_abi_layout th flt has_out p =
     (if \<not> has_out then (None, p)
      else
        (case flt of
           None \<Rightarrow> (Some abi_layout, p)
         | Some (pl, l) \<Rightarrow> (None, drop_panic_payload th pl (raise_panic th l p))))"

definition gusset_abi_fields ::
  "thread \<Rightarrow> fault \<Rightarrow> u32 list option \<Rightarrow> u32 list option \<Rightarrow> u32 \<Rightarrow> process
    \<Rightarrow> u32 \<times> u32 list option \<times> u32 list option \<times> process" where
  "gusset_abi_fields th flt offsets sizes cap p =
     (case flt of
        None \<Rightarrow> (let (o1, s1, n) = report_fields cap offsets sizes in (n, o1, s1, p))
      | Some (pl, l) \<Rightarrow> (0, offsets, sizes, drop_panic_payload th pl (raise_panic th l p)))"

subsection \<open>The runtime exports\<close>

text \<open>The two exports without a status log a caught panic.\<close>

definition log_caught :: "thread \<Rightarrow> rstr \<Rightarrow> payload \<times> source_loc \<Rightarrow> process \<Rightarrow> i32 \<times> process" where
  "log_caught th what flt p =
     (let (msg, p1) = extract_panic_payload th (fst flt) (raise_panic th (snd flt) p)
      in (FFI_PANIC, log_line (th_id th) (what @ msg) p1))"

definition gusset_init :: "thread \<Rightarrow> fault \<Rightarrow> process \<Rightarrow> i32 \<times> process" where
  "gusset_init th flt p =
     (case flt of
        Some f \<Rightarrow> log_caught th (lit ''gusset: init panicked: '') f p
      | None \<Rightarrow> (FFI_OK, rearm (install_panic_hook p)))"

definition drain_expired :: "u32 \<Rightarrow> nat \<Rightarrow> rstr" where
  "drain_expired drain_ms remaining = lit ''gusset: shutdown drain budget of '' @ show_nat (unat drain_ms)
     @ lit '' ms expired with '' @ show_nat remaining @ lit '' work unit(s) still in flight''"

text \<open>\<open>None\<close>: still draining when the script of turns ends.\<close>

definition gusset_shutdown ::
  "thread \<Rightarrow> fault \<Rightarrow> (nat \<Rightarrow> bool) \<Rightarrow> (nat \<Rightarrow> Handle) \<Rightarrow> instant \<Rightarrow> drain_turn list \<Rightarrow> u32 \<Rightarrow> process \<times> nat list
    \<Rightarrow> (i32 \<times> process \<times> nat list) option" where
  "gusset_shutdown th flt strong hs start turns drain_ms st =
     (case flt of
        Some f \<Rightarrow> (let (c, p1) = log_caught th (lit ''gusset: shutdown panicked: '') f (fst st) in Some (c, p1, snd st))
      | None \<Rightarrow>
          (case shutdown strong hs start turns (unat drain_ms * 1000000) st of
             (None, _) \<Rightarrow> None
           | (Some remaining, p1, registry) \<Rightarrow>
               if remaining = 0 then Some (FFI_OK, p1, registry)
               else Some (FFI_ERR, log_line (th_id th) (drain_expired drain_ms remaining) p1, registry)))"

subsection \<open>Opening and closing\<close>

definition gusset_handle_open ::
  "open_env \<Rightarrow> thread \<Rightarrow> bool \<Rightarrow> bool \<Rightarrow> u32 \<Rightarrow> i32 \<Rightarrow> process \<times> fd_state
    \<Rightarrow> i32 \<times> FfiStatus option \<times> Handle option \<times> process \<times> fd_state" where
  "gusset_handle_open oe th has_status out_null pool_size fd st =
     (if out_null then
        (let (c, s, p1) = refuse_arg has_status (lit ''out_handle is null'') (fst st) in (c, s, None, p1, snd st))
      else
        (let (res, slot, st1) = guard_call th has_status
               (body th None FfiError_from_pool
                  (\<lambda>(p, fds). let (r, fds1, p1) = open_classified oe pool_size fd fds p in (r, p1, fds1))) st
         in (case res of Inr _ \<Rightarrow> FFI_OK | Inl code \<Rightarrow> code, slot, written res, st1)))"

text \<open>\<open>last_ref\<close>: the dropped \<open>Arc\<close> was the last one, so the handle's own \<open>Drop\<close> runs. The descriptors
  passed to the kernel's \<open>close\<close> are added to the state's list.\<close>

definition gusset_handle_close ::
  "close_env \<Rightarrow> bool \<Rightarrow> bool \<Rightarrow> bool \<Rightarrow> process \<times> int list \<times> Handle
    \<Rightarrow> i32 \<times> FfiStatus option \<times> process \<times> int list \<times> Handle" where
  "gusset_handle_close ce last_ref has_status handle_null st =
     (if handle_null then
        (let (c, s, p1) = refuse_arg has_status (lit ''handle is null'') (fst st) in (c, s, p1, snd st))
      else
        (let (res, slot, st1) = guard_call (ce_th ce) has_status
               (body (ce_th ce) None FfiError_from_string
                  (\<lambda>(p, fds, h).
                     let (joined, fds1, _, p1, h1) = close ce (p, h);
                         (fds2, p2, h2) = (if last_ref then drop_handle ce (p1, h1) else ([], p1, h1))
                     in (joined, p2, fds @ fds1 @ fds2, h2))) st
         in (case res of Inr _ \<Rightarrow> FFI_OK | Inl code \<Rightarrow> code, slot, st1)))"

subsection \<open>Submitting and taking\<close>

text \<open>The inline input: \<open>input_ptr\<close> is null, or the bytes readable from it.\<close>

definition inline_input :: "u64 \<Rightarrow> bytes option \<Rightarrow> nat \<Rightarrow> rstr + bytes" where
  "inline_input buffer_id input_ptr input_len =
     (if buffer_id \<noteq> 0 \<or> input_len = 0 then Inr []
      else
        (case input_ptr of
           None \<Rightarrow> Inl (lit ''input_ptr is null with a nonzero input_len'')
         | Some bs \<Rightarrow>
             if MAX_INLINE_INPUT < input_len then Inl (lit ''inline input exceeds the 4096-byte copy limit; use a Buffer'')
             else Inr (take input_len bs)))"

definition gusset_submit ::
  "submit_env \<Rightarrow> fault \<Rightarrow> bool \<Rightarrow> bool \<Rightarrow> CallHeader option \<Rightarrow> bytes option \<Rightarrow> nat \<Rightarrow> u64 \<Rightarrow> bool
    \<Rightarrow> process \<times> Handle \<Rightarrow> u64 export option" where
  "gusset_submit se flt has_status handle_null header input_ptr input_len buffer_id out_null st =
     (let (p, h) = st
      in if handle_null \<or> header = None \<or> out_null then
           Some (refused (refuse_arg has_status (lit ''null argument passed to submit'') p) h)
         else if is_poisoned h then Some (refused (refuse_poisoned has_status p) h)
         else
           (case inline_input buffer_id input_ptr input_len of
              Inl msg \<Rightarrow> Some (refused (refuse_arg has_status msg p) h)
            | Inr input_slice \<Rightarrow>
                checked_export (se_th se) has_status
                  (body (se_th se) flt FfiError_from_pool (submit_classified se (the header) input_slice buffer_id)) st))"

text \<open>What \<open>take\<close> writes: the id, the address and the length.\<close>

type_synonym taken = "u64 \<times> nat \<times> nat"

fun take_body :: "sys_alloc \<Rightarrow> JobResult \<Rightarrow> process \<times> Handle \<Rightarrow> (FfiError + taken) \<times> process \<times> Handle" where
  "take_body sa (ResOk data) st =
     (if data = [] then (Inr (0, 0, 0), st)
      else
        (case buf_from_bytes sa data st of
           (Inl e, st1) \<Rightarrow> (Inl (FfiError_from_string e), st1)
         | (Inr (i, ptr), st1) \<Rightarrow> (Inr (i, ptr, length data), st1)))"
| "take_body sa (ResBuffer i) st =
     (case buf_get i (snd st) of
        Inl e \<Rightarrow> (Inl (FfiError_from_string e), st)
      | Inr (ptr, len) \<Rightarrow> (Inr (i OR TAKE_OWNED_FLAG, ptr, len), st))"
| "take_body sa (ResErr msg) st = (Inl (FfiError_from_string msg), st)"
| "take_body sa (ResPanic msg f line) st =
     (Inl \<lparr>fe_code = FFI_PANIC, fe_msg = lit ''PANIC: '' @ msg, fe_file = f, fe_line = line\<rparr>, st)"
| "take_body sa (ResCancelled reason) st =
     (Inl (FfiError_from_string
        (if reason = Explicit \<and> is_shutting_down (fst st) then lit ''cancelled: Shutdown''
         else cancel_reason_string reason)), st)"

definition take_and_convert :: "sys_alloc \<Rightarrow> u64 \<Rightarrow> process \<times> Handle \<Rightarrow> (FfiError + taken) \<times> process \<times> Handle" where
  "take_and_convert sa ticket st =
     (case take_result ticket (snd st) of
        (Inl e, h1) \<Rightarrow> (Inl (FfiError_from_string e), fst st, h1)
      | (Inr r, h1) \<Rightarrow> take_body sa r (fst st, h1))"

definition gusset_take ::
  "sys_alloc \<Rightarrow> thread \<Rightarrow> fault \<Rightarrow> bool \<Rightarrow> bool \<Rightarrow> u64 \<Rightarrow> process \<times> Handle \<Rightarrow> taken export" where
  "gusset_take sa th flt has_status null_arg ticket st =
     (if null_arg then refused (refuse_arg has_status (lit ''null argument passed to take'') (fst st)) (snd st)
      else handle_export th has_status (body th flt id (take_and_convert sa ticket)) st)"

subsection \<open>Cancelling, the ring and buffers\<close>

definition gusset_cancel :: "thread \<Rightarrow> fault \<Rightarrow> bool \<Rightarrow> bool \<Rightarrow> u64 \<Rightarrow> process \<times> Handle \<Rightarrow> unit export" where
  "gusset_cancel th flt has_status handle_null ticket st =
     (if handle_null then refused (refuse_arg has_status (lit ''handle is null'') (fst st)) (snd st)
      else handle_export th has_status (body th flt id (\<lambda>(p, h). (Inr (), snd (cancel ticket (p, h)), h))) st)"

definition gusset_cancel_all :: "thread \<Rightarrow> fault \<Rightarrow> bool \<Rightarrow> bool \<Rightarrow> process \<times> Handle \<Rightarrow> unit export" where
  "gusset_cancel_all th flt has_status handle_null st =
     (if handle_null then refused (refuse_arg has_status (lit ''handle is null'') (fst st)) (snd st)
      else handle_export th has_status (body th flt id (\<lambda>(p, h). (Inr (), snd (cancel_all (p, h)), h))) st)"

text \<open>The out pointers of \<open>gusset_handle_ring\<close> all lead to the ring, so the ring is what it hands out.\<close>

definition gusset_handle_ring :: "thread \<Rightarrow> fault \<Rightarrow> bool \<Rightarrow> bool \<Rightarrow> process \<times> Handle \<Rightarrow> Ring export" where
  "gusset_handle_ring th flt has_status null_arg st =
     (if null_arg then refused (refuse_arg has_status (lit ''null handle or out pointer'') (fst st)) (snd st)
      else handle_export th has_status
             (body th flt FfiError_from_string (\<lambda>(p, h). let (r, h1) = attach_ring h in (r, p, h1))) st)"

definition gusset_buf_alloc ::
  "sys_alloc \<Rightarrow> thread \<Rightarrow> fault \<Rightarrow> bool \<Rightarrow> bool \<Rightarrow> nat \<Rightarrow> process \<times> Handle \<Rightarrow> (u64 \<times> nat) export option" where
  "gusset_buf_alloc sa th flt has_status null_arg len st =
     (let (p, h) = st
      in if null_arg then Some (refused (refuse_arg has_status (lit ''null argument passed to buf_alloc'') p) h)
         else if is_poisoned h then Some (refused (refuse_poisoned has_status p) h)
         else checked_export th has_status (body th flt FfiError_from_pool (buf_alloc_published_classified sa len)) st)"

definition gusset_buf_free :: "thread \<Rightarrow> fault \<Rightarrow> bool \<Rightarrow> bool \<Rightarrow> u64 \<Rightarrow> process \<times> Handle \<Rightarrow> unit export" where
  "gusset_buf_free th flt has_status handle_null i st =
     (if handle_null then refused (refuse_arg has_status (lit ''handle is null'') (fst st)) (snd st)
      else handle_export th has_status (body th flt FfiError_from_string (\<lambda>st. (Inr (), buf_free i st))) st)"

subsection \<open>Status and statistics\<close>

text \<open>\<open>None\<close>: the status did not own the message it names.\<close>

definition gusset_status_free :: "FfiStatus option \<Rightarrow> process \<Rightarrow> (FfiStatus option \<times> process) option" where
  "gusset_status_free status p =
     (case status of
        None \<Rightarrow> Some (None, p)
      | Some s \<Rightarrow> map_option (\<lambda>(s1, bh). (Some s1, p\<lparr>msg_heap := bh\<rparr>)) (free_msg s (msg_heap p)))"

definition gusset_alloc_stats :: "thread \<Rightarrow> fault \<Rightarrow> bool \<Rightarrow> process \<Rightarrow> AllocStats option \<times> process" where
  "gusset_alloc_stats th flt has_out p =
     (if \<not> has_out then (None, p)
      else
        (case flt of
           None \<Rightarrow> (Some (get_alloc_stats (acct (pmem p))), p)
         | Some (pl, l) \<Rightarrow>
             (Some \<lparr>live_bytes = 0, peak_bytes = 0, alloc_count = 0\<rparr>, drop_panic_payload th pl (raise_panic th l p))))"

subsection \<open>Lemmas: the guard on a process\<close>

lemma more_take: "guard_state.more (snd (take_panic_location th g)) = guard_state.more g"
  by (simp add: take_panic_location_def split: option.split)

lemma more_raise: "guard_state.more (raise_panic th l g) = guard_state.more g"
  by (simp add: raise_panic_def gusset_hook_def intern_file_string_def Let_def)

lemma more_drop: "guard_state.more (drop_panic_payload th pl g) = guard_state.more g"
proof (cases "payload_drop pl")
  case (Some sl)
  obtain second l where sl: "sl = (second, l)" by (cases sl)
  let ?g1 = "raise_panic th l g"
  let ?g2 = "if is_plain_payload second then ?g1 else ?g1\<lparr>forgotten := second # forgotten ?g1\<rparr>"
  have "drop_panic_payload th pl g = snd (take_panic_location th ?g2)"
    using Some sl plain_payload_drop [of second] by (simp add: drop_panic_payload_def run_drop_def)
  then show ?thesis by (simp add: more_take more_raise)
qed (simp add: drop_panic_payload_def run_drop_def)

lemma more_describe: "describe_panic_payload th pl g = (r, g') \<Longrightarrow> guard_state.more g' = guard_state.more g"
  by (cases "(th, pl, g)" rule: describe_panic_payload.cases) (auto elim!: display_error.elims simp: more_raise)

lemma more_extract: "extract_panic_payload th pl g = (m, g') \<Longrightarrow> guard_state.more g' = guard_state.more g"
proof -
  assume run: "extract_panic_payload th pl g = (m, g')"
  obtain r q where d: "describe_panic_payload th pl g = (r, q)" by force
  from run d more_describe [OF d] show ?thesis by (cases r) (auto simp: extract_panic_payload_def more_drop)
qed

text \<open>The outcome of a guarded body, and what a status slot shows of a code.\<close>

fun guard_result :: "(FfiError + 'r) outcome \<Rightarrow> i32 + 'r" where
  "guard_result (Done (Inr v)) = Inr v"
| "guard_result (Done (Inl e)) = Inl (fe_code e)"
| "guard_result (Raised pl) = Inl FFI_PANIC"

definition code_of :: "i32 + 'r \<Rightarrow> i32" where
  "code_of r = (case r of Inr _ \<Rightarrow> FFI_OK | Inl c \<Rightarrow> c)"

definition status_sound :: "bool \<Rightarrow> i32 \<Rightarrow> FfiStatus option \<Rightarrow> 'a guard_state_scheme \<Rightarrow> bool" where
  "status_sound has_status c slot g \<longleftrightarrow> (slot = None \<longleftrightarrow> \<not> has_status)
     \<and> (\<forall>s. slot = Some s \<longrightarrow> st_code s = c \<and> owns_msg s (msg_heap g))"

lemma ffi_guard_code_spec:
  fixes g g2 :: "'a guard_state_scheme"
  assumes run: "ffi_guard_code th hs f g = (r, slot, g')" and fx: "f (snd (take_panic_location th g)) = (x, g2)"
    and ok: "guard_ok g2"
  shows "r = guard_result x \<and> guard_ok g' \<and> guard_state.more g' = guard_state.more g2 \<and> status_sound hs (code_of r) slot g'"
proof -
  have heap: "guard_ok k \<Longrightarrow> box_heap_ok bh \<Longrightarrow> guard_ok (k\<lparr>msg_heap := bh\<rparr>)" for k :: "'a guard_state_scheme" and bh
    by (simp add: guard_ok_def)
  have made: "guard_ok (k\<lparr>msg_heap := bh\<rparr>) \<and> status_sound True c (Some s) (k\<lparr>msg_heap := bh\<rparr>)"
    if "guard_ok k" "new_err c m fl n ln (msg_heap k) = (s, bh)" for k :: "'a guard_state_scheme" and bh c m fl n ln s
  proof -
    have "box_heap_ok (msg_heap k)" using that(1) by (simp add: guard_ok_def)
    from new_err_spec [OF this that(2)] heap [OF that(1)] show ?thesis by (simp add: status_sound_def)
  qed
  have none: "status_sound False c None k" for c and k :: "'a guard_state_scheme" by (simp add: status_sound_def)
  show ?thesis
  proof (cases x)
    case (Done d)
    show ?thesis
    proof (cases d)
      case (Inr v)
      with run fx ok Done show ?thesis
        by (cases hs) (auto simp: ffi_guard_code_def code_of_def status_sound_def FfiStatus_ok_def owns_msg_def)
    next
      case (Inl e)
      obtain s bh where n: "new_err (fe_code e) (truncate_payload (fe_msg e)) (fe_file e)
          (case fe_file e of Some s \<Rightarrow> length s | None \<Rightarrow> 0) (fe_line e) (msg_heap g2) = (s, bh)" by force
      from made [OF ok n] run fx ok Done Inl n show ?thesis
        by (cases hs) (auto simp: ffi_guard_code_def code_of_def none)
    qed
  next
    case (Raised pl)
    obtain l g3 where t: "take_panic_location th g2 = (l, g3)" by force
    obtain m g4 where e: "extract_panic_payload th pl g3 = (m, g4)" by force
    have ok4: "guard_ok g4" using extract_spec [OF take_panic_location_spec(1) [OF ok t] e] by simp
    have "guard_state.more g4 = guard_state.more g2" using more_extract [OF e] more_take [of th g2] t by simp
    moreover obtain s bh where n: "new_err FFI_PANIC m (map_option pl_file l) (case l of Some l \<Rightarrow> length (pl_file l) | None \<Rightarrow> 0)
        (case l of Some l \<Rightarrow> pl_line l | None \<Rightarrow> 0) (msg_heap g4) = (s, bh)" by force
    ultimately show ?thesis using run fx Raised t e ok4 made [OF ok4 n]
      by (cases hs) (auto simp: ffi_guard_code_def code_of_def none)
  qed
qed

lemma with_rest_simps [simp]:
  "process.truncate (with_rest p s) = p" "es_rest (with_rest p s) = s" "guard_ok (with_rest p s) = guard_ok p"
  "msg_heap (with_rest p s) = msg_heap p"
  by (simp_all add: with_rest_def process.defs export_state.defs guard_ok_def)

lemma guard_truncate [simp]:
  "guard_ok (process.truncate g) = guard_ok g" "msg_heap (process.truncate g) = msg_heap g"
  by (simp_all add: process.defs guard_ok_def)

lemma take_with_rest:
  "process.truncate (snd (take_panic_location th (with_rest p s))) = snd (take_panic_location th p)"
  "es_rest (snd (take_panic_location th (with_rest p s))) = s"
  by (simp_all add: take_panic_location_def with_rest_def process.defs export_state.defs split: option.split)

lemma more_with_rest:
  "guard_state.more g = guard_state.more (with_rest p s) \<Longrightarrow>
     es_rest g = s \<and> guard_state.more (process.truncate g) = guard_state.more p"
  by (cases p; cases g) (simp add: with_rest_def process.defs export_state.defs)

lemma guard_call_spec:
  assumes run: "guard_call th hs f (p, s) = (r, slot, p', s')" and fx: "f (snd (take_panic_location th p), s) = (x, p2, s2)"
    and ok: "guard_ok p2"
  shows "r = guard_result x \<and> s' = s2 \<and> guard_ok p' \<and> guard_state.more p' = guard_state.more p2
    \<and> status_sound hs (code_of r) slot p'"
proof -
  let ?f = "\<lambda>g. let (x, p, s) = f (process.truncate g, es_rest g) in (x, with_rest p s)"
  obtain g' where g: "ffi_guard_code th hs ?f (with_rest p s) = (r, slot, g')" "p' = process.truncate g'" "s' = es_rest g'"
    using run by (auto simp: guard_call_def Let_def split: prod.splits)
  have "?f (snd (take_panic_location th (with_rest p s))) = (x, with_rest p2 s2)"
    by (simp add: take_with_rest fx)
  from ffi_guard_code_spec [OF g(1) this] ok
  have sp: "r = guard_result x" "guard_ok g'" "guard_state.more g' = guard_state.more (with_rest p2 s2)"
    "status_sound hs (code_of r) slot g'" by auto
  from more_with_rest [OF sp(3)] sp g(2,3) show ?thesis by (simp add: status_sound_def)
qed

subsection \<open>Lemmas: the exports\<close>

lemma write_status_sound:
  assumes "write_status hs (new_err c m None 0 0) p = (slot, p')" and "guard_ok p"
  shows "guard_ok p' \<and> guard_state.more p' = guard_state.more p \<and> status_sound hs c slot p'"
proof -
  have bh: "box_heap_ok (msg_heap p)" using assms(2) by (simp add: guard_ok_def)
  obtain s b where n: "new_err c m None 0 0 (msg_heap p) = (s, b)" by force
  from new_err_spec [OF bh n] assms n show ?thesis
    by (cases hs) (auto simp: write_status_def status_sound_def guard_ok_def)
qed

lemma refuse_sound:
  "refuse_arg hs m p = (c, slot, p') \<Longrightarrow> guard_ok p \<Longrightarrow>
     c = FFI_BAD_ARG \<and> guard_ok p' \<and> guard_state.more p' = guard_state.more p \<and> status_sound hs c slot p'"
  "refuse_poisoned hs p = (c, slot, p') \<Longrightarrow> guard_ok p \<Longrightarrow>
     c = FFI_POISONED \<and> guard_ok p' \<and> guard_state.more p' = guard_state.more p \<and> status_sound hs c slot p'"
  using write_status_sound [where p = p and slot = slot and p' = p' and hs = hs]
  by (auto simp: refuse_arg_def refuse_poisoned_def bad_arg_def [abs_def] poisoned_def [abs_def])

lemma handle_export_spec:
  assumes run: "handle_export th hs f (p, h) = (code, slot, out, p', h')"
    and fx: "f (snd (take_panic_location th p), h) = (x, p2, h2)" and ok: "guard_ok p2"
  shows "code = code_of (guard_result x) \<and> out = written (guard_result x) \<and> guard_ok p'
    \<and> guard_state.more p' = guard_state.more p2 \<and> h' = (if code = FFI_PANIC then poison h2 else h2)
    \<and> status_sound hs code slot p'"
proof -
  obtain r s1 q k where g: "guard_call th hs f (p, h) = (r, s1, q, k)" by (metis prod_cases4)
  from guard_call_spec [OF g fx ok] run g show ?thesis
    by (auto simp: handle_export_def handle_outcome_def poison_on_panic_def code_of_def FFI_PANIC_def FFI_OK_def
        split: sum.splits)
qed

text \<open>A failure that finds the latch set is reported as such; a caught panic keeps its own report.\<close>

definition checked_code :: "i32 + 'r \<Rightarrow> Handle \<Rightarrow> i32" where
  "checked_code r h = (if code_of r \<noteq> FFI_OK \<and> code_of r \<noteq> FFI_PANIC \<and> h_poisoned h then FFI_POISONED else code_of r)"

definition codes_ok :: "(FfiError + 'r) outcome \<Rightarrow> bool" where
  "codes_ok x \<longleftrightarrow> (\<forall>e. x = Done (Inl e) \<longrightarrow> fe_code e \<noteq> FFI_OK)"

lemma poison_checked_spec:
  assumes ok: "guard_ok q" and ss: "status_sound hs (code_of r) slot q" and nz: "r \<noteq> Inl FFI_OK"
  shows "\<exists>slot' q'. poison_checked_outcome slot r (q, k)
        = Some (checked_code r k, slot', q', if code_of r = FFI_PANIC then poison k else k)
    \<and> guard_ok q' \<and> guard_state.more q' = guard_state.more q \<and> status_sound hs (checked_code r k) slot' q'"
proof (cases r)
  case (Inr v)
  with ok ss show ?thesis by (simp add: poison_checked_outcome_def checked_code_def code_of_def FFI_OK_def FFI_PANIC_def)
next
  case (Inl c)
  show ?thesis
  proof (cases "c = FFI_PANIC \<or> \<not> h_poisoned k")
    case True
    with ok ss Inl nz show ?thesis
      by (auto simp: poison_checked_outcome_def poison_on_panic_def checked_code_def code_of_def is_poisoned_def)
  next
    case False
    with Inl nz have cc: "checked_code r k = FFI_POISONED" "code_of r \<noteq> FFI_PANIC" by (simp_all add: checked_code_def code_of_def)
    show ?thesis
    proof (cases slot)
      case None
      with ok ss Inl False cc show ?thesis by (auto simp: poison_checked_outcome_def is_poisoned_def status_sound_def)
    next
      case (Some s)
      have bh: "box_heap_ok (msg_heap q)" and ow: "owns_msg s (msg_heap q)" and hs: hs
        using ok ss Some by (auto simp: guard_ok_def status_sound_def)
      obtain new b where n: "new_err FFI_POISONED (lit ''handle is poisoned'') None 0 0 (msg_heap q) = (new, b)" by force
      from overwrite_new_err [OF bh ow n] obtain b2 where b2: "overwrite s new b = Some (new, b2)" "box_heap_ok b2" "owns_msg new b2"
        "st_code new = FFI_POISONED" by metis
      have "guard_ok (q\<lparr>msg_heap := b2\<rparr>)" using ok b2(2) by (simp add: guard_ok_def)
      with Inl False cc Some n b2 hs show ?thesis
        by (simp add: poison_checked_outcome_def is_poisoned_def poisoned_def status_sound_def)
    qed
  qed
qed

lemma checked_export_spec:
  assumes fx: "f (snd (take_panic_location th p), h) = (x, p2, h2)" and ok: "guard_ok p2" and cx: "codes_ok x"
  shows "\<exists>slot p'. checked_export th hs f (p, h) = Some (checked_code (guard_result x) h2, slot, written (guard_result x), p',
            if code_of (guard_result x) = FFI_PANIC then poison h2 else h2)
    \<and> guard_ok p' \<and> guard_state.more p' = guard_state.more p2
    \<and> status_sound hs (checked_code (guard_result x) h2) slot p'"
proof -
  obtain r s1 q k where g: "guard_call th hs f (p, h) = (r, s1, q, k)" by (metis prod_cases4)
  note sp = guard_call_spec [OF g fx ok]
  have "r \<noteq> Inl FFI_OK"
    using sp cx by (cases x rule: guard_result.cases) (auto simp: codes_ok_def FFI_PANIC_def FFI_OK_def)
  with poison_checked_spec [of q hs r s1 h2] sp g show ?thesis by (fastforce simp: checked_export_def)
qed

lemma body_codes:
  "(\<And>e. fe_code (conv e) \<noteq> FFI_OK) \<Longrightarrow> body th flt conv f st = (x, st') \<Longrightarrow> codes_ok x"
  by (auto simp: body_def codes_ok_def split: option.splits sum.splits prod.splits)

lemma pool_error_code: "fe_code (FfiError_from_pool e) \<noteq> FFI_OK" "fe_code (FfiError_from_pool e) \<noteq> FFI_PANIC"
  by (cases e; simp add: FfiError_from_string_def FFI_ERR_def FFI_BAD_ARG_def FFI_OK_def FFI_PANIC_def)+

lemma guard_ok_drop_payload [simp]: "guard_ok (drop_payload pay (p :: process)) = guard_ok p"
  by (cases pay) (simp_all add: arc_drop_def)

lemma enqueue_guard_ok: "enqueue late u (p, h) = (r, p', h') \<Longrightarrow> guard_ok p \<Longrightarrow> guard_ok p'"
  by (auto simp: enqueue_def drop_unit_def Let_def split: prod.splits sum.splits)

lemma make_payload_guard_ok: "make_payload input bid (p, h) = (r, p') \<Longrightarrow> guard_ok p \<Longrightarrow> guard_ok p'"
  by (auto simp: make_payload_def share_buffer_def arc_clone_def split: if_splits option.splits)

text \<open>Whatever a submit meets, the firewall's tables stay in order.\<close>

lemma submit_guard_ok:
  assumes run: "submit_classified se header input bid (p, h) = (r, p', h')" and ok: "guard_ok p"
  shows "guard_ok p'"
proof (cases "h_poisoned h \<or> h_closed h \<or> shutting_down p \<or> flags header AND NOT GUSSET_FLAGS_KNOWN \<noteq> 0")
  case True
  with run have "p' = p" unfolding submit_classified_def by (simp_all split: if_splits)
  with ok show ?thesis by simp
next
  case False
  obtain w p1 h1 where w: "ensure_workers (se_th se) (se_fin se) (se_died se) (se_dead se) (se_spawns se) (p, h) = (w, p1, h1)"
    by (rule prod_cases3)
  have ok1: "guard_ok p1" using ensure_workers_frame [OF w] ok by (simp add: guard_only_def)
  obtain y p2 where y: "make_payload input bid (p1, h1) = (y, p2)" by force
  note ok2 = make_payload_guard_ok [OF y ok1]
  obtain z cn where z: "reserve_id (next_ticket p2) = (z, cn)" by force
  from False run w y z ok1 ok2 show ?thesis
    by (auto simp: submit_classified_def split: sum.splits prod.splits dest!: enqueue_guard_ok)
qed

lemma body_fault: "body th (Some (pl, l)) conv f (p, s) = (Raised pl, raise_panic th l p, s)"
  by (simp add: body_def)

lemma guard_ok_start: "guard_ok (p :: process) \<Longrightarrow> guard_ok (snd (take_panic_location th p))"
  using guard_only_take [of p th] by (simp add: guard_only_def)

text \<open>A fault in an export's body: the code, the latch, and nothing written.\<close>

lemma faulty_export:
  assumes "guard_ok p"
  shows "\<exists>slot p'. handle_export th hs (body th (Some (pl, l)) conv f) (p, h) = (FFI_PANIC, slot, None, p', poison h)
      \<and> guard_ok p' \<and> guard_state.more p' = guard_state.more p \<and> status_sound hs FFI_PANIC slot p'"
    and "\<exists>slot p'. checked_export th hs (body th (Some (pl, l)) conv2 f2) (p, h) = Some (FFI_PANIC, slot, None, p', poison h)
      \<and> guard_ok p' \<and> guard_state.more p' = guard_state.more p \<and> status_sound hs FFI_PANIC slot p'"
proof -
  let ?p1 = "snd (take_panic_location th p)"
  have ok: "guard_ok (raise_panic th l ?p1)" using raise_panic_spec(1) guard_ok_start [OF assms] by blast
  have m: "guard_state.more (raise_panic th l ?p1) = guard_state.more p" by (simp add: more_raise more_take)
  obtain c slot out p' h' where run: "handle_export th hs (body th (Some (pl, l)) conv f) (p, h) = (c, slot, out, p', h')"
    by (metis prod_cases5)
  have fx: "body th (Some (pl, l)) conv f (?p1, h) = (Raised pl, raise_panic th l ?p1, h)"
    "body th (Some (pl, l)) conv2 f2 (?p1, h) = (Raised pl, raise_panic th l ?p1, h)" by (simp_all add: body_fault)
  from handle_export_spec [OF run fx(1) ok] run m
  show "\<exists>slot p'. handle_export th hs (body th (Some (pl, l)) conv f) (p, h) = (FFI_PANIC, slot, None, p', poison h)
      \<and> guard_ok p' \<and> guard_state.more p' = guard_state.more p \<and> status_sound hs FFI_PANIC slot p'"
    by (auto simp: code_of_def written_def)
  from checked_export_spec [where f = "body th (Some (pl, l)) conv2 f2" and th = th and p = p and h = h, OF fx(2) ok, of hs] m
  show "\<exists>slot p'. checked_export th hs (body th (Some (pl, l)) conv2 f2) (p, h) = Some (FFI_PANIC, slot, None, p', poison h)
      \<and> guard_ok p' \<and> guard_state.more p' = guard_state.more p \<and> status_sound hs FFI_PANIC slot p'"
    by (fastforce simp: code_of_def checked_code_def written_def codes_ok_def)
qed

lemma more_fields:
  fixes p p' :: process
  assumes "guard_state.more p' = guard_state.more p"
  shows "pmem p' = pmem p" "arcs p' = arcs p" "next_ticket p' = next_ticket p" "cells p' = cells p"
    "next_buffer_id p' = next_buffer_id p" "shutting_down p' = shutting_down p"
  using assms by (cases p; cases p'; simp)+

lemma buf_from_bytes_guard_ok:
  "buf_from_bytes sa d (p, h) = (r, p', h') \<Longrightarrow> guard_ok p \<Longrightarrow> guard_ok p'"
  by (auto simp: buf_from_bytes_def register_def build_slot_def BufferSlot_new_def arc_new_def Let_def
      split: if_splits sum.splits prod.splits)

lemma buf_from_bytes_ptr:
  "buf_from_bytes sa d (p, h) = (Inr (i, q), p', h') \<Longrightarrow>
     results h' = results h \<and> h_poisoned h' = h_poisoned h \<and> (\<exists>s. map_of (buffers h') i = Some s \<and> rb_ptr (slot_buf s) = q)"
  "buf_from_bytes sa d (p, h) = (Inl e, p', h') \<Longrightarrow> h' = h"
  by (auto simp: buf_from_bytes_def register_def update_conv' Let_def split: if_splits sum.splits prod.splits)

text \<open>What a successful take hands over of a result.\<close>

definition hands_over :: "JobResult \<Rightarrow> taken \<Rightarrow> mem \<Rightarrow> Handle \<Rightarrow> bool" where
  "hands_over r out m h \<longleftrightarrow>
     (case out of (i, ptr, len) \<Rightarrow>
        r = ResOk [] \<and> i = 0 \<and> ptr = 0 \<and> len = 0
        \<or> (\<exists>data s. r = ResOk data \<and> data \<noteq> [] \<and> len = length data \<and> map_of (buffers h) i = Some s
             \<and> rb_ptr (slot_buf s) = ptr \<and> rb_as_slice m (slot_buf s) = data)
        \<or> (\<exists>b s. r = ResBuffer b \<and> i = b OR TAKE_OWNED_FLAG \<and> map_of (buffers h) b = Some s
             \<and> ptr = rb_ptr (slot_buf s) \<and> len = rb_len (slot_buf s)))"

lemma take_body_spec:
  assumes sa: "sys_alloc_ok sa" and inv: "buf_inv other p h us" and ok: "guard_ok p"
    and run: "take_body sa r (p, h) = (x, p', h')"
  shows "guard_ok p' \<and> results h' = results h \<and> h_poisoned h' = h_poisoned h
    \<and> (\<forall>e. x = Inl e \<longrightarrow> fe_code e = (case r of ResPanic _ _ _ \<Rightarrow> FFI_PANIC | _ \<Rightarrow> FFI_ERR))
    \<and> (\<forall>out. x = Inr out \<longrightarrow> hands_over r out (pmem p') h')"
proof (cases r)
  case (ResOk d)
  show ?thesis
  proof (cases "d = []")
    case False
    obtain y q k where y: "buf_from_bytes sa d (p, h) = (y, q, k)" by (rule prod_cases3)
    have e: "p' = q" "h' = k" using run ResOk False y by (auto split: sum.splits prod.splits)
    note okq = buf_from_bytes_guard_ok [OF y ok]
    show ?thesis
    proof (cases y)
      case (Inl m)
      with run ResOk False y e okq buf_from_bytes_ptr(2) [OF y [unfolded Inl]] show ?thesis
        by (auto simp: FfiError_from_string_def)
    next
      case (Inr ip)
      obtain i a where ip: "ip = (i, a)" by (cases ip)
      have "registry_inv p h" using inv by (simp add: buf_inv_def)
      from buf_from_bytes_slot [OF sa this y [unfolded Inr ip]] buf_from_bytes_ptr(1) [OF y [unfolded Inr ip]]
      obtain s where s: "map_of (buffers k) i = Some s" "rb_ptr (slot_buf s) = a" "rb_as_slice (pmem q) (slot_buf s) = d"
        "results k = results h" "h_poisoned k = h_poisoned h" by auto
      with run ResOk False y e okq Inr ip s show ?thesis by (auto simp: hands_over_def)
    qed
  qed (use run ResOk ok in \<open>auto simp: hands_over_def\<close>)
next
  case (ResBuffer b)
  with run ok show ?thesis
    by (auto simp: buf_get_def hands_over_def FfiError_from_string_def split: option.splits)
qed (use run ok in \<open>auto simp: FfiError_from_string_def\<close>)

text \<open>The submits refused before the guard.\<close>

lemma submit_refused:
  assumes ok: "guard_ok p"
    and ref: "handle_null \<or> header = None \<or> out_null \<or> h_poisoned h \<or> (\<exists>m. inline_input bid input_ptr input_len = Inl m)"
  shows "\<exists>c slot q. gusset_submit se flt hs handle_null header input_ptr input_len bid out_null (p, h) = Some (c, slot, None, q, h)
    \<and> guard_ok q \<and> status_sound hs c slot q \<and> c \<noteq> FFI_OK \<and> guard_state.more q = guard_state.more p
    \<and> (handle_null \<or> header = None \<or> out_null \<longrightarrow> c = FFI_BAD_ARG)
    \<and> (\<not> (handle_null \<or> header = None \<or> out_null) \<and> h_poisoned h \<longrightarrow> c = FFI_POISONED)"
proof -
  have ne: "FFI_BAD_ARG \<noteq> FFI_OK" "FFI_POISONED \<noteq> FFI_OK" by (simp_all add: FFI_BAD_ARG_def FFI_POISONED_def FFI_OK_def)
  let ?null = "handle_null \<or> header = None \<or> out_null"
  define r where "r = (if ?null then refuse_arg hs (lit ''null argument passed to submit'') p
     else if h_poisoned h then refuse_poisoned hs p else refuse_arg hs (projl (inline_input bid input_ptr input_len)) p)"
  have "gusset_submit se flt hs handle_null header input_ptr input_len bid out_null (p, h) = Some (refused r h)"
    using ref by (cases ?null; cases "h_poisoned h") (auto simp: gusset_submit_def is_poisoned_def r_def)
  moreover obtain c slot q where q: "r = (c, slot, q)" by (rule prod_cases3)
  moreover have "guard_ok q \<and> status_sound hs c slot q \<and> c \<noteq> FFI_OK \<and> guard_state.more q = guard_state.more p
    \<and> (?null \<longrightarrow> c = FFI_BAD_ARG) \<and> (\<not> ?null \<and> h_poisoned h \<longrightarrow> c = FFI_POISONED)"
    using q ne unfolding r_def by (cases ?null; cases "h_poisoned h")
      (auto dest!: refuse_sound(1) [OF _ ok] refuse_sound(2) [OF _ ok])
  ultimately show ?thesis by (simp add: refused_def)
qed

subsection \<open>Properties\<close>

text \<open>C12: \<open>gusset_submit\<close> keeps its contract with any host. It always returns (releasing nothing it does not
  own), a status shows exactly the code and owns its message, a ticket is written exactly on \<open>FFI_OK\<close>, and then
  it is the ticket of the accepted submit; null arguments are \<open>FFI_BAD_ARG\<close> and a poisoned handle is
  \<open>FFI_POISONED\<close>, and both leave the pool's state untouched.\<close>

theorem submit_export_contract:
  assumes "guard_ok p"
  shows "\<exists>code slot out p' h'.
      gusset_submit se flt hs handle_null header input_ptr input_len bid out_null (p, h) = Some (code, slot, out, p', h')
    \<and> guard_ok p' \<and> status_sound hs code slot p' \<and> (code = FFI_OK \<longleftrightarrow> out \<noteq> None)
    \<and> (\<forall>t. out = Some t \<longrightarrow> (\<exists>input q. inline_input bid input_ptr input_len = Inr input \<and>
          submit_classified se (the header) input bid (snd (take_panic_location (se_th se) p), h) = (Inr t, q, h')))
    \<and> (handle_null \<or> header = None \<or> out_null \<longrightarrow> code = FFI_BAD_ARG)
    \<and> (\<not> (handle_null \<or> header = None \<or> out_null) \<and> h_poisoned h \<longrightarrow> code = FFI_POISONED)
    \<and> (handle_null \<or> header = None \<or> out_null \<or> h_poisoned h \<longrightarrow> guard_state.more p' = guard_state.more p \<and> h' = h)"
proof (cases "handle_null \<or> header = None \<or> out_null \<or> h_poisoned h \<or> (\<exists>m. inline_input bid input_ptr input_len = Inl m)")
  case True
  from submit_refused [OF assms True, of se flt hs] show ?thesis by (elim exE conjE) simp
next
  case False
  then obtain input where i: "inline_input bid input_ptr input_len = Inr input" by (cases "inline_input bid input_ptr input_len") auto
  let ?th = "se_th se" and ?p1 = "snd (take_panic_location (se_th se) p)"
  let ?f = "submit_classified se (the header) input bid"
  have eq: "gusset_submit se flt hs handle_null header input_ptr input_len bid out_null (p, h)
      = checked_export ?th hs (body ?th flt FfiError_from_pool ?f) (p, h)"
    using False i by (auto simp: gusset_submit_def is_poisoned_def)
  show ?thesis
  proof (cases flt)
    case (Some y)
    obtain pl l where "y = (pl, l)" by (cases y)
    with Some eq False faulty_export(2) [OF assms, of ?th hs pl l FfiError_from_pool ?f h]
    show ?thesis by (auto simp: FFI_PANIC_def FFI_OK_def)
  next
    case None
    obtain v q k where v: "?f (?p1, h) = (v, q, k)" by (rule prod_cases3)
    have okq: "guard_ok q" by (rule submit_guard_ok [OF v guard_ok_start [OF assms]])
    let ?x = "case v of Inl e \<Rightarrow> Done (Inl (FfiError_from_pool e)) | Inr t \<Rightarrow> Done (Inr t)"
    have bx: "body ?th flt FfiError_from_pool ?f (?p1, h) = (?x, q, k)" using None v by (simp add: body_def split: sum.splits)
    from checked_export_spec [where f = "body ?th flt FfiError_from_pool ?f" and th = ?th and p = p and h = h,
        OF bx okq body_codes [OF pool_error_code(1) bx], of hs] obtain slot p' where
      "checked_export ?th hs (body ?th flt FfiError_from_pool ?f) (p, h) = Some (checked_code (guard_result ?x) k, slot,
         written (guard_result ?x), p', if code_of (guard_result ?x) = FFI_PANIC then poison k else k)"
      "guard_ok p'" "status_sound hs (checked_code (guard_result ?x) k) slot p'" by blast
    with eq False v i pool_error_code show ?thesis
      by (cases v) (auto simp: checked_code_def code_of_def written_def FFI_PANIC_def FFI_OK_def FFI_POISONED_def)
  qed
qed

theorem submit_export_contract_witness:
  "\<exists>slot out p' h'. gusset_submit demo_submit None True False (Some CallHeader_default) (Some [1, 2]) 2 0 False
      (process_init, poison (Handle_new 1 True)) = Some (FFI_POISONED, slot, out, p', h')
    \<and> status_sound True FFI_POISONED slot p' \<and> h' = poison (Handle_new 1 True)"
proof -
  have "guard_ok process_init"
    by (simp add: guard_ok_def locs_ok_def process_init_def)
  from submit_export_contract [OF this, of demo_submit None True False "Some CallHeader_default" "Some [1, 2]" 2 0 False
      "poison (Handle_new 1 True)"]
  show ?thesis by (auto simp: poison_def)
qed



text \<open>C13: \<open>gusset_take\<close> moves a result out exactly once and hands over what the job produced. When it
  succeeds, an empty result is the null pointer, other bytes are a fresh live buffer holding exactly those
  bytes, and a buffer result is that buffer with the owned flag on its id; the result is then gone, so a
  second take is \<open>FFI_ERR\<close>. An engine panic is reported as \<open>FFI_PANIC\<close> and poisons; every other failure is
  \<open>FFI_ERR\<close>.\<close>

theorem take_export_moves_once:
  assumes "sys_alloc_ok sa" and "buf_inv other p h us" and "guard_ok p"
    and "gusset_take sa th None hs False ticket (p, h) = (code, slot, out, p', h')"
  shows "status_sound hs code slot p' \<and> results h' = AList.delete ticket (results h)
    \<and> map_of (results h') ticket = None
    \<and> (case out of
         Some v \<Rightarrow> code = FFI_OK \<and> (\<exists>r. map_of (results h) ticket = Some r \<and> hands_over r v (pmem p') h')
       | None \<Rightarrow> code = (case map_of (results h) ticket of Some (ResPanic _ _ _) \<Rightarrow> FFI_PANIC | _ \<Rightarrow> FFI_ERR))
    \<and> (code = FFI_PANIC \<longrightarrow> h_poisoned h')"
proof -
  let ?p1 = "snd (take_panic_location th p)"
  have ok1: "guard_ok ?p1" by (rule guard_ok_start [OF assms(3)])
  have inv1: "buf_inv other ?p1 h us" by (rule buf_inv_guard_only [OF guard_only_take assms(2)])
  obtain x q k where x: "take_and_convert sa ticket (?p1, h) = (x, q, k)" by (rule prod_cases3)
  have spec: "guard_ok q \<and> results k = AList.delete ticket (results h)
    \<and> (\<forall>e. x = Inl e \<longrightarrow> fe_code e = (case map_of (results h) ticket of Some (ResPanic _ _ _) \<Rightarrow> FFI_PANIC | _ \<Rightarrow> FFI_ERR))
    \<and> (\<forall>v. x = Inr v \<longrightarrow> (\<exists>r. map_of (results h) ticket = Some r \<and> hands_over r v (pmem q) k))"
  proof (cases "map_of (results h) ticket")
    case None
    then have "AList.delete ticket (results h) = results h" by (intro delete_absent) (simp add: map_of_eq_None_iff)
    with None x ok1 show ?thesis by (auto simp: take_and_convert_def take_result_def FfiError_from_string_def)
  next
    case (Some r)
    let ?h1 = "h\<lparr>results := AList.delete ticket (results h)\<rparr>"
    have run: "take_body sa r (?p1, ?h1) = (x, q, k)" using x Some by (simp add: take_and_convert_def take_result_def)
    have "buf_inv other ?p1 ?h1 us" by (rule buf_inv_handle [OF _ inv1]) simp
    from take_body_spec [OF assms(1) this ok1 run] Some show ?thesis by (auto split: JobResult.splits)
  qed
  let ?y = "case x of Inl e \<Rightarrow> Done (Inl e) | Inr v \<Rightarrow> Done (Inr v)"
  have bx: "body th None id (take_and_convert sa ticket) (?p1, h) = (?y, q, k)" using x by (simp add: body_def split: sum.splits)
  have run: "handle_export th hs (body th None id (take_and_convert sa ticket)) (p, h) = (code, slot, out, p', h')"
    using assms(4) by (simp add: gusset_take_def)
  have okq: "guard_ok q" using spec by simp
  note sp = handle_export_spec [OF run bx okq]
  have m: "pmem p' = pmem q" using sp more_fields(1) by blast
  have d: "map_of (AList.delete ticket (results h)) ticket = None" by (simp add: delete_conv')
  have hb: "hands_over r v mm (poison k) = hands_over r v mm k" for r v mm by (simp add: hands_over_def poison_def)
  from sp spec m d hb show ?thesis
    by (cases x) (auto simp: code_of_def written_def poison_def)
qed

theorem take_export_moves_once_witness:
  "\<exists>code slot out p' h'. gusset_take bump_alloc demo_thread None True False 7
      (process_init, store_result 7 (ResOk [1, 2]) (Handle_new 1 True)) = (code, slot, out, p', h')
    \<and> map_of (results h') 7 = None \<and> status_sound True code slot p'"
proof -
  let ?h = "store_result 7 (ResOk [1, 2]) (Handle_new 1 True)"
  obtain code slot out p' h' where run: "gusset_take bump_alloc demo_thread None True False 7 (process_init, ?h)
      = (code, slot, out, p', h')" by (metis prod_cases5)
  have "guard_ok process_init" by (simp add: guard_ok_def locs_ok_def process_init_def)
  moreover have "buf_inv {} process_init ?h []"
    by (rule buf_inv_handle [OF _ buf_inv_init(1) [of 1 True]]) (simp add: store_result_def)
  ultimately show ?thesis using take_export_moves_once [OF bump_alloc_ok _ _ run] run by blast
qed

end
