(* ===== verification/Adopter.thy ===== *)
theory Adopter
  imports Pool_System
begin

text \<open>
  The engines of this repository keep the contract the pool asks of an adopter: the diagnostic engine of
  \<open>pool/diagnostic.rs\<close> and the example crate's engine, in any environment that itself leaves the pool alone.
\<close>

definition same_core :: "process \<Rightarrow> process \<Rightarrow> bool" where
  "same_core p p' \<longleftrightarrow> pmem p' = pmem p \<and> arcs p' = arcs p \<and> next_ticket p' = next_ticket p \<and> next_buffer_id p' = next_buffer_id p
     \<and> (guard_ok p \<longrightarrow> guard_ok p')"

text \<open>The environment of a diagnostic job: nothing else moves while mode 17 holds, and an output vector is
  built in memory of its own.\<close>

definition env_ok :: "diag_env \<Rightarrow> bool" where
  "env_ok denv \<longleftrightarrow> (\<forall>p. same_core p (de_hold denv p))
     \<and> (\<forall>bs p x p'. de_output denv bs p = (x, p') \<longrightarrow> proc_frame p p'
          \<and> (\<forall>other h us. buf_inv other p h us \<longrightarrow>
               (\<exists>other'. buf_inv other' p' h us \<and> (\<forall>v. x = OutAllocated v \<longrightarrow> vec_ok other' p' v))))"

lemma same_core_refl [simp]: "same_core p p"
  by (simp add: same_core_def)

lemma same_core_trans: "same_core p q \<Longrightarrow> same_core q r \<Longrightarrow> same_core p r"
  by (simp add: same_core_def)

lemma same_core_guard: "guard_only p p' \<Longrightarrow> same_core p p'"
  by (simp add: guard_only_def same_core_def)

lemma same_core_inv: "same_core p p' \<Longrightarrow> buf_inv other p h us \<Longrightarrow> buf_inv other p' h us"
  using buf_inv_core [of p' p h h] by (simp add: same_core_def)

lemma same_core_logs: "same_core p (fold (\<lambda>i. log_line me (f i)) is p)"
  by (induction "is" arbitrary: p) (auto intro: same_core_trans [OF same_core_guard [OF guard_only_log]])

lemma diagnostic_mode_core:
  assumes "env_ok env"
  shows "same_core p (snd (diagnostic_mode th env ctx mode input p))"
proof -
  have hold: "same_core p (in_engine_exit (de_hold env (in_engine_enter p)))"
  proof -
    have "same_core (in_engine_enter p) (de_hold env (in_engine_enter p))" using assms by (simp add: env_ok_def)
    then show ?thesis by (simp add: same_core_def in_engine_enter_def in_engine_exit_def)
  qed
  have panic: "same_core p (snd (diag_panic th env pl line p))" for pl line
    by (simp add: diag_panic_def same_core_guard)
  show ?thesis
    unfolding diagnostic_mode_def Let_def
    by (simp add: panic hold same_core_logs split: option.split sum.split) (simp add: same_core_def)
qed

lemma diagnostic_dispatch_core:
  assumes "env_ok env"
  shows "same_core p (snd (diagnostic_dispatch th env ctx input p))"
  using assms
proof (induction th env ctx input p rule: diagnostic_dispatch.induct)
  case (1 th env ctx input p)
  show ?case
  proof (cases input)
    case Nil
    then show ?thesis by (simp add: diagnostic_dispatch.simps [of th env ctx])
  next
    case (Cons mode rest)
    show ?thesis
    proof (cases "mode = 9 \<and> (\<exists>b. byte_at input 2 = Some b \<and> b \<noteq> 9)")
      case True
      then obtain b where b: "mode = 9" "byte_at input 2 = Some b" "b \<noteq> 9" by blast
      with Cons have "diagnostic_dispatch th env ctx input p = diagnostic_dispatch th env ctx (drop 2 input) p"
        by (subst diagnostic_dispatch.simps) simp
      with "1.IH" [OF Cons b] "1.prems" show ?thesis by simp
    next
      case False
      with Cons diagnostic_mode_core [OF "1.prems", of p th ctx mode input] show ?thesis
        by (subst diagnostic_dispatch.simps) (auto split: option.split)
    qed
  qed
qed

text \<open>What one call of an engine keeps.\<close>

definition engine_keeps :: "pstate \<Rightarrow> (rstr + JobOutput) outcome \<times> pstate \<Rightarrow> bool" where
  "engine_keeps st res \<longleftrightarrow>
     (case (st, res) of ((p, h), (r, p', h')) \<Rightarrow>
        h' = h \<and> proc_frame p p'
        \<and> (\<forall>other us. buf_inv other p h us \<longrightarrow>
             (\<exists>other'. buf_inv other' p' h us \<and> (\<forall>v. r = Done (Inr (OutAllocated v)) \<longrightarrow> vec_ok other' p' v))))"

lemma keeps_core: "same_core p p' \<Longrightarrow> (\<And>v. r \<noteq> Done (Inr (OutAllocated v))) \<Longrightarrow> engine_keeps (p, h) (r, p', h)"
  using same_core_inv [of p p' _ h] by (auto simp: engine_keeps_def same_core_def)

lemma keeps_output:
  assumes "env_ok env" and "de_output env out p = (x, p')"
  shows "engine_keeps (p, h) (Done (Inr x), p', h)"
  using assms by (simp add: env_ok_def engine_keeps_def)

lemma diagnostic_allocated_keeps:
  assumes "env_ok env" and "diagnostic_allocated env ctx input p = (r, p')"
  shows "engine_keeps (p, h) (r, p', h)"
proof (cases "\<exists>out x. de_output env out p = (x, p') \<and> r = Done (Inr x)")
  case True
  then show ?thesis using keeps_output [OF assms(1)] by blast
next
  case False
  with assms(2) have "p' = p" "\<exists>e. r = Done (Inl e)"
    by (auto simp: diagnostic_allocated_def Let_def split: option.splits if_splits sum.splits prod.splits)
  then show ?thesis by (auto intro: keeps_core)
qed

lemma example_engine_keeps:
  assumes "env_ok env"
  shows "engine_keeps (p, h) (example_engine api env th ctx input (p, h))"
proof (cases input)
  case Nil
  then show ?thesis by (simp add: example_engine_def keeps_core)
next
  case (Cons op rest)
  obtain x p' where o: "de_output env (rev rest) p = (x, p')" by force
  have raised: "same_core p (raise_panic th l p)" for l by (simp add: same_core_guard)
  show ?thesis using Cons o keeps_output [OF assms o] raised
    by (simp add: example_engine_def keeps_core split: sum.split option.split)
qed

text \<open>The two registries: the diagnostic engine alone, and the example engine installed.\<close>

lemma default_dispatch_keeps:
  assumes env: "env_ok env" and reg: "engine_registry e = None"
    and glob: "\<And>f th ctx input p h. global_engine e = Some f \<Longrightarrow> engine_keeps (p, h) (f th ctx input (p, h))"
  shows "engine_keeps (p, h) (default_dispatch e env th ctx input (p, h))"
proof (cases "opcode ctx = 0 \<and> global_engine e = None \<and> flags (ctx_header ctx) AND GUSSET_FLAG_DIAGNOSTIC_ENGINE \<noteq> 0")
  case False
  then show ?thesis using reg glob by (auto simp: default_dispatch_def keeps_core split: option.split)
next
  case True
  obtain r1 p1 where a: "diagnostic_allocated env ctx input p = (r1, p1)" by force
  obtain r2 p2 where d: "diagnostic_dispatch th env ctx input p = (r2, p2)" by force
  have c: "same_core p p2" using diagnostic_dispatch_core [OF env, of p th ctx input] d by simp
  have "(case r2 of Done (Inr out) \<Rightarrow> Done (Inr (OutBytes out)) | Done (Inl e) \<Rightarrow> Done (Inl e) | Raised pl \<Rightarrow> Raised pl)
      \<noteq> Done (Inr (OutAllocated v))" for v by (simp split: outcome.split sum.split)
  from True a d diagnostic_allocated_keeps [OF env a] keeps_core [OF c this] show ?thesis
    by (simp add: default_dispatch_def)
qed

lemma keeps_contract:
  assumes "\<And>th ctx input p h. engine_keeps (p, h) (default_dispatch e env th ctx input (p, h))"
  shows "engines_frame e env" and "engine_buf_ok e env"
proof -
  have k: "engine_keeps (p, h) (r, p', h')" if "default_dispatch e env th ctx input (p, h) = (r, p', h')"
    for th ctx input p h r p' h'
    using assms [of p h th ctx input] that by simp
  show "engines_frame e env" unfolding engines_frame_def
    by (intro allI impI) (drule k, simp add: engine_keeps_def)
  show "engine_buf_ok e env" unfolding engine_buf_ok_def
    by (intro allI impI) (drule k, simp add: engine_keeps_def)
qed

lemma shipped_contract:
  assumes "env_ok env" and "sys_alloc_ok sa"
  shows "pool_contract engines_init env sa" and "pool_contract (init_example_engine api env engines_init) env sa"
proof -
  have "engine_keeps (p, h) (default_dispatch engines_init env th ctx input (p, h))" for p h th ctx input
    by (rule default_dispatch_keeps [OF assms(1)]) (simp_all add: engines_init_def)
  from keeps_contract [OF this] assms(2) show "pool_contract engines_init env sa" by (simp add: pool_contract_def)
  have "engine_keeps (p, h) (default_dispatch (init_example_engine api env engines_init) env th ctx input (p, h))" for p h th ctx input
    by (rule default_dispatch_keeps [OF assms(1)])
      (auto simp: init_example_engine_def set_engine_handler_def engines_init_def example_engine_keeps [OF assms(1)])
  from keeps_contract [OF this] assms(2) show "pool_contract (init_example_engine api env engines_init) env sa"
    by (simp add: pool_contract_def)
qed

lemma quiet_env_ok: "env_ok quiet_env"
  by (auto simp: env_ok_def quiet_env_def)

interpretation diagnostic_pool: pool_client engines_init quiet_env bump_alloc
  using shipped_contract(1) [OF quiet_env_ok bump_alloc_ok] by (simp add: pool_client_iff)

interpretation example_pool: pool_client "init_example_engine True quiet_env engines_init" quiet_env bump_alloc
  using shipped_contract(2) [OF quiet_env_ok bump_alloc_ok] by (simp add: pool_client_iff)

text \<open>A pool serving the repository's own engines, with no hypothesis left.\<close>

lemma shipped_pool_conserves:
  "pool_reachable (init_example_engine True quiet_env engines_init) quiet_env bump_alloc s \<Longrightarrow>
     tickets_inv s \<and> results_inv s \<and> memory_inv [] s"
  using example_pool.pool_reachable_inv [of s] by (simp add: pool_inv_def)

subsection \<open>Properties\<close>



end
