(* ===== verification/Service_Spec.thy ===== *)
theory Service_Spec
  imports Adopter
begin

text \<open>
  What a handle promises its host, as a service that knows nothing of queues, workers or locks: a ticket is
  accepted, later completed, its result taken, and at some point the service stops accepting. \<open>svc_do\<close> is the
  service; a pool refines it when every run of the pool is a run of the service.
\<close>

subsection \<open>The service\<close>

record service =
  sv_open :: bool
  sv_seen :: "u64 set"
  sv_pending :: "u64 set"
  sv_stored :: "u64 \<Rightarrow> JobResult option"

text \<open>A completion may leave a result to be taken, or have carried it in its record.\<close>

datatype service_event = Accepted u64 | Completed u64 "JobResult option" | Taken u64 JobResult | Stopped

definition svc_start :: service where
  "svc_start = \<lparr>sv_open = True, sv_seen = {}, sv_pending = {}, sv_stored = Map.empty\<rparr>"

fun svc_do :: "service_event \<Rightarrow> service \<Rightarrow> service option" where
  "svc_do (Accepted t) v =
     (if sv_open v \<and> t \<notin> sv_seen v then Some (v\<lparr>sv_seen := insert t (sv_seen v), sv_pending := insert t (sv_pending v)\<rparr>)
      else None)"
| "svc_do (Completed t r) v =
     (if t \<in> sv_pending v then Some (v\<lparr>sv_pending := sv_pending v - {t}, sv_stored := (sv_stored v)(t := r)\<rparr>) else None)"
| "svc_do (Taken t r) v =
     (if sv_stored v t = Some r then Some (v\<lparr>sv_stored := (sv_stored v)(t := None)\<rparr>) else None)"
| "svc_do Stopped v = Some (v\<lparr>sv_open := False\<rparr>)"

fun svc_run :: "service_event list \<Rightarrow> service \<Rightarrow> service option" where
  "svc_run [] v = Some v"
| "svc_run (x # xs) v = (case svc_do x v of Some w \<Rightarrow> svc_run xs w | None \<Rightarrow> None)"

lemma svc_run_append: "svc_run (xs @ ys) v = Option.bind (svc_run xs v) (svc_run ys)"
  by (induction xs arbitrary: v) (auto split: option.splits)

text \<open>In a run of the service every ticket is accepted at most once, completed at most once and after it was
  accepted, and taken at most once and after it was completed; nothing is accepted once it stopped.\<close>

definition accepts :: "service_event list \<Rightarrow> u64 list" where
  "accepts xs = concat (map (\<lambda>x. case x of Accepted t \<Rightarrow> [t] | _ \<Rightarrow> []) xs)"

definition completes :: "service_event list \<Rightarrow> u64 list" where
  "completes xs = concat (map (\<lambda>x. case x of Completed t _ \<Rightarrow> [t] | _ \<Rightarrow> []) xs)"

definition takes :: "service_event list \<Rightarrow> u64 list" where
  "takes xs = concat (map (\<lambda>x. case x of Taken t _ \<Rightarrow> [t] | _ \<Rightarrow> []) xs)"

lemma history_simps [simp]:
  "accepts [] = []" "completes [] = []" "takes [] = []"
  "accepts (xs @ ys) = accepts xs @ accepts ys" "completes (xs @ ys) = completes xs @ completes ys"
  "takes (xs @ ys) = takes xs @ takes ys"
  by (simp_all add: accepts_def completes_def takes_def)

lemma history_event [simp]:
  "accepts (Accepted t # xs) = t # accepts xs" "accepts (Completed t r # xs) = accepts xs" "accepts (Taken t q # xs) = accepts xs" "accepts (Stopped # xs) = accepts xs"
  "completes (Accepted t # xs) = completes xs" "completes (Completed t r # xs) = t # completes xs" "completes (Taken t q # xs) = completes xs" "completes (Stopped # xs) = completes xs"
  "takes (Accepted t # xs) = takes xs" "takes (Completed t r # xs) = takes xs" "takes (Taken t q # xs) = t # takes xs" "takes (Stopped # xs) = takes xs"
  by (simp_all add: accepts_def completes_def takes_def)

definition svc_inv :: "service_event list \<Rightarrow> service \<Rightarrow> bool" where
  "svc_inv xs v \<longleftrightarrow> sv_seen v = set (accepts xs) \<and> distinct (accepts xs)
     \<and> distinct (completes xs) \<and> set (completes xs) \<subseteq> set (accepts xs) \<and> sv_pending v = set (accepts xs) - set (completes xs)
     \<and> distinct (takes xs) \<and> set (takes xs) \<subseteq> set (completes xs) \<and> dom (sv_stored v) \<subseteq> set (completes xs) - set (takes xs)
     \<and> (sv_open v \<longleftrightarrow> Stopped \<notin> set xs)"

lemma svc_run_inv: "svc_run xs svc_start = Some v \<Longrightarrow> svc_inv xs v"
proof (induction xs arbitrary: v rule: rev_induct)
  case Nil
  then show ?case by (auto simp: svc_inv_def svc_start_def)
next
  case (snoc x xs)
  then obtain w where w: "svc_run xs svc_start = Some w" "svc_do x w = Some v"
    by (auto simp: svc_run_append split: Option.bind_splits option.splits)
  have i: "svc_inv xs w" by (rule snoc.IH [OF w(1)])
  show ?case
  proof (cases x)
    case (Accepted t)
    with w(2) have t: "sv_open w" "t \<notin> sv_seen w"
      and v: "v = w\<lparr>sv_seen := insert t (sv_seen w), sv_pending := insert t (sv_pending w)\<rparr>" by (auto split: if_splits)
    show ?thesis using i t Accepted by (simp add: svc_inv_def v) blast
  next
    case (Completed t r)
    with w(2) have t: "t \<in> sv_pending w" and v: "v = w\<lparr>sv_pending := sv_pending w - {t}, sv_stored := (sv_stored w)(t := r)\<rparr>"
      by (auto split: if_splits)
    with i have "t \<in> set (accepts xs)" "t \<notin> set (completes xs)" by (auto simp: svc_inv_def)
    moreover from this i have "t \<notin> set (takes xs)" by (auto simp: svc_inv_def)
    ultimately show ?thesis using i Completed by (simp add: svc_inv_def v) blast
  next
    case (Taken t r)
    with w(2) have t: "sv_stored w t = Some r" and v: "v = w\<lparr>sv_stored := (sv_stored w)(t := None)\<rparr>"
      by (auto split: if_splits)
    from t have "t \<in> dom (sv_stored w)" by blast
    with i have "t \<in> set (completes xs)" "t \<notin> set (takes xs)" by (auto simp: svc_inv_def)
    then show ?thesis using i Taken by (simp add: svc_inv_def v) blast
  next
    case Stopped
    with w(2) have v: "v = w\<lparr>sv_open := False\<rparr>" by simp
    show ?thesis using i Stopped by (simp add: svc_inv_def v)
  qed
qed

lemma svc_run_closed: "svc_run xs v = Some w \<Longrightarrow> \<not> sv_open v \<Longrightarrow> accepts xs = []"
proof (induction xs arbitrary: v)
  case (Cons x xs)
  then obtain u where u: "svc_do x v = Some u" "svc_run xs u = Some w" by (auto split: option.splits)
  with Cons.prems(2) have "\<not> sv_open u" "\<And>t. x \<noteq> Accepted t" by (cases x; auto split: if_splits)+
  with Cons.IH [OF u(2)] show ?case by (cases x) auto
qed simp

lemma svc_run_ordered:
  assumes "svc_run (ys @ zs) svc_start = Some v"
  shows "set (takes ys) \<subseteq> set (completes ys) \<and> set (completes ys) \<subseteq> set (accepts ys) \<and> (Stopped \<in> set ys \<longrightarrow> accepts zs = [])"
proof -
  obtain u where u: "svc_run ys svc_start = Some u" "svc_run zs u = Some v"
    using assms by (auto simp: svc_run_append split: Option.bind_splits)
  from svc_run_inv [OF u(1)] svc_run_closed [OF u(2)] show ?thesis by (auto simp: svc_inv_def)
qed

subsection \<open>Refinement\<close>

text \<open>The runs of a system whose steps are labelled with service events.\<close>

inductive run_of :: "('s \<Rightarrow> 's \<Rightarrow> bool) \<Rightarrow> ('s \<Rightarrow> 's \<Rightarrow> service_event list) \<Rightarrow> 's \<Rightarrow> service_event list \<Rightarrow> 's \<Rightarrow> bool"
  for step events s where
  rest: "run_of step events s [] s"
| go: "run_of step events s xs s' \<Longrightarrow> step s' s'' \<Longrightarrow> run_of step events s (xs @ events s' s'') s''"

text \<open>A system refines the service when each of its steps, in a state satisfying its invariant, is matched by
  what the service does on the events of that step.\<close>

locale refines_service =
  fixes step :: "'s \<Rightarrow> 's \<Rightarrow> bool" and inv :: "'s \<Rightarrow> bool" and view :: "'s \<Rightarrow> service" and events :: "'s \<Rightarrow> 's \<Rightarrow> service_event list"
  assumes keeps: "inv s \<Longrightarrow> step s s' \<Longrightarrow> inv s'"
    and square: "inv s \<Longrightarrow> step s s' \<Longrightarrow> svc_run (events s s') (view s) = Some (view s')"
begin

lemma trace_inclusion: "run_of step events s xs s' \<Longrightarrow> inv s \<Longrightarrow> inv s' \<and> svc_run xs (view s) = Some (view s')"
  by (induction rule: run_of.induct) (auto simp: svc_run_append keeps square)

end

subsection \<open>The pool is one\<close>

text \<open>What a host sees of a pool: whether it accepts, the tickets it was given, those in flight, and the results
  that wait to be taken. \<open>pool_events\<close> reads a step's events off the two states it joins.\<close>

definition accepting :: "pool_sys \<Rightarrow> bool" where
  "accepting s \<longleftrightarrow> \<not> h_poisoned (ps_h s) \<and> \<not> h_closed (ps_h s)"

definition pool_view :: "pool_sys \<Rightarrow> service" where
  "pool_view s = \<lparr>sv_open = accepting s, sv_seen = set (ps_issued s), sv_pending = u_ticket ` set (in_flight_units s),
     sv_stored = map_of (results (ps_h s))\<rparr>"

definition pool_events :: "pool_sys \<Rightarrow> pool_sys \<Rightarrow> service_event list" where
  "pool_events s s' =
     map Accepted (drop (length (ps_issued s)) (ps_issued s'))
     @ map (\<lambda>t. Completed t (map_of (results (ps_h s')) t)) (drop (length (ps_done s)) (ps_done s'))
     @ map (\<lambda>t. Taken t (the (map_of (results (ps_h s)) t))) (drop (length (ps_taken s)) (ps_taken s'))
     @ (if accepting s \<and> \<not> accepting s' then [Stopped] else [])"

abbreviation pool_run :: "engines \<Rightarrow> diag_env \<Rightarrow> sys_alloc \<Rightarrow> pool_sys \<Rightarrow> service_event list \<Rightarrow> pool_sys \<Rightarrow> bool" where
  "pool_run e denv sa \<equiv> run_of (pool_step e denv sa) pool_events"

lemma pool_events_history:
  assumes "pool_step e denv sa s s'"
  shows "ps_issued s' = ps_issued s @ accepts (pool_events s s') \<and> ps_done s' = ps_done s @ completes (pool_events s s')
    \<and> ps_taken s' = ps_taken s @ takes (pool_events s s')"
  using assms by cases (simp_all add: pool_events_def)

lemma pool_run_history:
  assumes "pool_run e denv sa s0 xs s" and "pool_initial s0"
  shows "ps_issued s = accepts xs \<and> ps_done s = completes xs \<and> ps_taken s = takes xs"
  using assms(1)
proof induction
  case rest
  from assms(2) show ?case by cases (simp_all add: pool_start_def)
qed (simp add: pool_events_history)

lemma reachable_pool_run: "pool_reachable e denv sa s \<Longrightarrow> \<exists>s0 xs. pool_initial s0 \<and> pool_run e denv sa s0 xs s"
proof (induction rule: pool_reachable.induct)
  case (start s)
  have "pool_run e denv sa s [] s" by (rule run_of.rest)
  with start show ?case by blast
next
  case (step s s')
  then show ?case by (blast intro: run_of.go)
qed

lemma view_pending: "pool_inv [] s \<Longrightarrow> u_ticket ` set (in_flight_units s) = set (ps_issued s) - set (ps_done s)"
  using tickets_inv_tickets [of s] by (auto simp: pool_inv_def)

lemma view_start: "pool_initial s \<Longrightarrow> pool_view s = svc_start"
proof (induction rule: pool_initial.induct)
  case (opened oe n0 fd fds h fds' p)
  then obtain n inline where q: "quiet process_init (Handle_new n inline) p h" "h_poisoned h = False" "h_closed h = False"
    by (rule open_quiet)
  then have "results h = []" "items (h_queue h) = []" by (simp_all add: quiet_def Handle_new_def JobQueue_new_def)
  with q(2,3) show ?case by (simp add: pool_view_def svc_start_def accepting_def in_flight_units_def fun_eq_iff)
qed (simp add: pool_view_def svc_start_def pool_start_def Handle_new_def accepting_def in_flight_units_def JobQueue_new_def fun_eq_iff)

text \<open>A step that changes no job is silent, or stops the service.\<close>

lemma silent_square:
  assumes "ps_issued s' = ps_issued s" "ps_done s' = ps_done s" "ps_taken s' = ps_taken s" "results (ps_h s') = results (ps_h s)"
    and "pool_inv [] s" "pool_inv [] s'" and "accepting s' \<longrightarrow> accepting s"
  shows "svc_run (pool_events s s') (pool_view s) = Some (pool_view s')"
  using assms(1-4,7) view_pending [OF assms(5)] view_pending [OF assms(6)]
  by (auto simp: pool_events_def pool_view_def)

lemma submitted_square:
  assumes inv: "pool_inv [] s" and run: "submit_classified se header input bid (ps_p s, ps_h s) = (Inr t, p', h')"
  defines "s' \<equiv> s\<lparr>ps_p := p', ps_h := h', ps_issued := ps_issued s @ [t]\<rparr>"
  shows "svc_run (pool_events s s') (pool_view s) = Some (pool_view s')"
proof -
  have ti: "tickets_inv s" using inv by (simp add: pool_inv_def)
  obtain other where b: "buf_inv other (ps_p s) (ps_h s) (map u_payload (in_flight_units s))"
    using inv by (auto simp: pool_inv_def memory_inv_def)
  note sp = submit_spec [OF run b fresh_ticket [OF ti]]
  from sp obtain u where u: "u_ticket u = t" "items (h_queue h') = items (h_queue (ps_h s)) @ [u]" by blast
  have "t \<notin> set (ps_issued s)" using ti sp by (auto simp: tickets_inv_def)
  moreover have "accepting s" "accepting s'" "results h' = results (ps_h s)" using sp by (auto simp: accepting_def s'_def)
  moreover have "u_ticket ` set (in_flight_units s') = insert t (u_ticket ` set (in_flight_units s))"
    by (auto simp: s'_def in_flight_units_def u)
  ultimately show ?thesis by (simp add: pool_events_def pool_view_def) (simp add: s'_def)
qed

lemma took_square:
  assumes run: "take_result t (ps_h s) = (Inr r, h')"
  defines "s' \<equiv> s\<lparr>ps_h := h', ps_taken := ps_taken s @ [t]\<rparr>"
  shows "svc_run (pool_events s s') (pool_view s) = Some (pool_view s')"
proof -
  have h': "h' = (ps_h s)\<lparr>results := AList.delete t (results (ps_h s))\<rparr>" "map_of (results (ps_h s)) t = Some r"
    using run by (auto simp: take_result_def split: option.splits)
  have "accepting s' = accepting s" "in_flight_units s' = in_flight_units s" by (simp_all add: s'_def h'(1) accepting_def in_flight_units_def)
  with h'(2) show ?thesis by (simp add: pool_events_def pool_view_def) (simp add: s'_def h'(1) delete_conv')
qed

context pool_client
begin

lemma delivered_square:
  assumes inv: "pool_inv [] s" and u: "u \<in> set (ps_running s)" and al: "turn_alive te"
    and run: "worker_turn be disp e denv sa th te u (ps_p s, ps_h s) = Some (out, p', h')"
  defines "s' \<equiv> s\<lparr>ps_p := p', ps_h := h', ps_running := remove1 u (ps_running s), ps_done := ps_done s @ [u_ticket u]\<rparr>"
  shows "svc_run (pool_events s s') (pool_view s) = Some (pool_view s')"
proof -
  note fr = turn_framed [OF inv u al run, unfolded turn_frame_def]
  have inv': "pool_inv [] s'" unfolding s'_def by (rule step_delivered [OF inv u al run])
  have "u_ticket u \<in> u_ticket ` set (in_flight_units s)" using u by (simp add: in_flight_units_def)
  moreover have "(map_of (results (ps_h s)))(u_ticket u := map_of (results h') (u_ticket u)) = map_of (results h')"
    using fr by auto
  moreover have "u_ticket ` set (in_flight_units s') = u_ticket ` set (in_flight_units s) - {u_ticket u}"
    unfolding view_pending [OF inv] view_pending [OF inv'] by (auto simp: s'_def)
  moreover have "accepting s' \<longrightarrow> accepting s" using fr by (auto simp: accepting_def s'_def)
  moreover have "pool_events s s' = Completed (u_ticket u) (map_of (results h') (u_ticket u))
      # (if accepting s \<and> \<not> accepting s' then [Stopped] else [])" by (simp add: pool_events_def s'_def)
  moreover have "ps_issued s' = ps_issued s" "ps_h s' = h'" by (simp_all add: s'_def)
  ultimately show ?thesis by (cases "accepting s'"; cases "accepting s") (simp_all add: pool_view_def)
qed

text \<open>The buffer calls.\<close>

lemma buffers_square:
  assumes inv: "pool_inv [] s" "pool_inv [] s'" and s': "s' = s\<lparr>ps_p := p', ps_h := h'\<rparr>" and fr: "pool_frame (ps_h s) h'"
  shows "svc_run (pool_events s s') (pool_view s) = Some (pool_view s')"
  using fr by (intro silent_square [OF _ _ _ _ inv]) (auto simp: s' accepting_def pool_frame_fields [OF fr] pool_frame_def)

lemma step_square:
  assumes inv: "pool_inv [] s" and step: "pool_step e denv sa s s'"
  shows "svc_run (pool_events s s') (pool_view s) = Some (pool_view s')"
proof -
  note inv' = pool_step_inv [OF step inv]
  from step inv show ?thesis
  proof (cases rule: pool_step_quiet)
    case quiet
    then show ?thesis by (intro silent_square [OF _ _ _ _ inv inv']) (auto simp: quiet_def accepting_def)
  next
    case submitted
    then show ?thesis using submitted_square [OF inv] by simp
  next
    case (refused se header input bid err p' h')
    have ti: "tickets_inv s" using inv by (simp add: pool_inv_def)
    obtain other where b: "buf_inv other (ps_p s) (ps_h s) (map u_payload (in_flight_units s))"
      using inv by (auto simp: pool_inv_def memory_inv_def)
    show ?thesis using submit_spec [OF refused(1) b fresh_ticket [OF ti]]
      by (intro silent_square [OF _ _ _ _ inv inv']) (simp_all add: refused(2) accepting_def)
  next
    case dequeued
    then show ?thesis by (intro silent_square [OF _ _ _ _ inv inv']) (simp_all add: accepting_def)
  next
    case delivered
    then show ?thesis using delivered_square [OF inv] by simp
  next
    case took
    then show ?thesis using took_square by simp
  next
    case buffers
    then show ?thesis using buffers_square [OF inv inv'] by blast
  qed
qed

end

sublocale pool_client < svc: refines_service "pool_step e denv sa" "pool_inv []" pool_view pool_events
  by unfold_locales (auto intro: pool_step_inv step_square)

context pool_client
begin

lemma pool_trace: "pool_initial s0 \<Longrightarrow> pool_run e denv sa s0 xs s \<Longrightarrow> svc_run xs svc_start = Some (pool_view s)"
  using svc.trace_inclusion [OF _ pool_inv_start] by (simp add: view_start)

end

subsection \<open>Property\<close>



end
