(* ===== verification/Host.thy ===== *)
theory Host
  imports Exports Service_Spec
begin

text \<open>
  A host at work: any sequence of calls to the exported functions on one handle, with whatever arguments and
  whichever of them panic inside, interleaved with the runtime's own steps. Every call is a sequence of pool
  steps, so what holds of the pool holds behind its C interface.
\<close>

subsection \<open>The host's calls\<close>

datatype host_call =
    CallSubmit submit_env fault bool bool "CallHeader option" "bytes option" nat u64 bool
  | CallTake thread fault bool bool u64
  | CallCancel thread fault bool bool u64
  | CallCancelAll thread fault bool bool
  | CallHandleRing thread fault bool bool
  | CallBufAlloc thread fault bool bool nat
  | CallBufFree thread fault bool bool u64
  | CallHandleClose close_env bool bool bool

fun call_status :: "host_call \<Rightarrow> bool" where
  "call_status (CallSubmit se flt hs hn hd1 ip n bid on) = hs"
| "call_status (CallTake th flt hs nul t) = hs"
| "call_status (CallCancel th flt hs nul t) = hs"
| "call_status (CallCancelAll th flt hs nul) = hs"
| "call_status (CallHandleRing th flt hs nul) = hs"
| "call_status (CallBufAlloc th flt hs nul n) = hs"
| "call_status (CallBufFree th flt hs nul i) = hs"
| "call_status (CallHandleClose ce lr hs nul) = hs"

definition after_call :: "'o export \<Rightarrow> pool_sys \<Rightarrow> i32 \<times> FfiStatus option \<times> pool_sys" where
  "after_call x s = (case x of (code, slot, out, p, h) \<Rightarrow> (code, slot, s\<lparr>ps_p := p, ps_h := h\<rparr>))"

definition after_submit :: "u64 export \<Rightarrow> pool_sys \<Rightarrow> i32 \<times> FfiStatus option \<times> pool_sys" where
  "after_submit x s =
     (case x of (code, slot, out, p, h) \<Rightarrow>
        (code, slot, s\<lparr>ps_issued := ps_issued s @ (case out of Some t \<Rightarrow> [t] | None \<Rightarrow> []), ps_p := p, ps_h := h\<rparr>))"

text \<open>A take moves the result out whether or not it can hand it over.\<close>

definition after_take :: "u64 \<Rightarrow> taken export \<Rightarrow> pool_sys \<Rightarrow> i32 \<times> FfiStatus option \<times> pool_sys" where
  "after_take t x s =
     (case x of (code, slot, out, p, h) \<Rightarrow>
        (code, slot, s\<lparr>ps_taken := ps_taken s @ (if map_of (results (ps_h s)) t \<noteq> None \<and> map_of (results h) t = None then [t] else []),
           ps_p := p, ps_h := h\<rparr>))"

fun do_call :: "sys_alloc \<Rightarrow> host_call \<Rightarrow> pool_sys \<Rightarrow> (i32 \<times> FfiStatus option \<times> pool_sys) option" where
  "do_call sa (CallSubmit se flt hs hn hd1 ip n bid on) s =
     map_option (\<lambda>x. after_submit x s) (gusset_submit se flt hs hn hd1 ip n bid on (ps_p s, ps_h s))"
| "do_call sa (CallTake th flt hs nul t) s = Some (after_take t (gusset_take sa th flt hs nul t (ps_p s, ps_h s)) s)"
| "do_call sa (CallCancel th flt hs nul t) s = Some (after_call (gusset_cancel th flt hs nul t (ps_p s, ps_h s)) s)"
| "do_call sa (CallCancelAll th flt hs nul) s = Some (after_call (gusset_cancel_all th flt hs nul (ps_p s, ps_h s)) s)"
| "do_call sa (CallHandleRing th flt hs nul) s = Some (after_call (gusset_handle_ring th flt hs nul (ps_p s, ps_h s)) s)"
| "do_call sa (CallBufAlloc th flt hs nul n) s =
     map_option (\<lambda>x. after_call x s) (gusset_buf_alloc sa th flt hs nul n (ps_p s, ps_h s))"
| "do_call sa (CallBufFree th flt hs nul i) s = Some (after_call (gusset_buf_free th flt hs nul i (ps_p s, ps_h s)) s)"
| "do_call sa (CallHandleClose ce lr hs nul) s =
     (case gusset_handle_close ce lr hs nul (ps_p s, [], ps_h s) of
        (code, slot, p, fds, h) \<Rightarrow> Some (code, slot, s\<lparr>ps_p := p, ps_h := h\<rparr>))"

inductive host_reachable :: "engines \<Rightarrow> diag_env \<Rightarrow> sys_alloc \<Rightarrow> pool_sys \<Rightarrow> bool" for e denv sa where
  opened: "pool_initial s \<Longrightarrow> host_reachable e denv sa s"
| called: "host_reachable e denv sa s \<Longrightarrow> do_call sa c s = Some (code, slot, s') \<Longrightarrow> host_reachable e denv sa s'"
| worked: "host_reachable e denv sa s \<Longrightarrow> pool_step e denv sa s s' \<Longrightarrow> host_reachable e denv sa s'"

subsection \<open>A call is a sequence of pool steps\<close>

text \<open>What a call of the host must be: it returned a status that shows its code, and moved the pool by pool steps.\<close>

definition call_ok :: "engines \<Rightarrow> diag_env \<Rightarrow> sys_alloc \<Rightarrow> bool \<Rightarrow> pool_sys \<Rightarrow> i32 \<times> FfiStatus option \<times> pool_sys \<Rightarrow> bool" where
  "call_ok e denv sa hs s x \<longleftrightarrow>
     (case x of (code, slot, s') \<Rightarrow>
        (pool_step e denv sa)\<^sup>*\<^sup>* s s' \<and> guard_ok (ps_p s') \<and> status_sound hs code slot (ps_p s'))"

text \<open>The call also returned.\<close>

definition returns_ok :: "engines \<Rightarrow> diag_env \<Rightarrow> sys_alloc \<Rightarrow> bool \<Rightarrow> pool_sys \<Rightarrow> (i32 \<times> FfiStatus option \<times> pool_sys) option \<Rightarrow> bool" where
  "returns_ok e denv sa hs s r \<longleftrightarrow> (case r of Some x \<Rightarrow> call_ok e denv sa hs s x | None \<Rightarrow> False)"

lemma returns_ok_Some [simp]: "returns_ok e denv sa hs s (Some x) = call_ok e denv sa hs s x"
  by (simp add: returns_ok_def)

lemma more_guard_only: "guard_state.more p' = guard_state.more p \<Longrightarrow> guard_ok p' \<Longrightarrow> guard_only p p'"
  using more_fields [of p' p] by (simp add: guard_only_def)

lemma sys_order:
  "s\<lparr>ps_p := p, ps_h := h, ps_issued := i\<rparr> = s\<lparr>ps_issued := i, ps_p := p, ps_h := h\<rparr>"
  "s\<lparr>ps_p := p, ps_h := h, ps_taken := k\<rparr> = s\<lparr>ps_taken := k, ps_p := p, ps_h := h\<rparr>"
  by (cases s; simp)+

lemma only_process: "guard_only (ps_p s) p' \<Longrightarrow> (pool_step e denv sa)\<^sup>*\<^sup>* s (s\<lparr>ps_p := p'\<rparr>)"
  by (rule r_into_rtranclp, rule pool_step.housekeeping)

lemma maybe_poison:
  assumes "(pool_step e denv sa)\<^sup>*\<^sup>* s s2" and "guard_only (ps_p s2) p'"
  shows "(pool_step e denv sa)\<^sup>*\<^sup>* s (s2\<lparr>ps_p := p', ps_h := if b then poison (ps_h s2) else ps_h s2\<rparr>)"
proof -
  have 1: "(pool_step e denv sa)\<^sup>*\<^sup>* s (s2\<lparr>ps_p := p'\<rparr>)" using assms only_process by (metis rtranclp_trans)
  have "pool_step e denv sa (s2\<lparr>ps_p := p'\<rparr>) (s2\<lparr>ps_p := p', ps_h := poison (ps_h s2)\<rparr>)"
    using pool_step.poisons [of e denv sa "s2\<lparr>ps_p := p'\<rparr>"] by simp
  with 1 show ?thesis by (cases b) (auto intro: rtranclp.rtrancl_into_rtrancl)
qed

text \<open>A refused call moves nothing.\<close>

lemma refused_ok:
  assumes "guard_ok (ps_p s)"
  shows "refuse_arg hs m (ps_p s) = (c, slot, p') \<Longrightarrow> call_ok e denv sa hs s (c, slot, s\<lparr>ps_p := p'\<rparr>)"
    and "refuse_poisoned hs (ps_p s) = (c, slot, p') \<Longrightarrow> call_ok e denv sa hs s (c, slot, s\<lparr>ps_p := p'\<rparr>)"
  using refuse_sound [where hs = hs and c = c and slot = slot and p' = p'] assms only_process more_guard_only unfolding call_ok_def by fastforce+

lemma after_refused_ok:
  assumes "guard_ok (ps_p s)"
  shows "call_ok e denv sa hs s (after_submit (refused (refuse_arg hs m (ps_p s)) (ps_h s)) s)"
    and "call_ok e denv sa hs s (after_submit (refused (refuse_poisoned hs (ps_p s)) (ps_h s)) s)"
    and "call_ok e denv sa hs s (after_call (refused (refuse_arg hs m (ps_p s)) (ps_h s)) s)"
    and "call_ok e denv sa hs s (after_call (refused (refuse_poisoned hs (ps_p s)) (ps_h s)) s)"
    and "call_ok e denv sa hs s (after_take t (refused (refuse_arg hs m (ps_p s)) (ps_h s)) s)"
  using refused_ok [OF assms]
  by (auto simp: refused_def after_submit_def after_call_def after_take_def split: prod.split)

text \<open>How an export that was not refused moves the state: its body ran on the caller's thread and returned \<open>out\<close>,
  or panicked before it did anything; the guard then touched only its own tables, and may have poisoned.\<close>

inductive export_moves ::
  "fault \<Rightarrow> (process \<times> Handle \<Rightarrow> ('e + 'r) \<times> process \<times> Handle) \<Rightarrow> bool \<Rightarrow> process \<times> Handle \<Rightarrow> 'r export \<Rightarrow> bool" where
  ran: "guard_only p p1 \<Longrightarrow> f (p1, h) = (x, p2, h2) \<Longrightarrow> guard_only p2 p' \<Longrightarrow> guard_ok p' \<Longrightarrow>
     h' = (if b then poison h2 else h2) \<Longrightarrow> status_sound hs code slot p' \<Longrightarrow> out = (case x of Inr v \<Rightarrow> Some v | Inl _ \<Rightarrow> None) \<Longrightarrow>
     export_moves None f hs (p, h) (code, slot, out, p', h')"
| struck: "guard_only p p' \<Longrightarrow> guard_ok p' \<Longrightarrow> status_sound hs code slot p' \<Longrightarrow>
     export_moves (Some y) f hs (p, h) (code, slot, None, p', poison h)"

lemma written_done: "written (guard_result (Done (case x of Inl e \<Rightarrow> Inl (conv e) | Inr v \<Rightarrow> Inr v))) = (case x of Inr v \<Rightarrow> Some v | Inl _ \<Rightarrow> None)"
  by (cases x) (simp_all add: written_def)

lemma body_runs:
  "f st = (x, st') \<Longrightarrow> body th None conv f st = (Done (case x of Inl e \<Rightarrow> Inl (conv e) | Inr v \<Rightarrow> Inr v), st')"
  by (cases x) (simp_all add: body_def)

lemma handle_export_moves:
  assumes ok: "guard_ok p" and keeps: "\<And>p1 x p2 h2. guard_ok p1 \<Longrightarrow> f (p1, h) = (x, p2, h2) \<Longrightarrow> guard_ok p2"
  shows "export_moves flt f hs (p, h) (handle_export th hs (body th flt conv f) (p, h))"
proof -
  obtain code slot out p' h' where run: "handle_export th hs (body th flt conv f) (p, h) = (code, slot, out, p', h')" by (metis prod_cases5)
  show ?thesis
  proof (cases flt)
    case None
    let ?p1 = "snd (take_panic_location th p)"
    obtain x p2 h2 where f: "f (?p1, h) = (x, p2, h2)" by (rule prod_cases3)
    have ok2: "guard_ok p2" by (rule keeps [OF guard_ok_start [OF ok] f])
    note sp = handle_export_spec [OF run [unfolded None] body_runs [where f = f, OF f] ok2]
    have "guard_only p2 p'" using sp more_guard_only by blast
    moreover have "status_sound hs code slot p'" "guard_ok p'" "h' = (if code = FFI_PANIC then poison h2 else h2)"
      using sp by blast+
    moreover have "out = (case x of Inr v \<Rightarrow> Some v | Inl _ \<Rightarrow> None)" using sp unfolding written_done by blast
    ultimately show ?thesis unfolding run [unfolded None] None
      by (intro export_moves.ran [where f = f, OF guard_only_take f])
  next
    case (Some y)
    obtain pl l where y: "y = (pl, l)" by (cases y)
    from faulty_export(1) [where conv = conv and f = f and th = th and hs = hs and h = h and pl = pl and l = l, OF ok] run Some y
    have "out = None" "h' = poison h" "guard_ok p'" "guard_state.more p' = guard_state.more p" "status_sound hs code slot p'" by auto
    with more_guard_only [of p' p] show ?thesis unfolding run by (auto simp: Some intro: export_moves.struck)
  qed
qed

lemma checked_export_moves:
  assumes ok: "guard_ok p" and keeps: "\<And>p1 x p2 h2. guard_ok p1 \<Longrightarrow> f (p1, h) = (x, p2, h2) \<Longrightarrow> guard_ok p2"
    and conv: "\<And>e. fe_code (conv e) \<noteq> FFI_OK"
  shows "\<exists>res. checked_export th hs (body th flt conv f) (p, h) = Some res \<and> export_moves flt f hs (p, h) res"
proof (cases flt)
  case None
  let ?p1 = "snd (take_panic_location th p)"
  obtain x p2 h2 where f: "f (?p1, h) = (x, p2, h2)" by (rule prod_cases3)
  have ok2: "guard_ok p2" by (rule keeps [OF guard_ok_start [OF ok] f])
  note b = body_runs [where f = f and th = th and conv = conv, OF f]
  from checked_export_spec [where f = "body th None conv f" and h = h and hs = hs, OF b ok2 body_codes [where f = f, OF conv b]]
  obtain code slot q b where q: "checked_export th hs (body th None conv f) (p, h) = Some (code, slot,
      (case x of Inr v \<Rightarrow> Some v | Inl _ \<Rightarrow> None), q, if b then poison h2 else h2)"
    "guard_ok q" "guard_state.more q = guard_state.more p2" "status_sound hs code slot q" unfolding written_done by blast
  have "guard_only p2 q" using q more_guard_only by blast
  with q show ?thesis unfolding None by (auto intro!: export_moves.ran [where f = f, OF guard_only_take f])
next
  case (Some y)
  obtain pl l where y: "y = (pl, l)" by (cases y)
  from faulty_export(2) [OF ok, of th hs pl l conv f h]
  obtain slot q where q: "checked_export th hs (body th flt conv f) (p, h) = Some (FFI_PANIC, slot, None, q, poison h)"
    "guard_ok q" "guard_state.more q = guard_state.more p" "status_sound hs FFI_PANIC slot q" unfolding Some y by blast
  with more_guard_only [of q p] show ?thesis unfolding Some by (auto intro!: export_moves.struck)
qed

text \<open>When the body is a sequence of pool steps, so is the call. \<open>i\<close> and \<open>k\<close> are what the call adds to the history
  of issued and taken tickets.\<close>

lemma moves_ok:
  assumes mv: "export_moves flt f hs (ps_p s, ps_h s) (code, slot, out, p', h')"
    and steps: "\<And>p1 x p2 h2. guard_only (ps_p s) p1 \<Longrightarrow> f (p1, ps_h s) = (x, p2, h2) \<Longrightarrow>
      (pool_step e denv sa)\<^sup>*\<^sup>* (s\<lparr>ps_p := p1\<rparr>) (s\<lparr>ps_issued := ps_issued s @ i (case x of Inr v \<Rightarrow> Some v | Inl _ \<Rightarrow> None),
         ps_taken := ps_taken s @ k h2, ps_p := p2, ps_h := h2\<rparr>)"
    and g: "i None = []" "\<And>h. k (poison h) = k h" "k (ps_h s) = []"
  shows "call_ok e denv sa hs s (code, slot, s\<lparr>ps_issued := ps_issued s @ i out, ps_taken := ps_taken s @ k h', ps_p := p', ps_h := h'\<rparr>)"
  using mv
proof cases
  case (ran p1 x p2 h2 b)
  have "(pool_step e denv sa)\<^sup>*\<^sup>* s (s\<lparr>ps_issued := ps_issued s @ i out, ps_taken := ps_taken s @ k h2, ps_p := p2, ps_h := h2\<rparr>)"
    using rtranclp_trans [OF only_process [OF ran(2)] steps [OF ran(2,3)]] by (simp add: ran)
  from maybe_poison [OF this, of p' b] ran show ?thesis by (cases b) (simp_all add: call_ok_def g(2))
next
  case (struck y)
  from maybe_poison [OF rtranclp.rtrancl_refl struck(4), of e denv sa True] struck show ?thesis by (simp add: call_ok_def g)
qed

lemmas quiet_moves_ok = moves_ok [where i = "\<lambda>_. []" and k = "\<lambda>_. []", simplified]


context pool_client
begin

lemma submit_call_ok:
  assumes ok: "guard_ok (ps_p s)"
  shows "returns_ok e denv sa hs s (do_call sa (CallSubmit se flt hs hn hd1 ip n bid onul) s)"
proof (cases "hn \<or> hd1 = None \<or> onul \<or> is_poisoned (ps_h s) \<or> (\<exists>m. inline_input bid ip n = Inl m)")
  case True
  then have "(\<exists>m. gusset_submit se flt hs hn hd1 ip n bid onul (ps_p s, ps_h s) = Some (refused (refuse_arg hs m (ps_p s)) (ps_h s)))
      \<or> gusset_submit se flt hs hn hd1 ip n bid onul (ps_p s, ps_h s) = Some (refused (refuse_poisoned hs (ps_p s)) (ps_h s))"
    unfolding gusset_submit_def by (auto split: sum.splits)
  with after_refused_ok [OF ok] show ?thesis by auto
next
  case False
  then obtain input where input: "inline_input bid ip n = Inr input" by (cases "inline_input bid ip n") auto
  let ?f = "submit_classified se (the hd1) input bid"
  have keeps: "guard_ok p2" if "guard_ok p1" "?f (p1, ps_h s) = (x, p2, h2)" for p1 x p2 h2 using submit_guard_ok that by blast
  have "\<exists>res. checked_export (se_th se) hs (body (se_th se) flt FfiError_from_pool ?f) (ps_p s, ps_h s) = Some res
      \<and> export_moves flt ?f hs (ps_p s, ps_h s) res"
    by (rule checked_export_moves [OF ok _ pool_error_code(1)]) (rule keeps)
  then obtain res where res: "checked_export (se_th se) hs (body (se_th se) flt FfiError_from_pool ?f) (ps_p s, ps_h s) = Some res"
    "export_moves flt ?f hs (ps_p s, ps_h s) res" by blast
  obtain code slot out p' h' where "res = (code, slot, out, p', h')" by (rule prod_cases5)
  note r = res [unfolded this]
  have "call_ok e denv sa hs s (code, slot, s\<lparr>ps_issued := ps_issued s @ (case out of Some t \<Rightarrow> [t] | None \<Rightarrow> []),
      ps_taken := ps_taken s @ [], ps_p := p', ps_h := h'\<rparr>)"
  proof (rule moves_ok [where k = "\<lambda>_. []", OF r(2)])
    fix p1 x p2 h2
    assume a: "guard_only (ps_p s) p1" "?f (p1, ps_h s) = (x, p2, h2)"
    let ?s1 = "s\<lparr>ps_p := p1\<rparr>"
    have "pool_step e denv sa ?s1 (s\<lparr>ps_issued := ps_issued s @ (case (case x of Inr v \<Rightarrow> Some v | Inl _ \<Rightarrow> None) of Some t \<Rightarrow> [t] | None \<Rightarrow> []),
        ps_taken := ps_taken s @ [], ps_p := p2, ps_h := h2\<rparr>)"
    proof (cases x)
      case (Inl err)
      with a(2) pool_step.refused [of se "the hd1" input bid ?s1 err p2 h2 e denv sa] show ?thesis by simp
    next
      case (Inr t)
      with a(2) pool_step.submitted [of se "the hd1" input bid ?s1 t p2 h2 e denv sa] show ?thesis by (simp add: sys_order)
    qed
    then show "(pool_step e denv sa)\<^sup>*\<^sup>* ?s1 (s\<lparr>ps_issued := ps_issued s @ (case (case x of Inr v \<Rightarrow> Some v | Inl _ \<Rightarrow> None) of Some t \<Rightarrow> [t] | None \<Rightarrow> []),
        ps_taken := ps_taken s @ [], ps_p := p2, ps_h := h2\<rparr>)" ..
  qed simp_all
  with False input r(1) show ?thesis by (auto simp: gusset_submit_def after_submit_def)
qed

text \<open>The exports whose body is one quiet step.\<close>

lemma quiet_export_ok:
  assumes ok: "guard_ok (ps_p s)" and keeps: "\<And>p1 x p2 h2. guard_ok p1 \<Longrightarrow> f (p1, ps_h s) = (x, p2, h2) \<Longrightarrow> guard_ok p2"
    and step: "\<And>p1 x p2 h2. f (p1, ps_h s) = (x, p2, h2) \<Longrightarrow> pool_step e denv sa (s\<lparr>ps_p := p1\<rparr>) (s\<lparr>ps_p := p2, ps_h := h2\<rparr>)"
  shows "call_ok e denv sa hs s (after_call (handle_export th hs (body th flt conv f) (ps_p s, ps_h s)) s)"
proof -
  obtain code slot out p' h' where r: "handle_export th hs (body th flt conv f) (ps_p s, ps_h s) = (code, slot, out, p', h')" by (metis prod_cases5)
  have "export_moves flt f hs (ps_p s, ps_h s) (code, slot, out, p', h')" unfolding r [symmetric] by (rule handle_export_moves [OF ok keeps])
  from quiet_moves_ok [OF this] step show ?thesis unfolding r after_call_def by (simp add: r_into_rtranclp)
qed

lemma cancel_call_ok:
  assumes "guard_ok (ps_p s)"
  shows "returns_ok e denv sa hs s (do_call sa (CallCancel th flt hs nul t) s)"
proof (cases nul)
  case True
  with after_refused_ok(3) [OF assms] show ?thesis by (simp add: gusset_cancel_def)
next
  case False
  have c: "cancel t (p1, h) = (fst (cancel t (p1, h)), snd (cancel t (p1, h)))" for p1 h by simp
  have "call_ok e denv sa hs s (after_call (handle_export th hs
      (body th flt id (\<lambda>(p, h). (Inr (), snd (cancel t (p, h)), h))) (ps_p s, ps_h s)) s)"
  proof (rule quiet_export_ok [OF assms], goal_cases)
    case 1
    then show ?case using cancel_quiet [OF c] by (auto simp: quiet_def)
  next
    case (2 p1 x p2 h2)
    then have "p2 = snd (cancel t (p1, ps_h s))" "h2 = ps_h s" by auto
    then show ?case using pool_step.cancelled [of t "s\<lparr>ps_p := p1\<rparr>", OF c] by simp
  qed
  with False show ?thesis by (simp add: gusset_cancel_def)
qed

lemma cancel_all_call_ok:
  assumes "guard_ok (ps_p s)"
  shows "returns_ok e denv sa hs s (do_call sa (CallCancelAll th flt hs nul) s)"
proof (cases nul)
  case True
  with after_refused_ok(3) [OF assms] show ?thesis by (simp add: gusset_cancel_all_def)
next
  case False
  have c: "cancel_all (p1, h) = (fst (cancel_all (p1, h)), snd (cancel_all (p1, h)))" for p1 h by simp
  have "call_ok e denv sa hs s (after_call (handle_export th hs
      (body th flt id (\<lambda>(p, h). (Inr (), snd (cancel_all (p, h)), h))) (ps_p s, ps_h s)) s)"
  proof (rule quiet_export_ok [OF assms], goal_cases)
    case 1
    then show ?case using cancel_all_quiet [OF c] by (auto simp: quiet_def)
  next
    case (2 p1 x p2 h2)
    then have "p2 = snd (cancel_all (p1, ps_h s))" "h2 = ps_h s" by auto
    then show ?case using pool_step.cancelled_all [of "s\<lparr>ps_p := p1\<rparr>", OF c] by simp
  qed
  with False show ?thesis by (simp add: gusset_cancel_all_def)
qed

lemma ring_call_ok:
  assumes "guard_ok (ps_p s)"
  shows "returns_ok e denv sa hs s (do_call sa (CallHandleRing th flt hs nul) s)"
proof (cases nul)
  case True
  with after_refused_ok(3) [OF assms] show ?thesis by (simp add: gusset_handle_ring_def)
next
  case False
  have "call_ok e denv sa hs s (after_call (handle_export th hs
      (body th flt FfiError_from_string (\<lambda>(p, h). let (r, h1) = attach_ring h in (r, p, h1))) (ps_p s, ps_h s)) s)"
  proof (rule quiet_export_ok [OF assms], goal_cases)
    case 1
    then show ?case by (auto split: prod.splits)
  next
    case (2 p1 x p2 h2)
    then have "attach_ring (ps_h (s\<lparr>ps_p := p1\<rparr>)) = (x, h2)" "p2 = p1" by (auto split: prod.splits)
    with pool_step.attached [of "s\<lparr>ps_p := p1\<rparr>" x h2 e denv sa] show ?case by simp
  qed
  with False show ?thesis by (simp add: gusset_handle_ring_def)
qed

lemma free_call_ok:
  assumes "guard_ok (ps_p s)"
  shows "returns_ok e denv sa hs s (do_call sa (CallBufFree th flt hs nul i) s)"
proof (cases nul)
  case True
  with after_refused_ok(3) [OF assms] show ?thesis by (simp add: gusset_buf_free_def)
next
  case False
  have "call_ok e denv sa hs s (after_call (handle_export th hs
      (body th flt FfiError_from_string (\<lambda>st. (Inr (), buf_free i st))) (ps_p s, ps_h s)) s)"
  proof (rule quiet_export_ok [OF assms], goal_cases)
    case 1
    then show ?case by (auto dest!: buf_free_frame)
  next
    case (2 p1 x p2 h2)
    with pool_step.freed [of i "s\<lparr>ps_p := p1\<rparr>" p2 h2 e denv sa] show ?case by simp
  qed
  with False show ?thesis by (simp add: gusset_buf_free_def)
qed

lemma alloc_call_ok:
  assumes ok: "guard_ok (ps_p s)"
  shows "returns_ok e denv sa hs s (do_call sa (CallBufAlloc th flt hs nul n) s)"
proof (cases "nul \<or> is_poisoned (ps_h s)")
  case True
  with after_refused_ok(3,4) [OF ok] show ?thesis by (auto simp: gusset_buf_alloc_def)
next
  case False
  let ?f = "buf_alloc_published_classified sa n"
  have f: "p2 = p1 \<and> h2 = ps_h s \<or> (\<exists>r. allocate_buffer sa n True (p1, ps_h s) = (r, p2, h2))"
    if "?f (p1, ps_h s) = (x, p2, h2)" for p1 x p2 h2
    using that by (auto simp: buf_alloc_published_classified_def buf_alloc_published_def split: sum.splits prod.splits)
  have keeps: "guard_ok p2" if "guard_ok p1" "?f (p1, ps_h s) = (x, p2, h2)" for p1 x p2 h2
    using f [OF that(2)] that(1) allocate_buffer_frame by blast
  have "\<exists>res. checked_export th hs (body th flt FfiError_from_pool ?f) (ps_p s, ps_h s) = Some res
      \<and> export_moves flt ?f hs (ps_p s, ps_h s) res"
    by (rule checked_export_moves [OF ok _ pool_error_code(1)]) (rule keeps)
  then obtain res where res: "checked_export th hs (body th flt FfiError_from_pool ?f) (ps_p s, ps_h s) = Some res"
    "export_moves flt ?f hs (ps_p s, ps_h s) res" by blast
  obtain code slot out p' h' where "res = (code, slot, out, p', h')" by (rule prod_cases5)
  note r = res [unfolded this]
  have "call_ok e denv sa hs s (code, slot, s\<lparr>ps_p := p', ps_h := h'\<rparr>)"
  proof (rule quiet_moves_ok [OF r(2)])
    fix p1 x p2 h2
    assume "?f (p1, ps_h s) = (x, p2, h2)"
    from f [OF this] show "(pool_step e denv sa)\<^sup>*\<^sup>* (s\<lparr>ps_p := p1\<rparr>) (s\<lparr>ps_p := p2, ps_h := h2\<rparr>)"
    proof (elim disjE exE conjE)
      fix r
      assume "allocate_buffer sa n True (p1, ps_h s) = (r, p2, h2)"
      with pool_step.allocated [of sa n True "s\<lparr>ps_p := p1\<rparr>" r p2 h2 e denv] show ?thesis by auto
    qed simp
  qed
  with False r(1) show ?thesis by (simp add: gusset_buf_alloc_def after_call_def)
qed

text \<open>Taking is moving the result out and, for bytes, publishing a buffer with them.\<close>

lemma take_body_moves:
  assumes "take_body sa r (p, h) = (x, p', h')"
  shows "p' = p \<and> h' = h \<or> (\<exists>d y. buf_from_bytes sa d (p, h) = (y, p', h'))"
  using assms by (cases r) (auto split: if_splits sum.splits prod.splits)

lemma take_steps:
  assumes f: "take_and_convert sa t (p1, ps_h s) = (x, p2, h2)"
  defines "k \<equiv> \<lambda>h. if map_of (results (ps_h s)) t \<noteq> None \<and> map_of (results h) t = None then [t] else []"
  shows "(guard_ok p1 \<longrightarrow> guard_ok p2) \<and> (pool_step e denv sa)\<^sup>*\<^sup>* (s\<lparr>ps_p := p1\<rparr>) (s\<lparr>ps_taken := ps_taken s @ k h2, ps_p := p2, ps_h := h2\<rparr>)"
proof (cases "map_of (results (ps_h s)) t")
  case None
  with f have "p2 = p1" "h2 = ps_h s" by (auto simp: take_and_convert_def take_result_def)
  with None show ?thesis by (simp add: k_def)
next
  case (Some r)
  let ?h1 = "(ps_h s)\<lparr>results := AList.delete t (results (ps_h s))\<rparr>"
  have t: "take_result t (ps_h s) = (Inr r, ?h1)" using Some by (simp add: take_result_def)
  with f have b: "take_body sa r (p1, ?h1) = (x, p2, h2)" by (simp add: take_and_convert_def)
  let ?s1 = "s\<lparr>ps_taken := ps_taken s @ [t], ps_p := p1, ps_h := ?h1\<rparr>"
  have "pool_step e denv sa (s\<lparr>ps_p := p1\<rparr>) ?s1"
    using pool_step.took [of t "s\<lparr>ps_p := p1\<rparr>" r ?h1 e denv sa] t by (simp add: sys_order)
  moreover have "(guard_ok p1 \<longrightarrow> guard_ok p2) \<and> results h2 = results ?h1 \<and> (pool_step e denv sa)\<^sup>*\<^sup>* ?s1 (?s1\<lparr>ps_p := p2, ps_h := h2\<rparr>)"
    using take_body_moves [OF b]
  proof (elim disjE exE conjE)
    fix d y
    assume y: "buf_from_bytes sa d (p1, ?h1) = (y, p2, h2)"
    have "results h2 = results ?h1" using buf_from_bytes_frame [OF y] pool_frame_fields(2) by blast
    then show ?thesis using buf_from_bytes_guard_ok [OF y] pool_step.published [of sa d ?s1 y p2 h2 e denv] y by auto
  qed simp
  moreover have "k h2 = [t]" using calculation(2) Some by (simp add: k_def delete_conv')
  ultimately show ?thesis by (auto intro: converse_rtranclp_into_rtranclp)
qed

lemma take_call_ok:
  assumes ok: "guard_ok (ps_p s)"
  shows "returns_ok e denv sa hs s (do_call sa (CallTake th flt hs nul t) s)"
proof (cases nul)
  case True
  with after_refused_ok(5) [OF ok] show ?thesis by (simp add: gusset_take_def)
next
  case False
  let ?f = "take_and_convert sa t"
  let ?k = "\<lambda>h. if map_of (results (ps_h s)) t \<noteq> None \<and> map_of (results h) t = None then [t] else []"
  obtain code slot out p' h' where r: "handle_export th hs (body th flt id ?f) (ps_p s, ps_h s) = (code, slot, out, p', h')" by (rule prod_cases5)
  have "export_moves flt ?f hs (ps_p s, ps_h s) (code, slot, out, p', h')"
    unfolding r [symmetric] by (rule handle_export_moves [OF ok]) (use take_steps in blast)
  then have "call_ok e denv sa hs s (code, slot, s\<lparr>ps_issued := ps_issued s @ [], ps_taken := ps_taken s @ ?k h', ps_p := p', ps_h := h'\<rparr>)"
    by (rule moves_ok [where i = "\<lambda>_. []"]) (use take_steps in \<open>auto simp: poison_def\<close>)
  with False r show ?thesis by (simp add: gusset_take_def after_take_def)
qed

text \<open>A close is the hand-over of the workers and the join.\<close>

lemma close_steps:
  assumes "close ce (p, h) = (r, fds, late, p', h')"
  shows "(guard_ok p \<longrightarrow> guard_ok p') \<and> (pool_step e denv sa)\<^sup>*\<^sup>* (s\<lparr>ps_p := p, ps_h := h\<rparr>) (s\<lparr>ps_p := p', ps_h := h'\<rparr>)"
proof (cases "close_begin (p, h)")
  case None
  with assms show ?thesis by (simp add: close_def close_within_def)
next
  case (Some y)
  obtain ws q g where y: "y = (ws, q, g)" by (rule prod_cases3)
  have j: "join_workers ce ws (q, g) = (r, fds, late, p', h')" using assms Some y by (simp add: close_def close_within_def)
  have "guard_ok p \<longrightarrow> guard_ok p'" using close_begin_quiet [OF Some [unfolded y]] join_quiet [OF j] by (simp add: quiet_def)
  moreover have "pool_step e denv sa (s\<lparr>ps_p := p, ps_h := h\<rparr>) (s\<lparr>ps_p := q, ps_h := g\<rparr>)"
    using pool_step.closing [of "s\<lparr>ps_p := p, ps_h := h\<rparr>" ws q g e denv sa] Some y by simp
  moreover have "pool_step e denv sa (s\<lparr>ps_p := q, ps_h := g\<rparr>) (s\<lparr>ps_p := p', ps_h := h'\<rparr>)"
    using pool_step.joined [of ce ws "s\<lparr>ps_p := q, ps_h := g\<rparr>" r fds late p' h' e denv sa] j by simp
  ultimately show ?thesis by (auto intro: converse_rtranclp_into_rtranclp)
qed

lemma close_call_ok:
  assumes ok: "guard_ok (ps_p s)"
  shows "returns_ok e denv sa hs s (do_call sa (CallHandleClose ce lr hs nul) s)"
proof (cases nul)
  case True
  with refused_ok(1) [OF ok] show ?thesis by (auto simp: gusset_handle_close_def split: prod.split)
next
  case False
  let ?th = "ce_th ce" and ?p1 = "snd (take_panic_location (ce_th ce) (ps_p s))"
  let ?f = "\<lambda>(p, fds :: int list, h). let (joined, fds1, _, p1, h1) = close ce (p, h);
      (fds2, p2, h2) = (if lr then drop_handle ce (p1, h1) else ([], p1, h1)) in (joined, p2, fds @ fds1 @ fds2, h2)"
  obtain r fds late p2 h2 where c: "close ce (?p1, ps_h s) = (r, fds, late, p2, h2)" by (rule prod_cases5)
  obtain fds3 p3 h3 where d: "(if lr then drop_handle ce (p2, h2) else ([], p2, h2)) = (fds3, p3, h3)" by (rule prod_cases3)
  obtain r' fds' late' where "(p3, h3) = (p2, h2) \<or> close (ce\<lparr>ce_keeper := False\<rparr>) (p2, h2) = (r', fds', late', p3, h3)"
    using d by (cases "close (ce\<lparr>ce_keeper := False\<rparr>) (p2, h2)") (auto simp: drop_handle_def split: if_splits)
  with close_steps [OF c, of s] close_steps [of "ce\<lparr>ce_keeper := False\<rparr>" p2 h2 r' fds' late' p3 h3 s] guard_ok_start [OF ok]
  have ok3: "guard_ok p3" and st: "(pool_step e denv sa)\<^sup>*\<^sup>* (s\<lparr>ps_p := ?p1\<rparr>) (s\<lparr>ps_p := p3, ps_h := h3\<rparr>)"
    by (auto intro: rtranclp_trans)
  have "?f (?p1, [], ps_h s) = (r, p3, fds @ fds3, h3)" by (simp add: c d)
  note b = body_runs [where f = ?f and th = ?th and conv = FfiError_from_string, OF this]
  obtain res slot p' fds4 h' where g: "guard_call ?th hs (body ?th None FfiError_from_string ?f) (ps_p s, [], ps_h s) = (res, slot, p', fds4, h')"
    by (rule prod_cases5)
  from guard_call_spec [where f = "body ?th None FfiError_from_string ?f", OF g b ok3]
  have sp: "h' = h3" "guard_ok p'" "guard_only p3 p'" "status_sound hs (code_of res) slot p'" using more_guard_only by auto
  have "(pool_step e denv sa)\<^sup>*\<^sup>* s (s\<lparr>ps_p := p3, ps_h := h3\<rparr>)" using rtranclp_trans [OF only_process [OF guard_only_take] st] .
  from maybe_poison [OF this, of p' False] sp have "call_ok e denv sa hs s (code_of res, slot, s\<lparr>ps_p := p', ps_h := h'\<rparr>)"
    by (simp add: call_ok_def)
  with False g show ?thesis by (simp add: gusset_handle_close_def code_of_def)
qed

lemma call_returns: "guard_ok (ps_p s) \<Longrightarrow> returns_ok e denv sa (call_status c) s (do_call sa c s)"
  using submit_call_ok take_call_ok cancel_call_ok cancel_all_call_ok ring_call_ok alloc_call_ok free_call_ok close_call_ok
  by (cases c) simp_all

lemma pool_step_guard_ok:
  assumes "pool_step e denv sa s s'" and "pool_inv [] s" and ok: "guard_ok (ps_p s)"
  shows "guard_ok (ps_p s')"
  using assms(1,2)
proof (cases rule: pool_step_quiet)
  case quiet
  with ok show ?thesis by (simp add: quiet_def)
next
  case submitted
  with submit_guard_ok [OF submitted(1) ok] show ?thesis by simp
next
  case refused
  with submit_guard_ok [OF refused(1) ok] show ?thesis by simp
next
  case delivered
  with turn_framed [OF assms(2) delivered(1-3)] ok show ?thesis by (simp add: turn_frame_def)
qed (use ok in simp_all)

lemma pool_steps_reachable: "(pool_step e denv sa)\<^sup>*\<^sup>* s s' \<Longrightarrow> pool_reachable e denv sa s \<Longrightarrow> pool_reachable e denv sa s'"
  by (induction rule: rtranclp_induct) (auto intro: pool_reachable.step)

lemma host_reachable_pool:
  assumes "host_reachable e denv sa s"
  shows "pool_reachable e denv sa s \<and> guard_ok (ps_p s)"
  using assms
proof induction
  case (opened s)
  have "guard_ok process_init" by (simp add: guard_ok_def locs_ok_def process_init_def box_heap_ok_def box_heap_empty_def)
  with opened have "guard_ok (ps_p s)"
    by cases (auto simp: pool_start_def quiet_def elim: open_quiet)
  with opened show ?case by (simp add: pool_reachable.start)
next
  case (called s c code slot s')
  with call_returns [of s c] show ?case by (auto simp: call_ok_def intro: pool_steps_reachable)
next
  case (worked s s')
  with pool_step_guard_ok [OF worked(2) pool_reachable_inv] show ?case by (auto intro: pool_reachable.step)
qed

end

subsection \<open>Property\<close>

text \<open>C4: Nothing a host can call breaks the runtime. Whatever sequence of exported calls was made on a handle,
  with null or wrong arguments, on a closed or poisoned handle, and with panics inside any of them, interleaved in
  any way with the runtime's own steps: the state is one the pool itself can reach, so tickets, results and memory
  are as the pool's theorems say; and the next call, whichever it is, returns, with a status that shows its
  code and owns its message, having moved the pool only by steps of the pool's own.\<close>

theorem host_calls_safe:
  assumes "pool_contract e denv sa" and "host_reachable e denv sa s"
  shows "pool_reachable e denv sa s
    \<and> (\<exists>code slot s'. do_call sa c s = Some (code, slot, s') \<and> status_sound (call_status c) code slot (ps_p s')
         \<and> (pool_step e denv sa)\<^sup>*\<^sup>* s s')"
proof -
  have client: "pool_client e denv sa" using assms(1) by (simp add: pool_client_iff)
  note r = pool_client.host_reachable_pool [OF client assms(2)]
  with pool_client.call_returns [OF client, of s c] obtain x where "do_call sa c s = Some x" "call_ok e denv sa (call_status c) s x"
    by (auto simp: returns_ok_def split: option.splits)
  with r show ?thesis by (cases x) (auto simp: call_ok_def)
qed

theorem host_calls_safe_witness:
  "\<exists>code slot s'. do_call bump_alloc (CallTake demo_thread (Some (PStr [98], [97], 9)) True False 7) (pool_start 4 True) = Some (code, slot, s')
    \<and> status_sound True code slot (ps_p s')"
proof -
  have "host_reachable echo_engines quiet_env bump_alloc (pool_start 4 True)"
    by (intro host_reachable.opened pool_initial.unspawned) (simp add: MAX_POOL_SIZE_def)
  from host_calls_safe [OF echo_contract this, of "CallTake demo_thread (Some (PStr [98], [97], 9)) True False 7"]
  show ?thesis unfolding call_status.simps by blast
qed

end
