(* ===== verification/Handles.thy ===== *)
theory Handles
  imports Adopter
begin

text \<open>
  Several handles in one process. They share the id counters, buffer memory with its counts, the log and the
  firewall's tables; each has its own queue, results and workers. Every step is a step of one of them, opens
  another, or drops one, whose buffers go back to the allocator.
\<close>

subsection \<open>The process and its pools\<close>

text \<open>The fields of a handle are dropped in the order of the struct: the registry's references, then the queue with the
  units still in it.\<close>

definition drop_handle_fields :: "process \<times> Handle \<Rightarrow> process" where
  "drop_handle_fields st =
     (let (p, h) = st
      in fold (\<lambda>u. drop_payload (u_payload u)) (items (h_queue h)) (fold (\<lambda>x. arc_drop (slot_buf (snd x))) (buffers h) p))"

text \<open>The process component of a pool in \<open>ms_pools\<close> is the one it saw at its last step; \<open>at\<close> gives it the
  current one. \<open>ms_gone\<close> records the tickets of the handles dropped so far.\<close>

record multi_sys =
  ms_p :: process
  ms_pools :: "pool_sys list"
  ms_gone :: "u64 list"

definition at :: "process \<Rightarrow> pool_sys \<Rightarrow> pool_sys" where
  "at p s = s\<lparr>ps_p := p\<rparr>"

definition new_pool :: "process \<Rightarrow> Handle \<Rightarrow> pool_sys" where
  "new_pool p h = \<lparr>ps_p = p, ps_h = h, ps_running = [], ps_issued = [], ps_done = [], ps_taken = []\<rparr>"

inductive multi_step :: "engines \<Rightarrow> diag_env \<Rightarrow> sys_alloc \<Rightarrow> multi_sys \<Rightarrow> multi_sys \<Rightarrow> bool" for e denv sa where
  moves: "i < length (ms_pools m) \<Longrightarrow> pool_step e denv sa (at (ms_p m) (ms_pools m ! i)) s' \<Longrightarrow>
     multi_step e denv sa m (m\<lparr>ms_p := ps_p s', ms_pools := (ms_pools m)[i := s']\<rparr>)"
| opens: "open_classified oe n0 fd fds (ms_p m) = (Inr h, fds', p') \<Longrightarrow>
     multi_step e denv sa m (m\<lparr>ms_p := p', ms_pools := ms_pools m @ [new_pool p' h]\<rparr>)"
| drops: "i < length (ms_pools m) \<Longrightarrow> ps_running (ms_pools m ! i) = [] \<Longrightarrow>
     drop_handle ce (ms_p m, ps_h (ms_pools m ! i)) = (fds, p1, h1) \<Longrightarrow>
     multi_step e denv sa m (m\<lparr>ms_p := drop_handle_fields (p1, h1), ms_pools := take i (ms_pools m) @ drop (Suc i) (ms_pools m),
       ms_gone := ms_gone m @ ps_issued (ms_pools m ! i)\<rparr>)"
| open_refused: "open_classified oe n0 fd fds (ms_p m) = (Inl err, fds', p') \<Longrightarrow> multi_step e denv sa m (m\<lparr>ms_p := p'\<rparr>)"

inductive multi_reachable :: "engines \<Rightarrow> diag_env \<Rightarrow> sys_alloc \<Rightarrow> multi_sys \<Rightarrow> bool" for e denv sa where
  empty: "multi_reachable e denv sa \<lparr>ms_p = process_init, ms_pools = [], ms_gone = []\<rparr>"
| step: "multi_reachable e denv sa m \<Longrightarrow> multi_step e denv sa m m' \<Longrightarrow> multi_reachable e denv sa m'"

subsection \<open>Shared memory\<close>

text \<open>What a pool holds, and what all the others hold.\<close>

definition pool_bufs :: "pool_sys \<Rightarrow> RawBuffer list" where
  "pool_bufs s = held (ps_h s) (map u_payload (in_flight_units s))"

definition foreign :: "nat \<Rightarrow> pool_sys list \<Rightarrow> TaskPayload list" where
  "foreign i ss = map Shared (concat (map pool_bufs (take i ss @ drop (Suc i) ss)))"

lemma held_foreign: "held h (us @ map Shared bs) = held h us @ bs"
proof -
  have "concat (map payload_bufs (map Shared bs)) = bs" by (induction bs) simp_all
  then show ?thesis by (simp add: held_def)
qed

lemma pool_bufs_at [simp]: "pool_bufs (at p s) = pool_bufs s"
  by (simp add: pool_bufs_def at_def in_flight_units_def)

lemma all_bufs:
  assumes "i < length ss"
  shows "mset (held (ps_h s) (map u_payload (in_flight_units s) @ foreign i ss)) = mset (concat (map pool_bufs (ss[i := s])))"
proof -
  have "mset (concat (map pool_bufs (ss[i := s]))) = mset (pool_bufs s) + mset (concat (map pool_bufs (take i ss @ drop (Suc i) ss)))"
    using assms by (simp add: upd_conv_take_nth_drop)
  then show ?thesis by (simp only: foreign_def held_foreign pool_bufs_def [symmetric] mset_append)
qed

text \<open>A pool's own part of the invariant, in a process \<open>p\<close>.\<close>

definition own_inv :: "process \<Rightarrow> pool_sys \<Rightarrow> bool" where
  "own_inv p s \<longleftrightarrow> tickets_inv (at p s) \<and> results_inv s \<and> ring_fine (ps_h s) \<and> h_pool_size (ps_h s) \<le> MAX_POOL_SIZE
     \<and> registry_inv p (ps_h s) \<and> slots_disjoint (ps_h s)"

definition multi_inv :: "multi_sys \<Rightarrow> bool" where
  "multi_inv m \<longleftrightarrow> (\<forall>s \<in> set (ms_pools m). own_inv (ms_p m) s)
     \<and> (\<exists>other. owner_inv other (ms_p m) (concat (map pool_bufs (ms_pools m))))
     \<and> distinct (ms_gone m @ concat (map ps_issued (ms_pools m))) \<and> (\<forall>t \<in> set (ms_gone m). unat t < unat (next_ticket (ms_p m)))
     \<and> 0 < unat (next_ticket (ms_p m)) \<and> 0 < unat (next_buffer_id (ms_p m))"

lemma multi_pool_inv:
  assumes "multi_inv m" and i: "i < length (ms_pools m)"
  shows "pool_inv (foreign i (ms_pools m)) (at (ms_p m) (ms_pools m ! i))"
proof -
  let ?s = "at (ms_p m) (ms_pools m ! i)"
  have own: "own_inv (ms_p m) (ms_pools m ! i)" using assms by (simp add: multi_inv_def)
  obtain other where o: "owner_inv other (ms_p m) (concat (map pool_bufs (ms_pools m)))" using assms(1) by (auto simp: multi_inv_def)
  have "mset (held (ps_h ?s) (map u_payload (in_flight_units ?s) @ foreign i (ms_pools m))) = mset (concat (map pool_bufs (ms_pools m)))"
    using all_bufs [OF i, of "ms_pools m ! i"] by (simp add: at_def in_flight_units_def)
  from owner_inv_frame [OF o refl refl this] own show ?thesis
    by (auto simp: pool_inv_def memory_inv_def own_inv_def buf_inv_def at_def results_inv_def)
qed

lemma own_inv_step: "pool_inv F s \<Longrightarrow> own_inv (ps_p s) s"
  by (auto simp: own_inv_def pool_inv_def memory_inv_def buf_inv_def at_def)

text \<open>The other pools only see the counters grow.\<close>

lemma own_inv_mono:
  assumes "own_inv p s" and "unat (next_ticket p) \<le> unat (next_ticket p')" and "next_buffer_id p \<le> next_buffer_id p'"
  shows "own_inv p' s"
proof -
  have b: "unat (next_buffer_id p) \<le> unat (next_buffer_id p')" using assms(3) by (simp add: word_le_nat_alt)
  have "tickets_inv (at p s)" "registry_inv p (ps_h s)" using assms(1) by (simp_all add: own_inv_def)
  then have "tickets_inv (at p' s)" "registry_inv p' (ps_h s)"
    using assms(2) b unfolding tickets_inv_def registry_inv_def by (simp_all add: at_def in_flight_units_def) (meson less_le_trans)+
  then show ?thesis using assms(1) by (simp add: own_inv_def)
qed

lemma distinct_issue:
  assumes "distinct (g @ concat (map f ss))" and i: "i < length ss" and "t \<notin> set g \<union> set (concat (map f ss))" and "f s = f (ss ! i) @ [t]"
  shows "distinct (g @ concat (map f (ss[i := s])))"
proof -
  have a: "mset (concat (map f (ss[i := s]))) = mset (f s) + mset (concat (map f (take i ss @ drop (Suc i) ss)))" for s
    using i by (simp add: upd_conv_take_nth_drop)
  have "mset (g @ concat (map f (ss[i := s]))) = mset (t # g @ concat (map f ss))"
    using a [of s] a [of "ss ! i"] assms(4) by simp
  moreover have "distinct (t # g @ concat (map f ss))" using assms(1,3) by simp
  ultimately show ?thesis by (metis mset_eq_imp_distinct_iff)
qed

text \<open>Dropping every reference of a list leaves the owners that remain.\<close>

lemma owner_inv_drops: "owner_inv other p (bs @ rest) \<Longrightarrow> owner_inv other (fold arc_drop bs p) rest"
proof (induction bs arbitrary: p)
  case (Cons b bs)
  then have "owner_inv other (arc_drop b p) (bs @ rest)" by (intro owner_inv_drop [OF Cons.prems]) simp
  with Cons.IH show ?case by simp
qed simp

lemma drop_payload_refs: "drop_payload u p = fold arc_drop (payload_bufs u) p"
  by (cases u) simp_all

lemma drop_fields_refs: "drop_handle_fields (p, h) = fold arc_drop (held h (map u_payload (items (h_queue h)))) p"
proof -
  have "fold (\<lambda>u. drop_payload (u_payload u)) us p = fold arc_drop (concat (map payload_bufs (map u_payload us))) p" for us :: "WorkUnit list" and p :: process
    by (induction us arbitrary: p) (simp_all add: drop_payload_refs)
  moreover have "fold (\<lambda>x. arc_drop (slot_buf (snd x))) bs p = fold arc_drop (map (slot_buf \<circ> snd) bs) p" for bs :: "(u64 \<times> BufferSlot) list" and p :: process
    by (simp add: fold_map comp_def)
  ultimately show ?thesis by (simp add: drop_handle_fields_def held_def)
qed

lemma arc_drop_blocks: "blocks (pmem (arc_drop b p)) q \<noteq> None \<Longrightarrow> blocks (pmem (arc_drop b p)) q = blocks (pmem p) q"
  by (simp add: arc_drop_def rb_drop_def split: if_splits)

lemma arc_drops_frame:
  "next_ticket (fold arc_drop bs p) = next_ticket p" "next_buffer_id (fold arc_drop bs p) = next_buffer_id p"
  by (induction bs arbitrary: p) (simp_all add: arc_drop_def)

lemma arc_drops_blocks: "blocks (pmem (fold arc_drop bs p)) q \<noteq> None \<Longrightarrow> blocks (pmem (fold arc_drop bs p)) q = blocks (pmem p) q"
proof (induction bs arbitrary: p)
  case (Cons b bs)
  from Cons.IH [of "arc_drop b p"] Cons.prems have "blocks (pmem (fold arc_drop (b # bs) p)) q = blocks (pmem (arc_drop b p)) q" by simp
  with Cons.prems arc_drop_blocks [of b p q] show ?case by simp
qed simp

lemma drop_handle_quiet: "drop_handle ce (p, h) = (fds, p1, h1) \<Longrightarrow> quiet p h p1 h1"
proof (cases "close_begin (p, h)")
  case None
  moreover assume "drop_handle ce (p, h) = (fds, p1, h1)"
  ultimately show ?thesis by (simp add: drop_handle_def close_def close_within_def quiet_def)
next
  case (Some y)
  assume run: "drop_handle ce (p, h) = (fds, p1, h1)"
  obtain ws q g where y: "y = (ws, q, g)" by (rule prod_cases3)
  obtain r f late p2 h2 where j: "join_workers (ce\<lparr>ce_keeper := False\<rparr>) ws (q, g) = (r, f, late, p2, h2)" by (rule prod_cases5)
  with run Some y have "p2 = p1" "h2 = h1" by (simp_all add: drop_handle_def close_def close_within_def)
  with close_begin_quiet [OF Some [unfolded y]] join_quiet [OF j] show ?thesis by (metis quiet_trans)
qed

lemma drop_handle_memory:
  assumes run: "drop_handle ce (p, ps_h s) = (fds, p1, h1)" and idle: "ps_running s = []"
  shows "owner_inv other p (pool_bufs s @ rest) \<Longrightarrow> owner_inv other (drop_handle_fields (p1, h1)) rest"
    and "next_ticket (drop_handle_fields (p1, h1)) = next_ticket p" "next_buffer_id (drop_handle_fields (p1, h1)) = next_buffer_id p"
    and "blocks (pmem (drop_handle_fields (p1, h1))) a \<noteq> None \<Longrightarrow> blocks (pmem (drop_handle_fields (p1, h1))) a = blocks (pmem p) a"
proof -
  note q = drop_handle_quiet [OF run]
  have bufs: "held h1 (map u_payload (items (h_queue h1))) = pool_bufs s"
    using q idle by (simp add: pool_bufs_def in_flight_units_def held_def quiet_def)
  show "owner_inv other (drop_handle_fields (p1, h1)) rest" if "owner_inv other p (pool_bufs s @ rest)"
  proof -
    have "owner_inv other p1 (pool_bufs s @ rest)" by (rule owner_inv_frame [OF that]) (use q in \<open>simp_all add: quiet_def\<close>)
    then show ?thesis unfolding drop_fields_refs bufs by (rule owner_inv_drops)
  qed
  have f: "drop_handle_fields (p1, h1) = fold arc_drop (pool_bufs s) p1" by (simp only: drop_fields_refs bufs)
  show "next_ticket (drop_handle_fields (p1, h1)) = next_ticket p" "next_buffer_id (drop_handle_fields (p1, h1)) = next_buffer_id p"
    using q by (simp_all add: f arc_drops_frame quiet_def)
  show "blocks (pmem (drop_handle_fields (p1, h1))) a = blocks (pmem p) a" if "blocks (pmem (drop_handle_fields (p1, h1))) a \<noteq> None"
    using arc_drops_blocks [OF that [unfolded f]] q by (simp only: f quiet_def)
qed

context pool_client
begin

lemma moves_inv:
  assumes inv: "multi_inv m" and i: "i < length (ms_pools m)" and step: "pool_step e denv sa (at (ms_p m) (ms_pools m ! i)) s'"
  shows "multi_inv (m\<lparr>ms_p := ps_p s', ms_pools := (ms_pools m)[i := s']\<rparr>)"
proof -
  let ?ss = "ms_pools m" and ?s = "at (ms_p m) (ms_pools m ! i)"
  note pi = multi_pool_inv [OF inv i]
  note pi' = pool_step_inv [OF step pi] and cs = pool_step_counters [OF step pi]
  have own: "own_inv (ps_p s') s" if "s \<in> set (?ss[i := s'])" for s
  proof -
    from that have "s = s' \<or> s \<in> set ?ss" using set_update_subset_insert by fastforce
    moreover have "own_inv (ps_p s') s" if "s \<in> set ?ss"
      using inv that cs own_inv_mono [of "ms_p m" s "ps_p s'"] by (auto simp: multi_inv_def at_def)
    ultimately show ?thesis using own_inv_step [OF pi'] by blast
  qed
  have "\<exists>other. owner_inv other (ps_p s') (concat (map pool_bufs (?ss[i := s'])))"
    using pi' owner_inv_frame [OF _ refl refl all_bufs [OF i, of s', symmetric]]
    by (auto simp: pool_inv_def memory_inv_def buf_inv_def)
  moreover have "distinct (ms_gone m @ concat (map ps_issued (?ss[i := s'])))"
  proof (cases "ps_issued s' = ps_issued (?ss ! i)")
    case True
    then have "map ps_issued (?ss[i := s']) = map ps_issued ?ss" using i by (simp add: map_update list_update_same_conv)
    with inv show ?thesis by (simp add: multi_inv_def)
  next
    case False
    with cs have t: "ps_issued s' = ps_issued (?ss ! i) @ [next_ticket (ms_p m)]" by (simp add: at_def)
    have "next_ticket (ms_p m) \<notin> set (ms_gone m) \<union> set (concat (map ps_issued ?ss))"
      using inv by (auto simp: multi_inv_def own_inv_def tickets_inv_def at_def)
    with inv i t show ?thesis by (intro distinct_issue) (auto simp: multi_inv_def)
  qed
  ultimately show ?thesis using own inv cs by (auto simp: multi_inv_def at_def word_le_nat_alt)
qed

lemma opens_inv:
  assumes inv: "multi_inv m" and run: "open_classified oe n0 fd fds (ms_p m) = (Inr h, fds', p')"
  shows "multi_inv (m\<lparr>ms_p := p', ms_pools := ms_pools m @ [new_pool p' h]\<rparr>)"
proof -
  from run obtain n inline where n: "n \<le> MAX_POOL_SIZE" and q: "quiet (ms_p m) (Handle_new n inline) p' h" by (rule open_quiet)
  then have p': "pmem p' = pmem (ms_p m)" "arcs p' = arcs (ms_p m)" "next_buffer_id p' = next_buffer_id (ms_p m)"
    "next_ticket p' = next_ticket (ms_p m)" by (simp_all add: quiet_def)
  have h: "cancel_flags h = []" "results h = []" "buffers h = []" "items (h_queue h) = []" "h_pool_size h = n" "ring_fine h"
    using q by (simp_all add: quiet_def Handle_new_def JobQueue_new_def ring_fine_def)
  have "own_inv p' (new_pool p' h)"
    using n inv by (simp add: own_inv_def tickets_inv_def results_inv_def registry_inv_def slots_disjoint_def at_def new_pool_def
        in_flight_units_def h p' idmap_ok_def held_def multi_inv_def)
  moreover have "own_inv p' s" if "s \<in> set (ms_pools m)" for s
    using inv that own_inv_mono [of "ms_p m" s p'] by (simp add: multi_inv_def p')
  moreover have nil: "pool_bufs (new_pool p' h) = []" "ps_issued (new_pool p' h) = []"
    by (simp_all add: pool_bufs_def new_pool_def held_def in_flight_units_def h)
  moreover have "\<exists>other. owner_inv other p' (concat (map pool_bufs (ms_pools m)))"
    using inv owner_inv_frame [where p' = p' and p = "ms_p m", OF _ _ _ refl] by (auto simp: multi_inv_def p')
  ultimately show ?thesis using inv by (auto simp: multi_inv_def p')
qed

lemma open_refused_inv:
  assumes inv: "multi_inv m" and run: "open_classified oe n0 fd fds (ms_p m) = (Inl err, fds', p')"
  shows "multi_inv (m\<lparr>ms_p := p'\<rparr>)"
proof -
  have "guard_only (install_panic_hook (ms_p m)) p'" by (rule open_refused_frame [OF run])
  then have p': "pmem p' = pmem (ms_p m)" "arcs p' = arcs (ms_p m)" "next_buffer_id p' = next_buffer_id (ms_p m)"
    "next_ticket p' = next_ticket (ms_p m)" by (simp_all add: guard_only_def install_panic_hook_def)
  have "own_inv p' s" if "s \<in> set (ms_pools m)" for s
    using inv that own_inv_mono [of "ms_p m" s p'] by (simp add: multi_inv_def p')
  moreover have "\<exists>other. owner_inv other p' (concat (map pool_bufs (ms_pools m)))"
    using inv owner_inv_frame [where p' = p' and p = "ms_p m", OF _ _ _ refl] by (auto simp: multi_inv_def p')
  ultimately show ?thesis using inv by (simp add: multi_inv_def p')
qed

lemma drops_inv:
  assumes inv: "multi_inv m" and i: "i < length (ms_pools m)" and idle: "ps_running (ms_pools m ! i) = []"
    and run: "drop_handle ce (ms_p m, ps_h (ms_pools m ! i)) = (fds, p1, h1)"
  shows "multi_inv (m\<lparr>ms_p := drop_handle_fields (p1, h1), ms_pools := take i (ms_pools m) @ drop (Suc i) (ms_pools m),
     ms_gone := ms_gone m @ ps_issued (ms_pools m ! i)\<rparr>)"
proof -
  let ?ss = "ms_pools m" and ?s = "ms_pools m ! i" and ?rest = "take i (ms_pools m) @ drop (Suc i) (ms_pools m)" and ?p = "drop_handle_fields (p1, h1)"
  note d = drop_handle_memory [OF run idle]
  have split: "mset (concat (map f ?ss)) = mset (f ?s) + mset (concat (map f ?rest))" for f :: "pool_sys \<Rightarrow> 'x list"
    using arg_cong [OF id_take_nth_drop [OF i], of "\<lambda>ss. mset (concat (map f ss))"] by simp
  obtain other where o: "owner_inv other (ms_p m) (concat (map pool_bufs ?ss))" using inv by (auto simp: multi_inv_def)
  have "owner_inv other (ms_p m) (pool_bufs ?s @ concat (map pool_bufs ?rest))"
    by (rule owner_inv_frame [OF o refl refl]) (simp add: split [of pool_bufs])
  from d(1) [OF this] have "owner_inv other ?p (concat (map pool_bufs ?rest))" .
  moreover have "own_inv ?p s" if "s \<in> set ?rest" for s
  proof -
    have "s \<in> set ?ss" using that by (auto dest: in_set_takeD in_set_dropD)
    then have "own_inv (ms_p m) s" using inv by (simp add: multi_inv_def)
    then show ?thesis by (rule own_inv_mono) (simp_all add: d(2,3))
  qed
  moreover have "distinct ((ms_gone m @ ps_issued ?s) @ concat (map ps_issued ?rest))"
  proof -
    have "mset ((ms_gone m @ ps_issued ?s) @ concat (map ps_issued ?rest)) = mset (ms_gone m @ concat (map ps_issued ?ss))"
      using split [of ps_issued] by simp
    with inv show ?thesis unfolding multi_inv_def by (metis mset_eq_imp_distinct_iff)
  qed
  moreover have "\<forall>t \<in> set (ps_issued ?s). unat t < unat (next_ticket (ms_p m))"
    using inv i by (auto simp: multi_inv_def own_inv_def tickets_inv_def at_def)
  ultimately show ?thesis using inv d(2,3) by (auto simp: multi_inv_def)
qed

lemma multi_reachable_inv: "multi_reachable e denv sa m \<Longrightarrow> multi_inv m"
proof (induction rule: multi_reachable.induct)
  case empty
  have "owner_inv {} process_init []" using buf_inv_init(1) [of 1 True] by (simp add: buf_inv_def held_def Handle_new_def)
  then show ?case by (auto simp: multi_inv_def) (simp_all add: process_init_def)
next
  case (step m m')
  from step(2) show ?case
  proof cases
    case (moves i s')
    with moves_inv [OF step.IH] show ?thesis by simp
  next
    case opens
    with opens_inv [OF step.IH] show ?thesis by simp
  next
    case drops
    with drops_inv [OF step.IH] show ?thesis by simp
  next
    case open_refused
    with open_refused_inv [OF step.IH] show ?thesis by simp
  qed
qed

end

text \<open>What the invariant says of one pool among the others.\<close>

lemma own_tickets:
  assumes "own_inv p s"
  shows "mset (ps_issued s) = mset (map u_ticket (items (h_queue (ps_h s)))) + mset (map u_ticket (ps_running s)) + mset (ps_done s)"
    and "in_flight (ps_h s) = length (items (h_queue (ps_h s))) + length (ps_running s)"
    and "dom (map_of (results (ps_h s))) \<subseteq> set (ps_issued s)"
proof -
  have ti: "tickets_inv (at p s)" and ri: "results_inv s" using assms by (simp_all add: own_inv_def)
  show m: "mset (ps_issued s) = mset (map u_ticket (items (h_queue (ps_h s)))) + mset (map u_ticket (ps_running s)) + mset (ps_done s)"
    using ti by (simp add: tickets_inv_def at_def in_flight_units_def)
  show "in_flight (ps_h s) = length (items (h_queue (ps_h s))) + length (ps_running s)"
    using in_flight_count [OF ti] by (simp add: at_def in_flight_units_def)
  have "set (ps_done s) \<subseteq> set (ps_issued s)" using arg_cong [OF m, of set_mset] by auto
  with ri show "dom (map_of (results (ps_h s))) \<subseteq> set (ps_issued s)" unfolding results_inv_def by blast
qed

lemma distinct_concat_nth:
  "distinct (concat xs) \<Longrightarrow> i < length xs \<Longrightarrow> j < length xs \<Longrightarrow> i \<noteq> j \<Longrightarrow> set (xs ! i) \<inter> set (xs ! j) = {}"
proof (induction xs arbitrary: i j)
  case (Cons x xs)
  have x: "set x \<inter> set (xs ! k) = {}" if "k < length xs" for k using Cons.prems(1) nth_mem [OF that] by auto
  have ih: "a < length xs \<Longrightarrow> b < length xs \<Longrightarrow> a \<noteq> b \<Longrightarrow> set (xs ! a) \<inter> set (xs ! b) = {}" for a b
    using Cons.IH Cons.prems(1) by simp
  show ?case using Cons.prems(2-4) x ih by (cases i; cases j) (simp_all add: Int_commute)
qed simp

lemma ticket_elsewhere:
  assumes "multi_inv m" and i: "i < length (ms_pools m)" and j: "j < length (ms_pools m)" and "i \<noteq> j"
    and t: "t \<in> set (ps_issued (ms_pools m ! i))"
  shows "map_of (results (ps_h (ms_pools m ! j))) t = None"
proof -
  have "set (ps_issued (ms_pools m ! i)) \<inter> set (ps_issued (ms_pools m ! j)) = {}"
    using distinct_concat_nth [of "map ps_issued (ms_pools m)" i j] assms by (simp add: multi_inv_def)
  moreover have "own_inv (ms_p m) (ms_pools m ! j)" using assms(1) j by (simp add: multi_inv_def)
  ultimately show ?thesis using own_tickets(3) t by fastforce
qed

lemma ticket_gone:
  assumes "multi_inv m" and "t \<in> set (ms_gone m)" and "s \<in> set (ms_pools m)"
  shows "map_of (results (ps_h s)) t = None"
proof -
  have "t \<notin> set (ps_issued s)" using assms by (auto simp: multi_inv_def)
  moreover have "own_inv (ms_p m) s" using assms(1,3) by (simp add: multi_inv_def)
  ultimately show ?thesis using own_tickets(3) by fastforce
qed

lemma pool_live:
  assumes "multi_inv m" and "s \<in> set (ms_pools m)"
  shows "map_of (buffers (ps_h s)) k = Some b \<Longrightarrow> live_buf (ms_p m) (slot_buf b)"
    and "u \<in> set (items (h_queue (ps_h s))) \<union> set (ps_running s) \<Longrightarrow> u_payload u = Shared c \<Longrightarrow> live_buf (ms_p m) c"
proof -
  obtain i where i: "i < length (ms_pools m)" "s = ms_pools m ! i" using assms(2) by (auto simp: in_set_conv_nth)
  have "memory_inv (foreign i (ms_pools m)) (at (ms_p m) s)" using multi_pool_inv [OF assms(1) i(1)] i(2) by (simp add: pool_inv_def)
  note live = memory_inv_live [OF this]
  show "map_of (buffers (ps_h s)) k = Some b \<Longrightarrow> live_buf (ms_p m) (slot_buf b)" using live(1) by (simp add: at_def)
  show "u \<in> set (items (h_queue (ps_h s))) \<union> set (ps_running s) \<Longrightarrow> u_payload u = Shared c \<Longrightarrow> live_buf (ms_p m) c"
    using live(2) by (simp add: at_def)
qed

subsection \<open>Two handles\<close>

definition demo_open :: open_env where
  "demo_open = \<lparr>oe_th = demo_thread, oe_died = (\<lambda>_. None), oe_getfl = Inr O_WRONLY, oe_fstat = Inr S_IFIFO, oe_linux = True,
     oe_getsz = 65536, oe_setsz_ok = (\<lambda>_. True), oe_os_err = [], oe_io = (\<lambda>_. []), oe_dead = {}, oe_spawns = [good_start 5],
     oe_apple = False, oe_fails = (\<lambda>_. False), oe_fcntl = (\<lambda>_. [])\<rparr>"

definition demo_handle :: Handle where
  "demo_handle = (Handle_new 1 True)\<lparr>workers := [\<lparr>wk_thread = 5, wk_id = 0\<rparr>], next_worker_id := 1, pipe_write_fd := 3\<rparr>"

lemma demo_opened: "\<exists>fds'. open_classified demo_open 1 3 \<lparr>fd_flags = 1, fd_nosigpipe = False\<rparr> p = (Inr demo_handle, fds', install_panic_hook p)"
proof -
  have "check_pipe_write_end 3 (Inr O_WRONLY) (Inr S_IFIFO) = Inr ()"
    by (simp add: check_pipe_write_end_def S_IFMT_def S_IFIFO_def O_ACCMODE_def O_WRONLY_def O_RDWR_def)
  moreover have "size_completion_pipe 1 True (\<lambda>k. ensure_pipe_capacity True 65536 True [] k) = Inr True"
    by (simp add: size_completion_pipe_def usize_sat_def record_consts ensure_pipe_capacity_def Let_def)
  moreover have "spawn_workers demo_thread (\<lambda>_. None) {} [good_start 5] 1 (q, Handle_new 1 True)
      = (Inr (), q, demo_handle\<lparr>pipe_write_fd := - 1\<rparr>)" for q
    by (simp add: spawn_workers_def good_start_def worker_start_def Handle_new_def demo_handle_def)
  moreover have "set_nonblocking_with False (\<lambda>_. False) 3 fds = (None, fds\<lparr>fd_flags := fd_flags fds OR O_NONBLOCK False\<rparr>)" for fds
    by (simp add: set_nonblocking_with_def)
  moreover have "demo_handle\<lparr>pipe_write_fd := 3\<rparr> = demo_handle" by (simp add: demo_handle_def)
  ultimately show ?thesis by (simp add: open_classified_def demo_open_def effective_pool_size_def MAX_POOL_SIZE_def)
qed

lemma demo_accepted:
  assumes "t = 1 \<or> t = 2" and "next_ticket p = t" and "\<not> shutting_down p"
  shows "\<exists>p' h'. submit_classified demo_submit CallHeader_default [1, 2] 0 (p, demo_handle) = (Inr t, p', h')
    \<and> next_ticket p' = t + 1 \<and> \<not> shutting_down p'"
  using assms
  by (auto simp add: submit_classified_def demo_submit_def CallHeader_default_def ensure_workers_def nothing_to_do_def
      make_payload_def reserve_id_def enqueue_def try_send_def push_def demo_handle_def Handle_new_def JobQueue_new_def
      SMALL_INPUT_def MAX_INLINE_INPUT_def ID_CEILING_def TAKE_OWNED_FLAG_def word_le_nat_alt Let_def)

subsection \<open>Property\<close>

text \<open>C9: Handles of one process do not disturb each other. In every state a process can reach by opening, using and
  dropping any number of handles, the tickets its handles ever issued are all different, and a ticket of one handle,
  live or dropped, is unknown to every other; each handle by itself conserves its tickets and counts its jobs in flight; and every buffer registered with any
  of them, and the input of every queued or running job of any of them, is live in the shared memory, whichever
  of them freed, took, cancelled or panicked.\<close>

theorem handles_independent:
  assumes "pool_contract e denv sa" and "multi_reachable e denv sa m"
  shows "distinct (ms_gone m @ concat (map ps_issued (ms_pools m)))
    \<and> (\<forall>t \<in> set (ms_gone m). \<forall>s \<in> set (ms_pools m). \<exists>msg. take_result t (ps_h s) = (Inl msg, ps_h s))
    \<and> (\<forall>i j t. i < length (ms_pools m) \<and> j < length (ms_pools m) \<and> i \<noteq> j \<and> t \<in> set (ps_issued (ms_pools m ! i)) \<longrightarrow>
          (\<exists>msg. take_result t (ps_h (ms_pools m ! j)) = (Inl msg, ps_h (ms_pools m ! j))))
    \<and> (\<forall>s \<in> set (ms_pools m).
          mset (ps_issued s) = mset (map u_ticket (items (h_queue (ps_h s)))) + mset (map u_ticket (ps_running s)) + mset (ps_done s)
        \<and> in_flight (ps_h s) = length (items (h_queue (ps_h s))) + length (ps_running s)
        \<and> (\<forall>k b. map_of (buffers (ps_h s)) k = Some b \<longrightarrow> live_buf (ms_p m) (slot_buf b))
        \<and> (\<forall>u b. u \<in> set (items (h_queue (ps_h s))) \<union> set (ps_running s) \<and> u_payload u = Shared b \<longrightarrow> live_buf (ms_p m) b))"
proof -
  have inv: "multi_inv m" using pool_client.multi_reachable_inv [OF pool_client_iff [THEN iffD2, OF assms(1)] assms(2)] .
  have "\<exists>msg. take_result t (ps_h (ms_pools m ! j)) = (Inl msg, ps_h (ms_pools m ! j))"
    if "i < length (ms_pools m)" "j < length (ms_pools m)" "i \<noteq> j" "t \<in> set (ps_issued (ms_pools m ! i))" for i j t
    using ticket_elsewhere [OF inv that] by (simp add: take_result_def)
  moreover have "own_inv (ms_p m) s" if "s \<in> set (ms_pools m)" for s using inv that by (simp add: multi_inv_def)
  moreover have "distinct (ms_gone m @ concat (map ps_issued (ms_pools m)))" using inv by (simp add: multi_inv_def)
  moreover have "\<exists>msg. take_result t (ps_h s) = (Inl msg, ps_h s)" if "t \<in> set (ms_gone m)" "s \<in> set (ms_pools m)" for t s
    using ticket_gone [OF inv that] by (simp add: take_result_def)
  ultimately show ?thesis using own_tickets(1,2) pool_live [OF inv] by blast
qed

theorem handles_independent_witness:
  "\<exists>m. multi_reachable echo_engines quiet_env bump_alloc m \<and> length (ms_pools m) = 2
    \<and> ps_issued (ms_pools m ! 0) = [1] \<and> ps_issued (ms_pools m ! 1) = [2]
    \<and> (\<exists>msg. fst (take_result 1 (ps_h (ms_pools m ! 1))) = Inl msg)"
proof -
  let ?R = "multi_reachable echo_engines quiet_env bump_alloc" and ?q = "install_panic_hook process_init"
  have open2: "?R m \<Longrightarrow> ?R (m\<lparr>ms_p := install_panic_hook (ms_p m), ms_pools := ms_pools m @ [new_pool (install_panic_hook (ms_p m)) demo_handle]\<rparr>)" for m
    using demo_opened [of "ms_p m"] multi_step.opens by (blast intro: multi_reachable.step)
  have idem: "install_panic_hook ?q = ?q" by (simp add: install_panic_hook_def)
  let ?np = "new_pool ?q demo_handle"
  have two: "?R \<lparr>ms_p = ?q, ms_pools = [?np, ?np], ms_gone = []\<rparr>"
    using open2 [OF open2 [OF multi_reachable.empty]] by (simp add: idem)
  have submits: "?R (m\<lparr>ms_p := p', ms_pools := (ms_pools m)[i := (at (ms_p m) (ms_pools m ! i))\<lparr>ps_p := p', ps_h := h', ps_issued := ps_issued (ms_pools m ! i) @ [t]\<rparr>]\<rparr>)"
    if "?R m" "i < length (ms_pools m)" "submit_classified demo_submit CallHeader_default [1, 2] 0 (ms_p m, ps_h (ms_pools m ! i)) = (Inr t, p', h')"
    for m i t p' h'
    using multi_reachable.step [OF that(1) multi_step.moves [OF that(2) pool_step.submitted [of demo_submit CallHeader_default "[1, 2]" 0 "at (ms_p m) (ms_pools m ! i)" t p' h']]] that(3)
    by (simp add: at_def)
  have "next_ticket ?q = 1" "\<not> shutting_down ?q" by (simp_all add: install_panic_hook_def process_init_def)
  then obtain p1 h1 where 1: "submit_classified demo_submit CallHeader_default [1, 2] 0 (?q, demo_handle) = (Inr 1, p1, h1)"
    "next_ticket p1 = 2" "\<not> shutting_down p1" using demo_accepted [of 1 ?q] by auto
  from demo_accepted [of 2 p1] 1 obtain p2 h2 where 2: "submit_classified demo_submit CallHeader_default [1, 2] 0 (p1, demo_handle) = (Inr 2, p2, h2)"
    by auto
  let ?s1 = "(at ?q ?np)\<lparr>ps_p := p1, ps_h := h1, ps_issued := [1]\<rparr>"
  let ?s2 = "(at p1 ?np)\<lparr>ps_p := p2, ps_h := h2, ps_issued := [2]\<rparr>"
  have r1: "?R \<lparr>ms_p = p1, ms_pools = [?s1, ?np], ms_gone = []\<rparr>" using submits [OF two, of 0 1 p1 h1] 1(1) by (simp add: new_pool_def)
  have r2: "?R \<lparr>ms_p = p2, ms_pools = [?s1, ?s2], ms_gone = []\<rparr>" using submits [OF r1, of 1 2 p2 h2] 2 by (simp add: new_pool_def)
  let ?m = "\<lparr>ms_p = p2, ms_pools = [?s1, ?s2], ms_gone = []\<rparr>"
  have "\<exists>msg. take_result 1 (ps_h (ms_pools ?m ! 1)) = (Inl msg, ps_h (ms_pools ?m ! 1))"
  proof -
    have "0 < length (ms_pools ?m) \<and> 1 < length (ms_pools ?m) \<and> (0 :: nat) \<noteq> 1 \<and> 1 \<in> set (ps_issued (ms_pools ?m ! 0))" by simp
    with handles_independent [OF echo_contract r2] show ?thesis by blast
  qed
  with r2 show ?thesis by (intro exI [of _ ?m]) auto
qed

text \<open>C36: Dropping a handle gives back its memory, once, and nobody else's. In any process with any number of handles,
  when a handle that runs no job is dropped, registered buffers and units still in its queue included, every block of
  buffer memory that only it held is freed and no other; the blocks that stay keep their content; each reference
  count left is the number of references the other handles hold; and all their buffers are still live.\<close>

theorem dropped_handle_reclaimed:
  assumes "pool_contract e denv sa" and "multi_reachable e denv sa m" and "i < length (ms_pools m)" and "ps_running (ms_pools m ! i) = []"
    and "drop_handle ce (ms_p m, ps_h (ms_pools m ! i)) = (fds, p1, h1)" and "drop_handle_fields (p1, h1) = p'"
    and "others = take i (ms_pools m) @ drop (Suc i) (ms_pools m)"
  shows "(\<forall>q. blocks (pmem p') q \<noteq> None \<longleftrightarrow> blocks (pmem (ms_p m)) q \<noteq> None
            \<and> (q \<in> rb_ptr ` set (pool_bufs (ms_pools m ! i)) \<longrightarrow> q \<in> rb_ptr ` set (concat (map pool_bufs others))))
    \<and> (\<forall>q. blocks (pmem p') q \<noteq> None \<longrightarrow> blocks (pmem p') q = blocks (pmem (ms_p m)) q)
    \<and> (\<forall>q. arcs p' q = refs (concat (map pool_bufs others)) q)
    \<and> (\<forall>s \<in> set others. \<forall>k b. map_of (buffers (ps_h s)) k = Some b \<longrightarrow> live_buf p' (slot_buf b))"
proof -
  note client = pool_client_iff [THEN iffD2, OF assms(1)]
  have inv: "multi_inv m" using pool_client.multi_reachable_inv [OF client assms(2)] .
  from pool_client.drops_inv [OF client inv assms(3-5)]
  have inv': "multi_inv (m\<lparr>ms_p := p', ms_pools := others, ms_gone := ms_gone m @ ps_issued (ms_pools m ! i)\<rparr>)"
    unfolding assms(6) by (simp only: assms(7))
  note d = drop_handle_memory [OF assms(5,4), unfolded assms(6)]
  obtain other where o: "owner_inv other (ms_p m) (concat (map pool_bufs (ms_pools m)))" using inv by (auto simp: multi_inv_def)
  have "mset (pool_bufs (ms_pools m ! i) @ concat (map pool_bufs others)) = mset (concat (map pool_bufs (ms_pools m)))"
    using arg_cong [OF id_take_nth_drop [OF assms(3)], of "\<lambda>ss. mset (concat (map pool_bufs ss))"] by (simp add: assms(7))
  from owner_inv_frame [OF o refl refl this]
  have o1: "owner_inv other (ms_p m) (pool_bufs (ms_pools m ! i) @ concat (map pool_bufs others))" .
  note o2 = d(1) [OF o1]
  have "blocks (pmem p') q \<noteq> None \<longleftrightarrow> blocks (pmem (ms_p m)) q \<noteq> None
      \<and> (q \<in> rb_ptr ` set (pool_bufs (ms_pools m ! i)) \<longrightarrow> q \<in> rb_ptr ` set (concat (map pool_bufs others)))" for q
    using owner_inv_blocks [OF o1, of q] owner_inv_blocks [OF o2, of q] owner_invD(2) [OF o1] by (auto simp: image_iff)
  moreover have "\<forall>s \<in> set others. \<forall>k b. map_of (buffers (ps_h s)) k = Some b \<longrightarrow> live_buf p' (slot_buf b)"
    using pool_live(1) [OF inv'] by simp
  ultimately show ?thesis using d(4) owner_inv_refs [OF o2] by blast
qed

definition demo_close :: close_env where
  "demo_close = \<lparr>ce_th = demo_thread, ce_died = (\<lambda>_. None), ce_keeper = False, ce_joiner = True, ce_wait = InTime\<rparr>"

lemma demo_buffer:
  "\<exists>p' h' b. allocate_buffer bump_alloc 16 True (install_panic_hook process_init, demo_handle) = (Inr (1, rb_ptr (slot_buf b)), p', h')
    \<and> buffers h' = [(1, b)] \<and> items (h_queue h') = []"
  by (simp add: allocate_buffer_def register_def demo_handle_def Handle_new_def JobQueue_new_def install_panic_hook_def process_init_def
      reserve_id_def ID_CEILING_def TAKE_OWNED_FLAG_def word_le_nat_alt build_slot_def rb_allocate_def allocate_with_def check_buffer_len_def
      MAX_BUFFER_BYTES_def layout_from_size_align_def BUFFER_ALIGN_def ISIZE_MAX_def bump_alloc_def BufferSlot_new_def Let_def)

theorem dropped_handle_reclaimed_witness:
  "\<exists>m p1 h1 fds b. multi_reachable echo_engines quiet_env bump_alloc m \<and> buffers (ps_h (ms_pools m ! 0)) = [(1, b)]
    \<and> drop_handle demo_close (ms_p m, ps_h (ms_pools m ! 0)) = (fds, p1, h1)
    \<and> blocks (pmem (ms_p m)) (rb_ptr (slot_buf b)) \<noteq> None
    \<and> blocks (pmem (drop_handle_fields (p1, h1))) (rb_ptr (slot_buf b)) = None"
proof -
  let ?R = "multi_reachable echo_engines quiet_env bump_alloc" and ?q = "install_panic_hook process_init"
  let ?init = "\<lparr>ms_p = ?q, ms_pools = [new_pool ?q demo_handle], ms_gone = []\<rparr>"
  have r0: "?R ?init" using multi_reachable.step [OF multi_reachable.empty multi_step.opens] demo_opened [of process_init] by fastforce
  from demo_buffer obtain p' h' b where a: "allocate_buffer bump_alloc 16 True (?q, demo_handle) = (Inr (1, rb_ptr (slot_buf b)), p', h')"
    "buffers h' = [(1, b)]" by blast
  let ?s = "(at ?q (new_pool ?q demo_handle))\<lparr>ps_p := p', ps_h := h'\<rparr>" and ?m = "\<lparr>ms_p = p', ms_pools = [new_pool p' h'], ms_gone = []\<rparr>"
  have "pool_step echo_engines quiet_env bump_alloc (at ?q (new_pool ?q demo_handle)) ?s"
    using a(1) by (intro pool_step.allocated) (simp add: at_def new_pool_def)
  from multi_step.moves [of 0 ?init, simplified, OF this] have r: "?R ?m"
    using multi_reachable.step [OF r0] by (simp add: at_def new_pool_def)
  obtain fds p1 h1 where d: "drop_handle demo_close (ms_p ?m, ps_h (ms_pools ?m ! 0)) = (fds, p1, h1)" by (rule prod_cases3)
  have "blocks (pmem (drop_handle_fields (p1, h1))) (rb_ptr (slot_buf b)) = None"
    using dropped_handle_reclaimed [OF echo_contract r _ _ d refl refl] a(2)
    by (auto simp: new_pool_def pool_bufs_def held_def in_flight_units_def)
  moreover have "blocks (pmem p') (rb_ptr (slot_buf b)) \<noteq> None"
    using pool_live(1) [OF pool_client.multi_reachable_inv [OF pool_client_iff [THEN iffD2, OF echo_contract] r], of "new_pool p' h'" 1 b] a(2)
    by (auto simp: new_pool_def live_buf_def)
  ultimately show ?thesis using r d a(2) by (intro exI [of _ ?m] exI [of _ p1] exI [of _ h1] exI [of _ fds] exI [of _ b]) (simp add: new_pool_def)
qed

end
