(* ===== verification/Ring_Memory.thy ===== *)
theory Ring_Memory
  imports Exports
begin

text \<open>
  A completion ring's memory (\<open>pool/ring.rs\<close>, \<open>gusset_ring_release\<close>): how it is laid out for a reader in C, and
  who keeps it. The handle holds one reference in its once-set cell, the host the one \<open>gusset_handle_ring\<close> gave
  it. Memory is named by addresses; a count of zero is freed memory.
\<close>

subsection \<open>Layout\<close>

definition Slot_fields :: c_struct where
  "Slot_fields = [(lit ''seq'', CInt 8), (lit ''words'', CArray (CInt 8) RECORD_WORDS)]"

definition RingShared_fields :: c_struct where
  "RingShared_fields =
     [(lit ''capacity'', CInt 8), (lit ''slot_bytes'', CInt 8), (lit ''_pad0'', CArray (CInt 8) 6),
      (lit ''waiting'', CInt 4), (lit ''_pad1'', CArray (CInt 4) 15), (lit ''overflow'', CInt 8),
      (lit ''_pad2'', CArray (CInt 8) 7), (lit ''tail'', CInt 8), (lit ''_pad3'', CArray (CInt 8) 7)]"

text \<open>\<open>offset_of!\<close>, and the size of a \<open>repr(C, align(n))\<close> struct.\<close>

definition field_offset :: "rstr \<Rightarrow> c_struct \<Rightarrow> nat option" where
  "field_offset f fs = map_of (zip (map fst fs) (struct_offsets 0 (map snd fs))) f"

definition aligned_size :: "nat \<Rightarrow> c_struct \<Rightarrow> nat" where
  "aligned_size n fs = round_up (struct_end 0 (map snd fs)) (max n (struct_align (map snd fs)))"

text \<open>The offsets a reader compiles in, the asserted stride, and that each field another thread writes starts a
  cache line of its own.\<close>

lemma ring_layout:
  "map (\<lambda>f. field_offset f RingShared_fields) [lit ''capacity'', lit ''slot_bytes'', lit ''waiting'', lit ''overflow'', lit ''tail'']
     = [Some 0, Some 8, Some 64, Some 128, Some 192]"
  "field_offset (lit ''words'') Slot_fields = Some 8"
  "aligned_size 128 Slot_fields = RING_SLOT_BYTES" "aligned_size 64 RingShared_fields = 256"
  by (simp_all add: field_offset_def aligned_size_def RingShared_fields_def Slot_fields_def struct_align_def round_up_def
      lit_def RECORD_WORDS_def RING_SLOT_BYTES_def record_consts Let_def)

subsection \<open>Counts\<close>

record ring_refs =
  rr_count :: "nat \<Rightarrow> nat"
  rr_next :: nat
  rr_cell :: "nat option"

definition ring_refs_start :: ring_refs where
  "ring_refs_start = \<lparr>rr_count = (\<lambda>_. 0), rr_next = 1, rr_cell = None\<rparr>"

subsection \<open>The counted pointer\<close>

definition ring_arc_new :: "ring_refs \<Rightarrow> nat \<times> ring_refs" where
  "ring_arc_new s = (rr_next s, s\<lparr>rr_count := (rr_count s)(rr_next s := 1), rr_next := rr_next s + 1\<rparr>)"

definition ring_arc_clone :: "nat \<Rightarrow> ring_refs \<Rightarrow> ring_refs" where
  "ring_arc_clone a s = s\<lparr>rr_count := (rr_count s)(a := rr_count s a + 1)\<rparr>"

text \<open>\<open>None\<close>: the memory was already freed, a use after free.\<close>

definition ring_arc_drop :: "nat \<Rightarrow> ring_refs \<Rightarrow> ring_refs option" where
  "ring_arc_drop a s = (if rr_count s a = 0 then None else Some (s\<lparr>rr_count := (rr_count s)(a := rr_count s a - 1)\<rparr>))"

subsection \<open>Its owners\<close>

text \<open>The references of \<open>Handle::attach_ring\<close>: a set cell refuses, dropping the clone it was given and then the
  ring just made.\<close>

definition attach_ring_refs :: "ring_refs \<Rightarrow> ((rstr + nat) \<times> ring_refs) option" where
  "attach_ring_refs s =
     (let (a, s1) = ring_arc_new s; s2 = ring_arc_clone a s1
      in case rr_cell s2 of
           None \<Rightarrow> Some (Inr a, s2\<lparr>rr_cell := Some a\<rparr>)
         | Some _ \<Rightarrow>
             Option.bind (ring_arc_drop a s2) (\<lambda>s3. Option.bind (ring_arc_drop a s3)
               (\<lambda>s4. Some (Inl (lit ''a completion ring is already attached''), s4))))"

text \<open>\<open>ring\<close> is \<open>None\<close> for a null pointer; a fault is a panic while the ring is torn down.\<close>

definition gusset_ring_release :: "thread \<Rightarrow> fault \<Rightarrow> nat option \<Rightarrow> process \<times> ring_refs \<Rightarrow> (process \<times> ring_refs) option" where
  "gusset_ring_release th flt ring st =
     (case ring of
        None \<Rightarrow> Some st
      | Some a \<Rightarrow>
          map_option
            (\<lambda>s1. (case flt of None \<Rightarrow> fst st | Some (pl, l) \<Rightarrow> drop_panic_payload th pl (raise_panic th l (fst st)), s1))
            (ring_arc_drop a (snd st)))"

text \<open>The handle's memory is freed: its cell drops the reference.\<close>

definition drop_ring_cell :: "ring_refs \<Rightarrow> ring_refs option" where
  "drop_ring_cell s =
     (case rr_cell s of None \<Rightarrow> Some s | Some a \<Rightarrow> map_option (\<lambda>s1. s1\<lparr>rr_cell := None\<rparr>) (ring_arc_drop a s))"

subsection \<open>A ring's life\<close>

text \<open>The pointers the host owns, the process, the counts and whether the handle still exists. The host keeps its side
  of the contract: it releases a pointer it owns, once.\<close>

record ring_life =
  rl_p :: process
  rl_refs :: ring_refs
  rl_host :: "nat list"
  rl_handle :: bool

inductive ring_life_step :: "ring_life \<Rightarrow> ring_life \<Rightarrow> bool" where
  attach: "rl_handle s \<Longrightarrow> attach_ring_refs (rl_refs s) = Some (r, x) \<Longrightarrow>
     ring_life_step s (s\<lparr>rl_refs := x, rl_host := (case r of Inr a \<Rightarrow> a # rl_host s | Inl _ \<Rightarrow> rl_host s)\<rparr>)"
| release: "a \<in> set (rl_host s) \<Longrightarrow> gusset_ring_release th flt (Some a) (rl_p s, rl_refs s) = Some (p, x) \<Longrightarrow>
     ring_life_step s (s\<lparr>rl_p := p, rl_refs := x, rl_host := remove1 a (rl_host s)\<rparr>)"
| freed: "rl_handle s \<Longrightarrow> drop_ring_cell (rl_refs s) = Some x \<Longrightarrow> ring_life_step s (s\<lparr>rl_refs := x, rl_handle := False\<rparr>)"

definition ring_life_start :: ring_life where
  "ring_life_start = \<lparr>rl_p = process_init, rl_refs = ring_refs_start, rl_host = [], rl_handle = True\<rparr>"

definition ring_life_inv :: "ring_life \<Rightarrow> bool" where
  "ring_life_inv s \<longleftrightarrow>
     (\<forall>a. rr_count (rl_refs s) a = count_list (rl_host s) a + (if rr_cell (rl_refs s) = Some a then 1 else 0))
     \<and> (\<forall>a. rr_next (rl_refs s) \<le> a \<longrightarrow> rr_count (rl_refs s) a = 0)
     \<and> (rl_host s \<noteq> [] \<longrightarrow> rl_handle s \<longrightarrow> rr_cell (rl_refs s) \<noteq> None)
     \<and> distinct (rl_host s) \<and> length (rl_host s) \<le> 1 \<and> (\<not> rl_handle s \<longrightarrow> rr_cell (rl_refs s) = None)"

lemma attach_spec:
  assumes "\<forall>a. rr_next x \<le> a \<longrightarrow> rr_count x a = 0"
  shows "attach_ring_refs x = Some (case rr_cell x of
      None \<Rightarrow> (Inr (rr_next x), x\<lparr>rr_count := (rr_count x)(rr_next x := 2), rr_next := rr_next x + 1, rr_cell := Some (rr_next x)\<rparr>)
    | Some _ \<Rightarrow> (Inl (lit ''a completion ring is already attached''), x\<lparr>rr_next := rr_next x + 1\<rparr>))"
proof -
  have "(rr_count x)(rr_next x := 0) = rr_count x" using assms by (simp add: fun_upd_idem)
  then show ?thesis
    by (simp add: attach_ring_refs_def ring_arc_new_def ring_arc_clone_def ring_arc_drop_def numeral_2_eq_2 split: option.split)
qed

lemma count_list_pos: "0 < count_list xs a \<longleftrightarrow> a \<in> set xs"
  using count_list_0_iff [of xs a] by (simp add: neq0_conv [symmetric] del: neq0_conv)

lemma ring_life_invD:
  assumes "ring_life_inv s"
  shows "rr_count (rl_refs s) a = count_list (rl_host s) a + (if rr_cell (rl_refs s) = Some a then 1 else 0)"
    and "\<forall>a. rr_next (rl_refs s) \<le> a \<longrightarrow> rr_count (rl_refs s) a = 0"
    and "rl_host s \<noteq> [] \<Longrightarrow> rl_handle s \<Longrightarrow> rr_cell (rl_refs s) \<noteq> None"
    and "length (rl_host s) \<le> 1" and "\<not> rl_handle s \<Longrightarrow> rr_cell (rl_refs s) = None"
  using assms unfolding ring_life_inv_def by blast+

lemma ring_life_step_inv:
  assumes "ring_life_step s s'" and inv: "ring_life_inv s"
  shows "ring_life_inv s'"
  using assms(1)
proof cases
  case (attach r x)
  note sp = attach_spec [OF ring_life_invD(2) [OF inv]]
  show ?thesis
  proof (cases "rr_cell (rl_refs s)")
    case None
    with ring_life_invD(3) [OF inv] attach(2) have nil: "rl_host s = []" by blast
    then have "rr_count (rl_refs s) a = 0" for a using ring_life_invD(1) [OF inv] None by simp
    moreover from attach sp None have "s' = s\<lparr>rl_refs := (rl_refs s)\<lparr>rr_count := (rr_count (rl_refs s))(rr_next (rl_refs s) := 2),
        rr_next := rr_next (rl_refs s) + 1, rr_cell := Some (rr_next (rl_refs s))\<rparr>, rl_host := rr_next (rl_refs s) # rl_host s\<rparr>" by auto
    ultimately show ?thesis using nil attach(2) by (simp add: ring_life_inv_def)
  next
    case (Some b)
    with attach sp have s': "s' = s\<lparr>rl_refs := (rl_refs s)\<lparr>rr_next := rr_next (rl_refs s) + 1\<rparr>\<rparr>" by auto
    have "rr_count (rl_refs s) c = 0" if "rr_next (rl_refs s) + 1 \<le> c" for c using ring_life_invD(2) [OF inv] that by simp
    with inv show ?thesis unfolding ring_life_inv_def
      by (simp only: s' ring_life.select_convs ring_life.update_convs ring_refs.select_convs ring_refs.update_convs ring_life.surjective) auto
  qed
next
  case (release a th flt p x)
  then have x: "x = (rl_refs s)\<lparr>rr_count := (rr_count (rl_refs s))(a := rr_count (rl_refs s) a - 1)\<rparr>"
    by (auto simp: gusset_ring_release_def ring_arc_drop_def split: if_splits)
  have h: "rl_host s = [a]" using release(2) ring_life_invD(4) [OF inv] by (cases "rl_host s") auto
  have "rr_count x b = (if rr_cell (rl_refs s) = Some b then 1 else 0)" for b
    using ring_life_invD(1) [OF inv, of b] h by (auto simp: x)
  moreover have "rr_count x b = 0" if "rr_next x \<le> b" for b using ring_life_invD(2) [OF inv] that by (auto simp: x)
  moreover have "rr_cell x = rr_cell (rl_refs s)" by (simp add: x)
  ultimately show ?thesis using ring_life_invD(5) [OF inv] unfolding release(1) ring_life_inv_def by (simp add: h)
next
  case (freed x)
  show ?thesis
  proof (cases "rr_cell (rl_refs s)")
    case None
    with freed have "x = rl_refs s" by (simp add: drop_ring_cell_def)
    with None inv show ?thesis unfolding freed(1) ring_life_inv_def by fastforce
  next
    case (Some a)
    with freed(3) have x: "x = (rl_refs s)\<lparr>rr_count := (rr_count (rl_refs s))(a := rr_count (rl_refs s) a - 1), rr_cell := None\<rparr>"
      by (auto simp: drop_ring_cell_def ring_arc_drop_def split: if_splits)
    have "rr_count x b = count_list (rl_host s) b" for b using ring_life_invD(1) [OF inv, of b] Some by (auto simp: x)
    moreover have "rr_next x \<le> b \<Longrightarrow> rr_count x b = 0" for b using ring_life_invD(2) [OF inv] by (auto simp: x)
    ultimately show ?thesis using inv unfolding freed(1) ring_life_inv_def by (simp add: x)
  qed
qed

lemma ring_life_reach: "ring_life_step\<^sup>*\<^sup>* ring_life_start s \<Longrightarrow> ring_life_inv s"
proof (induction rule: rtranclp_induct)
  case base
  show ?case by (simp add: ring_life_inv_def ring_life_start_def ring_refs_start_def)
next
  case (step s t)
  then show ?case by (blast intro: ring_life_step_inv)
qed

subsection \<open>Property\<close>

text \<open>C37: A completion ring lives exactly as long as somebody reads or writes it. Over any sequence of attaches,
  releases and the freeing of the handle, the ring a host was given is live memory until the host releases it, also
  after the handle is gone, and releasing it then never frees twice; a ring is freed as soon as neither the handle
  nor the host holds it, and a refused second attach leaves no memory behind.\<close>

theorem ring_memory_owned:
  assumes "ring_life_step\<^sup>*\<^sup>* ring_life_start s"
  shows "(\<forall>a. 0 < rr_count (rl_refs s) a \<longleftrightarrow> a \<in> set (rl_host s) \<or> rr_cell (rl_refs s) = Some a)
    \<and> (\<forall>a \<in> set (rl_host s). gusset_ring_release th flt (Some a) (rl_p s, rl_refs s) \<noteq> None)
    \<and> drop_ring_cell (rl_refs s) \<noteq> None
    \<and> (rr_cell (rl_refs s) \<noteq> None \<longrightarrow>
         (\<exists>m x. attach_ring_refs (rl_refs s) = Some (Inl m, x) \<and> rr_count x = rr_count (rl_refs s) \<and> rr_cell x = rr_cell (rl_refs s)))"
proof -
  note inv = ring_life_reach [OF assms]
  have 1: "0 < rr_count (rl_refs s) a \<longleftrightarrow> a \<in> set (rl_host s) \<or> rr_cell (rl_refs s) = Some a" for a
    using ring_life_invD(1) [OF inv, of a] count_list_pos [of "rl_host s" a] by simp
  then have "gusset_ring_release th flt (Some a) (rl_p s, rl_refs s) \<noteq> None" if "a \<in> set (rl_host s)" for a
    using that by (auto simp: gusset_ring_release_def ring_arc_drop_def split: option.splits)
  moreover have "drop_ring_cell (rl_refs s) \<noteq> None"
  proof (cases "rr_cell (rl_refs s)")
    case (Some a)
    with 1 [of a] show ?thesis by (simp add: drop_ring_cell_def ring_arc_drop_def)
  qed (simp add: drop_ring_cell_def)
  moreover have "\<exists>m x. attach_ring_refs (rl_refs s) = Some (Inl m, x) \<and> rr_count x = rr_count (rl_refs s) \<and> rr_cell x = rr_cell (rl_refs s)"
    if "rr_cell (rl_refs s) \<noteq> None"
    using attach_spec [OF ring_life_invD(2) [OF inv]] that by auto
  ultimately show ?thesis using 1 by blast
qed

theorem ring_memory_owned_witness:
  "\<exists>s. ring_life_step\<^sup>*\<^sup>* ring_life_start s \<and> rl_host s = [1] \<and> \<not> rl_handle s \<and> 0 < rr_count (rl_refs s) 1"
proof -
  let ?x = "ring_refs_start\<lparr>rr_count := (rr_count ring_refs_start)(1 := 2), rr_next := 2, rr_cell := Some 1\<rparr>"
  let ?s1 = "ring_life_start\<lparr>rl_refs := ?x, rl_host := [1]\<rparr>"
  have a: "attach_ring_refs (rl_refs ring_life_start) = Some (Inr 1, ?x)"
    by (simp add: attach_spec ring_refs_start_def ring_life_start_def)
  have "ring_life_step ring_life_start ?s1"
    using ring_life_step.attach [OF _ a] by (simp add: ring_life_start_def)
  moreover have d: "drop_ring_cell ?x = Some (?x\<lparr>rr_count := (rr_count ?x)(1 := 1), rr_cell := None\<rparr>)"
    by (simp add: drop_ring_cell_def ring_arc_drop_def)
  moreover have "ring_life_step ?s1 (?s1\<lparr>rl_refs := ?x\<lparr>rr_count := (rr_count ?x)(1 := 1), rr_cell := None\<rparr>, rl_handle := False\<rparr>)" (is "ring_life_step _ ?s2")
    by (rule ring_life_step.freed) (use d in \<open>simp_all add: ring_life_start_def\<close>)
  ultimately have r: "ring_life_step\<^sup>*\<^sup>* ring_life_start ?s2" by (meson rtranclp.rtrancl_into_rtrancl rtranclp.rtrancl_refl)
  with ring_memory_owned [OF r] show ?thesis by (intro exI [of _ ?s2]) simp
qed

end
