(* ===== verification/Ring_Threads.thy ===== *)
theory Ring_Threads
  imports Ring
begin

text \<open>
  Several workers publishing into the ring at once, and the reader that parks on the pipe. A worker
  moves through \<open>Ring::try_publish\<close> and the wake protocol of \<open>Handle::complete\<close> one shared access at a
  time, on the functions of \<open>Ring\<close>; the reader follows \<open>ticket_reader.go\<close> (\<open>ringReady\<close>, \<open>popRing\<close>,
  \<open>waitRing\<close>). The accesses interleave sequentially consistently: the release store and acquire load
  of a slot's sequence order its words, and the fence of \<open>take_waiter\<close> with the reader's swap orders
  the two flags of the parking handshake.

  The positions are words, and the compare-exchange compares words, so a worker stalled while \<open>2 ^ 64\<close>
  records pass by could be fooled; the statements are for rings that have carried fewer than \<open>2 ^ 62\<close>.
\<close>

subsection \<open>Workers and reader\<close>

datatype prod_pc =
    PIdle
  | PStart bytes
  | PLook bytes u64
  | PCas bytes u64
  | PWrite bytes u64
  | PRelease bytes u64
  | PPublished
  | PSwap
  | PToken
  | PFull bytes
  | PSpilled

datatype reader_pc = RPoll | RArmed | RParked | RDisarm

datatype pipe_entry = Token | Spill bytes

text \<open>\<open>claims\<close> (in the order of the compare-exchanges) and \<open>reads\<close> record the history.\<close>

record ring_sys =
  rg :: Ring
  head :: u64
  overflow_seen :: u64
  prods :: "prod_pc list"
  rd :: reader_pc
  pipe :: "pipe_entry list"
  claims :: "bytes list"
  reads :: "u64 list list"

definition ring_start :: "nat \<Rightarrow> nat \<Rightarrow> ring_sys" where
  "ring_start pool_size n = \<lparr>rg = Ring_new pool_size, head = 0, overflow_seen = 0,
     prods = replicate n PIdle, rd = RPoll, pipe = [], claims = [], reads = []\<rparr>"

definition set_waiting :: "u32 \<Rightarrow> Ring \<Rightarrow> Ring" where
  "set_waiting v r = r\<lparr>shared := (shared r)\<lparr>waiting := v\<rparr>\<rparr>"

definition ring_ready :: "Ring \<Rightarrow> u64 \<Rightarrow> bool" where
  "ring_ready r h \<longleftrightarrow> seq (slots r ! slot_index r h) = h + 1"

definition overflow_pending :: "ring_sys \<Rightarrow> bool" where
  "overflow_pending s \<longleftrightarrow> 0 < sint (overflow (shared (rg s)) - overflow_seen s)"

fun after_look :: "bytes \<Rightarrow> u64 \<Rightarrow> look \<Rightarrow> prod_pc" where
  "after_look rec pos SlotFree = PCas rec pos"
| "after_look rec pos SlotFull = PFull rec"
| "after_look rec pos SlotTaken = PStart rec"

inductive ring_step :: "bool \<Rightarrow> ring_sys \<Rightarrow> ring_sys \<Rightarrow> bool" for be where
  p_begin: "w < length (prods s) \<Longrightarrow> prods s ! w = PIdle \<Longrightarrow> record_fits rec \<Longrightarrow>
     ring_step be s (s\<lparr>prods := (prods s)[w := PStart rec]\<rparr>)"
| p_load_tail: "w < length (prods s) \<Longrightarrow> prods s ! w = PStart rec \<Longrightarrow>
     ring_step be s (s\<lparr>prods := (prods s)[w := PLook rec (tail (shared (rg s)))]\<rparr>)"
| p_look: "w < length (prods s) \<Longrightarrow> prods s ! w = PLook rec pos \<Longrightarrow>
     ring_step be s (s\<lparr>prods := (prods s)[w := after_look rec pos (look_at (rg s) pos)]\<rparr>)"
| p_cas_ok: "w < length (prods s) \<Longrightarrow> prods s ! w = PCas rec pos \<Longrightarrow> tail (shared (rg s)) = pos \<Longrightarrow>
     ring_step be s (s\<lparr>rg := claim (rg s) pos, prods := (prods s)[w := PWrite rec pos], claims := claims s @ [rec]\<rparr>)"
| p_cas_fail: "w < length (prods s) \<Longrightarrow> prods s ! w = PCas rec pos \<Longrightarrow>
     ring_step be s (s\<lparr>prods := (prods s)[w := PLook rec (tail (shared (rg s)))]\<rparr>)"
| p_write: "w < length (prods s) \<Longrightarrow> prods s ! w = PWrite rec pos \<Longrightarrow>
     ring_step be s (s\<lparr>rg := store_record be rec pos (rg s), prods := (prods s)[w := PRelease rec pos]\<rparr>)"
| p_release: "w < length (prods s) \<Longrightarrow> prods s ! w = PRelease rec pos \<Longrightarrow>
     ring_step be s (s\<lparr>rg := release_slot pos (rg s), prods := (prods s)[w := PPublished]\<rparr>)"
| p_load_waiting: "w < length (prods s) \<Longrightarrow> prods s ! w = PPublished \<Longrightarrow>
     ring_step be s (s\<lparr>prods := (prods s)[w := if waiting (shared (rg s)) \<noteq> 0 then PSwap else PIdle]\<rparr>)"
| p_swap: "w < length (prods s) \<Longrightarrow> prods s ! w = PSwap \<Longrightarrow> take_waiter (rg s) = (took, r') \<Longrightarrow>
     ring_step be s (s\<lparr>rg := r', prods := (prods s)[w := if took then PToken else PIdle]\<rparr>)"
| p_token: "w < length (prods s) \<Longrightarrow> prods s ! w = PToken \<Longrightarrow>
     ring_step be s (s\<lparr>pipe := pipe s @ [Token], prods := (prods s)[w := PIdle]\<rparr>)"
| p_spill: "w < length (prods s) \<Longrightarrow> prods s ! w = PFull rec \<Longrightarrow>
     ring_step be s (s\<lparr>pipe := pipe s @ [Spill rec], prods := (prods s)[w := PSpilled]\<rparr>)"
| p_overflow: "w < length (prods s) \<Longrightarrow> prods s ! w = PSpilled \<Longrightarrow>
     ring_step be s (s\<lparr>rg := note_overflow (rg s), prods := (prods s)[w := PIdle]\<rparr>)"
| r_pop: "rd s = RPoll \<Longrightarrow> pop_slot (rg s) (head s) = (Some ws, r', h') \<Longrightarrow>
     ring_step be s (s\<lparr>rg := r', head := h', reads := reads s @ [ws]\<rparr>)"
| r_pipe: "rd s = RPoll \<Longrightarrow> pipe s = e # es \<Longrightarrow>
     ring_step be s (s\<lparr>pipe := es, overflow_seen := overflow_seen s + (if e = Token then 0 else 1)\<rparr>)"
| r_arm: "rd s = RPoll \<Longrightarrow> ring_step be s (s\<lparr>rg := set_waiting 1 (rg s), rd := RArmed\<rparr>)"
| r_check: "rd s = RArmed \<Longrightarrow>
     ring_step be s (s\<lparr>rd := if \<not> ring_ready (rg s) (head s) \<and> \<not> overflow_pending s then RParked else RDisarm\<rparr>)"
| r_unpark: "rd s = RParked \<Longrightarrow> pipe s \<noteq> [] \<Longrightarrow> ring_step be s (s\<lparr>rd := RDisarm\<rparr>)"
| r_disarm: "rd s = RDisarm \<Longrightarrow> ring_step be s (s\<lparr>rg := set_waiting 0 (rg s), rd := RPoll\<rparr>)"

inductive ring_reachable :: "bool \<Rightarrow> nat \<Rightarrow> nat \<Rightarrow> ring_sys \<Rightarrow> bool" for be pool_size n where
  start: "ring_reachable be pool_size n (ring_start pool_size n)"
| step: "ring_reachable be pool_size n s \<Longrightarrow> ring_step be s s' \<Longrightarrow> ring_reachable be pool_size n s'"

subsection \<open>The parking handshake\<close>

text \<open>
  Armed or parked, the reader's flag is up, or whoever took it down has written a token or is about
  to. Parked behind a published record, the record's publisher has yet to look at the flag, or the
  flag has been answered.
\<close>

definition answered :: "ring_sys \<Rightarrow> bool" where
  "answered s \<longleftrightarrow> pipe s \<noteq> [] \<or> PToken \<in> set (prods s)"

definition park_inv :: "ring_sys \<Rightarrow> bool" where
  "park_inv s \<longleftrightarrow>
     (rd s \<in> {RArmed, RParked} \<longrightarrow> waiting (shared (rg s)) \<noteq> 0 \<or> answered s)
     \<and> (rd s = RParked \<and> ring_ready (rg s) (head s) \<longrightarrow>
          answered s \<or> PPublished \<in> set (prods s) \<or> PSwap \<in> set (prods s))"

lemma set_update_keep: "x \<in> set xs \<Longrightarrow> xs ! w \<noteq> x \<Longrightarrow> x \<in> set (xs[w := y])"
  by (metis in_set_conv_nth length_list_update nth_list_update_neq)

lemma ready_claim [simp]: "ring_ready (claim r p) h = ring_ready r h"
  by (simp add: ring_ready_def claim_def slot_index_def)

lemma ready_set_waiting [simp]: "ring_ready (set_waiting v r) h = ring_ready r h"
  by (simp add: ring_ready_def set_waiting_def slot_index_def)

lemma ready_note_overflow [simp]: "ring_ready (note_overflow r) h = ring_ready r h"
  by (simp add: ring_ready_def note_overflow_def slot_index_def)

lemma ready_store_record [simp]: "ring_ready (store_record be rec p r) h = ring_ready r h"
  by (cases "slot_index r p = slot_index r h"; cases "slot_index r h < length (slots r)")
     (auto simp: ring_ready_def store_record_def slot_index_def Let_def list_update_beyond)

lemma take_waiter_simps:
  "take_waiter r = (t, r') \<Longrightarrow> ring_ready r' h = ring_ready r h \<and> (t \<longleftrightarrow> waiting (shared r) \<noteq> 0)
     \<and> waiting (shared r') = 0"
  by (auto simp: take_waiter_def ring_ready_def slot_index_def split: if_splits)

lemma waiting_ops [simp]:
  "waiting (shared (claim r p)) = waiting (shared r)"
  "waiting (shared (store_record be rec p r)) = waiting (shared r)"
  "waiting (shared (release_slot p r)) = waiting (shared r)"
  "waiting (shared (note_overflow r)) = waiting (shared r)"
  "waiting (shared (set_waiting v r)) = v"
  by (simp_all add: claim_def store_record_def release_slot_def note_overflow_def set_waiting_def Let_def)

lemma park_inv_step: "ring_step be s s' \<Longrightarrow> park_inv s \<Longrightarrow> park_inv s'"
proof (induction rule: ring_step.induct)
  case (p_look w s rec pos)
  then show ?case
    by (cases "look_at (rg s) pos") (auto simp: park_inv_def answered_def intro: set_update_keep)
next
  case (p_swap w s took r')
  with take_waiter_simps [OF p_swap.hyps(3), of "head s"] show ?case
    by (auto simp: park_inv_def answered_def intro: set_update_keep set_update_memI)
qed (auto simp: park_inv_def answered_def intro: set_update_keep set_update_memI)

lemma park_inv_reachable: "ring_reachable be pool_size n s \<Longrightarrow> park_inv s"
proof (induction rule: ring_reachable.induct)
  case start
  then show ?case by (simp add: park_inv_def ring_start_def)
next
  case (step s s')
  then show ?case using park_inv_step by blast
qed

subsection \<open>The data invariant\<close>

text \<open>Positions as numbers: \<open>T\<close> claims so far, \<open>H\<close> records read.\<close>

abbreviation slot_at :: "Ring \<Rightarrow> nat \<Rightarrow> Slot" where
  "slot_at r P \<equiv> slots r ! (P mod length (slots r))"

definition published :: "bool \<Rightarrow> Ring \<Rightarrow> bytes \<Rightarrow> nat \<Rightarrow> bool" where
  "published be r rec P \<longleftrightarrow> seq (slot_at r P) = of_nat (P + 1) \<and> words_hold be rec (slot_words (slot_at r P))"

definition free_slot :: "Ring \<Rightarrow> nat \<Rightarrow> bool" where
  "free_slot r P \<longleftrightarrow> seq (slot_at r P) = of_nat P"

text \<open>What each producer state knows; \<open>H\<close> and \<open>T\<close> as above, \<open>cs\<close> the claimed records.\<close>

fun prod_ok :: "bool \<Rightarrow> Ring \<Rightarrow> nat \<Rightarrow> bytes list \<Rightarrow> prod_pc \<Rightarrow> bool" where
  "prod_ok be r H cs (PStart rec) \<longleftrightarrow> record_fits rec"
| "prod_ok be r H cs (PFull rec) \<longleftrightarrow> record_fits rec"
| "prod_ok be r H cs (PLook rec pos) \<longleftrightarrow> record_fits rec \<and> (\<exists>P \<le> length cs. pos = of_nat P)"
| "prod_ok be r H cs (PCas rec pos) \<longleftrightarrow> record_fits rec \<and>
     (\<exists>P \<le> length cs. pos = of_nat P \<and> (P = length cs \<longrightarrow> length cs < H + length (slots r)))"
| "prod_ok be r H cs (PWrite rec pos) \<longleftrightarrow> record_fits rec \<and>
     (\<exists>P. H \<le> P \<and> P < length cs \<and> pos = of_nat P \<and> cs ! P = rec \<and> free_slot r P)"
| "prod_ok be r H cs (PRelease rec pos) \<longleftrightarrow> record_fits rec \<and>
     (\<exists>P. H \<le> P \<and> P < length cs \<and> pos = of_nat P \<and> cs ! P = rec \<and> free_slot r P
        \<and> words_hold be rec (slot_words (slot_at r P)))"
| "prod_ok be r H cs _ \<longleftrightarrow> True"

fun writes_at :: "prod_pc \<Rightarrow> u64 option" where
  "writes_at (PWrite rec pos) = Some pos"
| "writes_at (PRelease rec pos) = Some pos"
| "writes_at _ = None"

definition data_ok :: "bool \<Rightarrow> Ring \<Rightarrow> u64 \<Rightarrow> prod_pc list \<Rightarrow> bytes list \<Rightarrow> u64 list list \<Rightarrow> bool" where
  "data_ok be r h ps cs rs \<longleftrightarrow>
     ring_shape r \<and> tail (shared r) = of_nat (length cs) \<and> h = of_nat (length rs)
     \<and> length rs \<le> length cs \<and> length cs \<le> length rs + length (slots r)
     \<and> (\<forall>P. length rs \<le> P \<and> P < length cs \<longrightarrow> published be r (cs ! P) P \<or>
              free_slot r P \<and> (\<exists>w < length ps. writes_at (ps ! w) = Some (of_nat P)))
     \<and> (\<forall>P. length cs \<le> P \<and> P < length rs + length (slots r) \<longrightarrow> free_slot r P)
     \<and> list_all2 (words_hold be) (take (length rs) cs) rs
     \<and> (\<forall>w < length ps. prod_ok be r (length rs) cs (ps ! w))
     \<and> (\<forall>v < length ps. \<forall>w < length ps. v \<noteq> w \<longrightarrow>
           writes_at (ps ! v) = writes_at (ps ! w) \<longrightarrow> writes_at (ps ! v) = None)"

definition data_inv :: "bool \<Rightarrow> ring_sys \<Rightarrow> bool" where
  "data_inv be s \<longleftrightarrow> data_ok be (rg s) (head s) (prods s) (claims s) (reads s)"

lemma of_nat_u64_inj: "a < 2 ^ 63 \<Longrightarrow> b < 2 ^ 63 \<Longrightarrow> of_nat a = (of_nat b :: u64) \<longleftrightarrow> a = b"
proof
  assume ab: "a < 2 ^ 63" "b < 2 ^ 63" and eq: "of_nat a = (of_nat b :: u64)"
  from arg_cong [OF eq, of unat] ab show "a = b" by (simp add: unat_of_nat)
qed simp

lemma sint_diff: "a < 2 ^ 63 \<Longrightarrow> b < 2 ^ 63 \<Longrightarrow> sint (of_nat a - of_nat b :: u64) = int a - int b"
proof -
  assume ab: "a < 2 ^ 63" "b < 2 ^ 63"
  have "(of_nat a - of_nat b :: u64) = word_of_int (int a - int b)" by simp
  then show ?thesis
    using ab by (simp only:) (subst signed_of_int, simp add: signed_take_bit_int_eq_self)
qed

lemma index_of_nat: "ring_shape r \<Longrightarrow> slot_index r (of_nat P) = P mod length (slots r)"
  using ring_index(1) [of r 0 P] by simp

lemma window_inj:
  assumes "H \<le> P" "P < H + c" "H \<le> Q" "Q < H + c" "P mod c = Q mod (c :: nat)"
  shows "P = Q"
proof -
  obtain i j where "P = H + i" "Q = H + j" using assms(1,3) le_Suc_ex by metis
  with assms index_inj [of i c j H] show ?thesis by auto
qed

text \<open>The flags of the parking handshake and the overflow counter play no part.\<close>

lemma prod_ok_ring: "slots r' = slots r \<Longrightarrow> prod_ok be r' H cs p = prod_ok be r H cs p"
  by (cases p) (auto simp: free_slot_def)

lemma data_ok_ring:
  assumes "slots r' = slots r" "mask r' = mask r" "tail (shared r') = tail (shared r)"
  shows "data_ok be r' h ps cs rs = data_ok be r h ps cs rs"
  using assms prod_ok_ring [OF assms(1)]
  by (simp add: data_ok_def ring_shape_def published_def free_slot_def)

lemma data_ok_set_waiting: "data_ok be (set_waiting v r) h ps cs rs = data_ok be r h ps cs rs"
  by (rule data_ok_ring) (simp_all add: set_waiting_def)

text \<open>A producer that is not writing moves to another such state.\<close>

lemma data_ok_move:
  assumes inv: "data_ok be r h ps cs rs" and w: "w < length ps"
    and "writes_at (ps ! w) = None" and "writes_at x = None"
    and "prod_ok be r (length rs) cs x"
  shows "data_ok be r h (ps[w := x]) cs rs"
proof -
  have same: "writes_at (ps[w := x] ! v) = writes_at (ps ! v)" if "v < length ps" for v
    using assms(3,4) w that by (cases "v = w") auto
  then have ex: "(\<exists>v < length (ps[w := x]). writes_at (ps[w := x] ! v) = Some p)
      \<longleftrightarrow> (\<exists>v < length ps. writes_at (ps ! v) = Some p)" for p by auto
  have "\<forall>v < length (ps[w := x]). prod_ok be r (length rs) cs (ps[w := x] ! v)"
    using inv assms(5) w by (auto simp: data_ok_def nth_list_update)
  with inv same show ?thesis unfolding data_ok_def ex by simp
qed

lemma data_ok_prod: "data_ok be r h ps cs rs \<Longrightarrow> w < length ps \<Longrightarrow> prod_ok be r (length rs) cs (ps ! w)"
  by (simp add: data_ok_def)

text \<open>Every slot is that of exactly one position of the window \<open>H .. H + c\<close>.\<close>

lemma window_repr:
  assumes "0 < c"
  obtains Q where "H \<le> Q" "Q < H + c" "Q mod c = P mod (c :: nat)"
proof (rule that [of "H + (P + (c - 1) * H) mod c"])
  have "(H + (P + (c - 1) * H) mod c) mod c = (P + (H + (c - 1) * H)) mod c"
    by (simp add: mod_simps ac_simps)
  also have "H + (c - 1) * H = c * H" using assms by (cases c) auto
  finally show "(H + (P + (c - 1) * H) mod c) mod c = P mod c" by simp
qed (use assms in auto)

lemma window_seq:
  assumes "data_ok be r h ps cs rs" and "length rs \<le> Q" and "Q < length rs + length (slots r)"
  shows "seq (slot_at r Q) = of_nat Q \<or> Q < length cs \<and> seq (slot_at r Q) = of_nat (Q + 1)"
  using assms by (cases "Q < length cs") (auto simp: data_ok_def published_def free_slot_def)

lemma look_at_seq:
  assumes "ring_shape r" and "seq (slot_at r P) = of_nat q" and "q < 2 ^ 63" and "P < 2 ^ 63"
  shows "look_at r (of_nat P) = (if q = P then SlotFree else if q < P then SlotFull else SlotTaken)"
  using assms sint_diff [of q P] by (auto simp: look_at_def index_of_nat Let_def)

text \<open>A look that sees a free slot at the tail proves that there is room; one that sees it unfreed
  proves that the ring is full.\<close>

lemma look_at_cases:
  assumes inv: "data_ok be r h ps cs rs" and small: "length cs < 2 ^ 62" and P: "P \<le> length cs"
  shows "(look_at r (of_nat P) = SlotFree \<and> P = length cs \<longrightarrow> length cs < length rs + length (slots r))
    \<and> (look_at r (of_nat P) = SlotFull \<longrightarrow> length cs = length rs + length (slots r))"
proof -
  let ?c = "length (slots r)" and ?H = "length rs" and ?T = "length cs"
  have sh: "ring_shape r" and HT: "?H \<le> ?T" "?T \<le> ?H + ?c" using inv by (auto simp: data_ok_def)
  have c: "2 \<le> ?c" "?c \<le> 2 ^ 62" using ring_shape_cap [OF sh] by auto
  have P63: "P < 2 ^ 63" using P small by simp
  have "0 < ?c" using c by linarith
  from window_repr [OF this] obtain Q where Q: "?H \<le> Q" "Q < ?H + ?c" "Q mod ?c = P mod ?c" by metis
  from window_seq [OF inv Q(1,2)] obtain q where
    q: "seq (slot_at r P) = of_nat q" "q = Q \<or> Q < ?T \<and> q = Q + 1" using Q(3) by metis
  have "q < 2 ^ 63" using q(2) Q(2) HT small c by auto
  note look = look_at_seq [OF sh q(1) this P63]
  show ?thesis
  proof (cases "P = ?H + ?c")
    case True
    then have "Q = ?H" using window_inj [OF Q(1,2), of ?H] Q(3) \<open>0 < ?c\<close> by simp
    with q(2) have "q < P" using True c by auto
    with look have "look_at r (of_nat P) = SlotFull" by simp
    with True P HT show ?thesis by simp
  next
    case False
    then have "P \<le> Q"
      using window_inj [OF Q(1,2), of P] Q P HT by (cases "?H \<le> P") auto
    with q(2) look False P HT show ?thesis by auto
  qed
qed

lemma data_ok_look:
  assumes inv: "data_ok be r h ps cs rs" and small: "length cs < 2 ^ 62" and w: "w < length ps"
    and look: "ps ! w = PLook rec pos"
  shows "data_ok be r h (ps[w := after_look rec pos (look_at r pos)]) cs rs"
proof -
  from data_ok_prod [OF inv w] look obtain P where P: "P \<le> length cs" "pos = of_nat P" "record_fits rec" by auto
  with look_at_cases [OF inv small P(1)] have
    "prod_ok be r (length rs) cs (after_look rec pos (look_at r pos))"
    by (cases "look_at r (of_nat P)") auto
  moreover have "writes_at (after_look rec pos (look_at r pos)) = None" by (cases "look_at r pos") auto
  ultimately show ?thesis using data_ok_move [OF inv w] look by simp
qed

text \<open>Updating the slot of one position of the window leaves the others alone.\<close>

lemma slot_at_update:
  assumes "slots r' = (slots r)[P mod length (slots r) := x]"
    and "H \<le> P" "P < H + length (slots r)" "H \<le> Q" "Q < H + length (slots r)"
  shows "slot_at r' Q = (if Q = P then x else slot_at r Q)"
proof -
  have "0 < length (slots r)" using assms(2,3) by linarith
  then show ?thesis
    using assms window_inj [OF assms(2-5)] by (auto simp: nth_list_update)
qed

lemma slot_at_wrap: "slot_at r (P + length (slots r)) = slot_at r P"
  by simp

lemma prod_ok_append: "prod_ok be r H cs p \<Longrightarrow> prod_ok be r H (cs @ [rec]) p"
proof (cases p)
  case (PLook x pos)
  moreover assume "prod_ok be r H cs p"
  ultimately obtain P where "P \<le> length cs" "pos = of_nat P" "record_fits x" by auto
  then show ?thesis using PLook by (auto intro!: exI [of _ P])
next
  case (PCas x pos)
  moreover assume "prod_ok be r H cs p"
  ultimately obtain P where "P \<le> length cs" "pos = of_nat P" "record_fits x" by auto
  then show ?thesis using PCas by (auto intro!: exI [of _ P])
qed (auto simp: nth_append)

lemma writer_position:
  assumes "data_ok be r h ps cs rs" and "v < length ps" and "writes_at (ps ! v) = Some pos"
  obtains P where "length rs \<le> P" "P < length cs" "pos = of_nat P" "free_slot r P"
  using data_ok_prod [OF assms(1,2)] assms(3) by (cases "ps ! v") auto

lemma writers_distinct_update:
  assumes "\<forall>v < length ps. \<forall>u < length ps. v \<noteq> u \<longrightarrow> writes_at (ps ! v) = writes_at (ps ! u) \<longrightarrow> writes_at (ps ! v) = None"
    and "\<And>v. v < length ps \<Longrightarrow> v \<noteq> w \<Longrightarrow> writes_at x \<noteq> None \<Longrightarrow> writes_at (ps ! v) \<noteq> writes_at x"
  shows "\<forall>v < length (ps[w := x]). \<forall>u < length (ps[w := x]). v \<noteq> u \<longrightarrow>
    writes_at (ps[w := x] ! v) = writes_at (ps[w := x] ! u) \<longrightarrow> writes_at (ps[w := x] ! v) = None"
proof (intro allI impI)
  fix v u
  assume v: "v < length (ps[w := x])" and u: "u < length (ps[w := x])" and "v \<noteq> u"
    and eq: "writes_at (ps[w := x] ! v) = writes_at (ps[w := x] ! u)"
  consider "v = w" "u \<noteq> w" | "u = w" "v \<noteq> w" | "v \<noteq> w" "u \<noteq> w" using \<open>v \<noteq> u\<close> by blast
  then show "writes_at (ps[w := x] ! v) = None"
  proof cases
    case 1
    with v u eq have "writes_at (ps ! u) = writes_at x" "u < length ps" by auto
    with 1 assms(2) [of u] have "writes_at x = None" by blast
    with 1 v show ?thesis by simp
  next
    case 2
    with v u eq have "writes_at (ps ! v) = writes_at x" "v < length ps" by auto
    with 2 assms(2) [of v] have "writes_at x = None" by blast
    with 2 v eq u show ?thesis by simp
  next
    case 3
    with v u eq assms(1) \<open>v \<noteq> u\<close> show ?thesis by auto
  qed
qed

lemma data_ok_cas:
  assumes inv: "data_ok be r h ps cs rs" and small: "length cs < 2 ^ 62" and w: "w < length ps"
    and cas: "ps ! w = PCas rec pos" and tl: "tail (shared r) = pos"
  shows "data_ok be (claim r pos) h (ps[w := PWrite rec pos]) (cs @ [rec]) rs"
proof -
  let ?T = "length cs" and ?H = "length rs" and ?c = "length (slots r)" and ?ps = "ps[w := PWrite rec pos]"
  have pos: "pos = of_nat ?T" using inv tl by (simp add: data_ok_def)
  from data_ok_prod [OF inv w] cas obtain P where P: "P \<le> ?T" "pos = of_nat P" "record_fits rec"
    "P = ?T \<longrightarrow> ?T < ?H + ?c" by auto
  have "P = ?T" using P pos small of_nat_u64_inj [of P ?T] by simp
  with P have room: "?T < ?H + ?c" by simp
  have HT: "?H \<le> ?T" using inv by (simp add: data_ok_def)
  have free: "free_slot r ?T" using inv room by (simp add: data_ok_def)
  have sl: "slots (claim r pos) = slots r" "mask (claim r pos) = mask r"
    "tail (shared (claim r pos)) = of_nat (length (cs @ [rec]))" by (simp_all add: claim_def pos)
  have pw: "prod_ok be r ?H (cs @ [rec]) (PWrite rec pos)" using P(3) pos HT free by auto
  have prods: "\<forall>v < length ?ps. prod_ok be (claim r pos) ?H (cs @ [rec]) (?ps ! v)"
    using pw data_ok_prod [OF inv] prod_ok_append w
    by (simp add: nth_list_update prod_ok_ring [OF sl(1)])
  have fresh: "writes_at (ps ! v) \<noteq> Some pos" if "v < length ps" for v
  proof
    assume "writes_at (ps ! v) = Some pos"
    from writer_position [OF inv that this] obtain Q where "Q < ?T" "pos = of_nat Q" by blast
    with pos small of_nat_u64_inj [of Q ?T] show False by simp
  qed
  have dist: "\<forall>v < length ?ps. \<forall>u < length ?ps. v \<noteq> u \<longrightarrow>
      writes_at (?ps ! v) = writes_at (?ps ! u) \<longrightarrow> writes_at (?ps ! v) = None"
    using inv fresh by (intro writers_distinct_update) (auto simp: data_ok_def)
  have wr: "\<exists>v < length ?ps. writes_at (?ps ! v) = Some p"
    if "\<exists>v < length ps. writes_at (ps ! v) = Some p \<or> p = pos" for p
    using that cas w by (metis length_list_update nth_list_update_eq nth_list_update_neq option.distinct(1) writes_at.simps)
  have slot: "published be (claim r pos) ((cs @ [rec]) ! Q) Q \<or>
      free_slot (claim r pos) Q \<and> (\<exists>v < length ?ps. writes_at (?ps ! v) = Some (of_nat Q))"
    if "?H \<le> Q" "Q < length (cs @ [rec])" for Q
  proof (cases "Q = ?T")
    case True
    have "free_slot (claim r pos) Q" using True free by (simp add: free_slot_def sl)
    moreover have "\<exists>v < length ?ps. writes_at (?ps ! v) = Some (of_nat Q)" using wr [of pos] w pos True by blast
    ultimately show ?thesis by blast
  next
    case False
    with that inv wr show ?thesis by (fastforce simp: data_ok_def published_def free_slot_def sl nth_append)
  qed
  show ?thesis
    unfolding data_ok_def
  proof (intro conjI)
    show "list_all2 (words_hold be) (take ?H (cs @ [rec])) rs" using inv HT by (simp add: data_ok_def)
  qed (use inv sl HT room prods dist slot in \<open>auto simp: data_ok_def ring_shape_def free_slot_def\<close>)
qed

text \<open>The two steps of the producer that owns position \<open>P\<close>: they replace its slot \<open>P\<close> by \<open>x\<close>.\<close>

lemma data_ok_own_slot:
  assumes inv: "data_ok be r h ps cs rs" and small: "length cs < 2 ^ 62" and w: "w < length ps"
    and own: "writes_at (ps ! w) = Some (of_nat P)" and P: "length rs \<le> P" "P < length cs"
    and r': "slots r' = (slots r)[P mod length (slots r) := x]" "mask r' = mask r" "tail (shared r') = tail (shared r)"
    and len: "length (slot_words x) = RECORD_WORDS"
    and new: "writes_at p = Some (of_nat P) \<and> seq x = of_nat P
       \<or> writes_at p = None \<and> seq x = of_nat (P + 1) \<and> words_hold be (cs ! P) (slot_words x)"
    and ok: "prod_ok be r' (length rs) cs p"
  shows "data_ok be r' h (ps[w := p]) cs rs"
proof -
  let ?T = "length cs" and ?H = "length rs" and ?c = "length (slots r)" and ?ps = "ps[w := p]"
  have sh: "ring_shape r" and HT: "?H \<le> ?T" "?T \<le> ?H + ?c" using inv by (auto simp: data_ok_def)
  have c: "?c \<le> 2 ^ 62" using ring_shape_cap [OF sh] by simp
  have win: "P < ?H + ?c" using P HT by simp
  have at: "slot_at r' Q = (if Q = P then x else slot_at r Q)" if "?H \<le> Q" "Q < ?H + ?c" for Q
    using slot_at_update [OF r'(1) P(1) win that] .
  have len': "length (slots r') = ?c" using r'(1) by simp
  have sh': "ring_shape r'"
    using sh len set_update_subset_insert [of "slots r" "P mod ?c" x]
    by (fastforce simp: ring_shape_def r')
  have other: "writes_at (ps ! v) = Some (of_nat Q) \<Longrightarrow> v < length ps \<Longrightarrow> v \<noteq> w \<Longrightarrow> Q \<noteq> P" for v Q
    using inv own w unfolding data_ok_def by (metis option.distinct(1))
  have prods: "prod_ok be r' ?H cs (?ps ! v)" if v: "v < length ?ps" for v
  proof (cases "v = w")
    case False
    with v have pv: "prod_ok be r ?H cs (ps ! v)" and v': "v < length ps" using data_ok_prod [OF inv] by auto
    have keep: "Q \<noteq> P \<Longrightarrow> ?H \<le> Q \<Longrightarrow> Q < ?T \<Longrightarrow> slot_at r' Q = slot_at r Q" for Q using at HT by simp
    show ?thesis using pv False other [OF _ v' False] keep len'
      by (cases "ps ! v") (fastforce simp: free_slot_def)+
  qed (use w ok in simp)
  have dist: "\<forall>v < length ?ps. \<forall>u < length ?ps. v \<noteq> u \<longrightarrow>
      writes_at (?ps ! v) = writes_at (?ps ! u) \<longrightarrow> writes_at (?ps ! v) = None"
  proof (rule writers_distinct_update)
    show "v < length ps \<Longrightarrow> v \<noteq> w \<Longrightarrow> writes_at p \<noteq> None \<Longrightarrow> writes_at (ps ! v) \<noteq> writes_at p" for v
      using new other [of v P] by auto
  qed (use inv in \<open>simp add: data_ok_def\<close>)
  have slot: "published be r' (cs ! Q) Q \<or>
      free_slot r' Q \<and> (\<exists>v < length ?ps. writes_at (?ps ! v) = Some (of_nat Q))"
    if Q: "?H \<le> Q" "Q < ?T" for Q
  proof (cases "Q = P")
    case True
    with new at [OF P(1) win] w show ?thesis
      by (auto simp: published_def free_slot_def intro!: exI [of _ w])
  next
    case False
    have "(of_nat Q :: u64) \<noteq> of_nat P" using False Q P small of_nat_u64_inj [of Q P] by simp
    then have "v \<noteq> w" if "writes_at (ps ! v) = Some (of_nat Q)" for v using that own by auto
    then have "\<exists>v < length ps. writes_at (ps ! v) = Some (of_nat Q) \<Longrightarrow>
        \<exists>v < length ?ps. writes_at (?ps ! v) = Some (of_nat Q)" by force
    moreover have "slot_at r' Q = slot_at r Q" using at Q HT False by simp
    ultimately show ?thesis using inv Q unfolding data_ok_def published_def free_slot_def by metis
  qed
  have free: "free_slot r' Q" if "?T \<le> Q" "Q < ?H + ?c" for Q
    using that inv at [of Q] P HT by (auto simp: data_ok_def free_slot_def)
  show ?thesis
    using inv sh' HT prods dist slot free r'(3) unfolding data_ok_def len' by auto
qed

lemma data_ok_write:
  assumes inv: "data_ok be r h ps cs rs" and small: "length cs < 2 ^ 62" and w: "w < length ps"
    and st: "ps ! w = PWrite rec pos"
  shows "data_ok be (store_record be rec pos r) h (ps[w := PRelease rec pos]) cs rs"
proof -
  from data_ok_prod [OF inv w] st obtain P where P: "length rs \<le> P" "P < length cs" "pos = of_nat P"
    "cs ! P = rec" "free_slot r P" "record_fits rec" by auto
  let ?c = "length (slots r)"
  have sh: "ring_shape r" and win: "P < length rs + ?c" using inv P by (auto simp: data_ok_def)
  have i: "P mod ?c < ?c" using ring_index(2) [OF sh, of "of_nat P"] index_of_nat [OF sh] by simp
  let ?x = "(slot_at r P)\<lparr>slot_words := store_words (record_words be rec) (slot_words (slot_at r P))\<rparr>"
  have old: "length (slot_words (slot_at r P)) = RECORD_WORDS" using sh i by (simp add: ring_shape_def)
  note hold = store_words_hold [OF P(6) old, of be]
  have sl: "slots (store_record be rec pos r) = (slots r)[P mod ?c := ?x]"
    by (simp add: store_record_def P(3) index_of_nat [OF sh] Let_def)
  have at: "slot_at (store_record be rec pos r) P = ?x" using slot_at_update [OF sl P(1) win P(1) win] by simp
  show ?thesis
  proof (rule data_ok_own_slot [OF inv small w _ P(1,2) sl])
    show "prod_ok be (store_record be rec pos r) (length rs) cs (PRelease rec pos)"
      using P at hold by (auto simp: free_slot_def)
  qed (use st P hold in \<open>auto simp: store_record_def Let_def free_slot_def words_hold_def\<close>)
qed

lemma data_ok_release:
  assumes inv: "data_ok be r h ps cs rs" and small: "length cs < 2 ^ 62" and w: "w < length ps"
    and st: "ps ! w = PRelease rec pos"
  shows "data_ok be (release_slot pos r) h (ps[w := PPublished]) cs rs"
proof -
  from data_ok_prod [OF inv w] st obtain P where P: "length rs \<le> P" "P < length cs" "pos = of_nat P"
    "cs ! P = rec" "words_hold be rec (slot_words (slot_at r P))" by auto
  have sh: "ring_shape r" using inv by (simp add: data_ok_def)
  have sl: "slots (release_slot pos r) = (slots r)[P mod length (slots r) := (slot_at r P)\<lparr>seq := pos + 1\<rparr>]"
    by (simp add: release_slot_def P(3) index_of_nat [OF sh] Let_def)
  show ?thesis
    by (rule data_ok_own_slot [OF inv small w _ P(1,2) sl])
      (use st P in \<open>auto simp: release_slot_def Let_def words_hold_def add.commute\<close>)
qed

text \<open>The reader takes position \<open>H\<close>: it was published, and its slot becomes that of \<open>H + c\<close>.\<close>

lemma data_ok_head_published:
  assumes inv: "data_ok be r h ps cs rs" and small: "length cs < 2 ^ 62" and ready: "ring_ready r h"
  shows "length rs < length cs \<and> published be r (cs ! length rs) (length rs)"
proof -
  let ?H = "length rs"
  have sh: "ring_shape r" and h: "h = of_nat ?H" and HT: "?H \<le> length cs" using inv by (auto simp: data_ok_def)
  have sq: "seq (slot_at r ?H) = of_nat (?H + 1)"
    using ready index_of_nat [OF sh, of ?H] by (simp add: ring_ready_def h add.commute)
  have nf: "\<not> free_slot r ?H"
    using sq small HT of_nat_u64_inj [of "?H + 1" ?H] by (simp add: free_slot_def del: of_nat_add of_nat_Suc)
  have "0 < length (slots r)" using ring_shape_cap [OF sh] by linarith
  with nf inv HT have "?H < length cs" by (cases "?H = length cs") (auto simp: data_ok_def)
  with inv nf show ?thesis by (auto simp: data_ok_def)
qed

lemma data_ok_pop:
  assumes inv: "data_ok be r h ps cs rs" and small: "length cs < 2 ^ 62"
    and pop: "pop_slot r h = (Some ws, r', h')"
  shows "data_ok be r' h' ps cs (rs @ [ws])"
proof -
  let ?T = "length cs" and ?H = "length rs" and ?c = "length (slots r)"
  have sh: "ring_shape r" and h: "h = of_nat ?H" and HT: "?H \<le> ?T" "?T \<le> ?H + ?c"
    using inv by (auto simp: data_ok_def)
  have "ring_ready r h" using pop by (auto simp: pop_slot_def ring_ready_def Let_def split: if_splits)
  from data_ok_head_published [OF inv small this] have
    lt: "?H < ?T" and pub: "published be r (cs ! ?H) ?H" by auto
  have c: "2 \<le> ?c" "?c \<le> 2 ^ 62" using ring_shape_cap [OF sh] by auto
  have i: "?H mod ?c < ?c" using c by (intro mod_less_divisor) linarith
  obtain k where "?c = 2 ^ k" "mask r = 2 ^ k - 1" using sh by (auto simp: ring_shape_def)
  then have mask: "mask r + 1 = of_nat ?c" by simp
  let ?x = "(slot_at r ?H)\<lparr>seq := of_nat (?H + ?c)\<rparr>"
  have ws: "ws = slot_words (slot_at r ?H)" and h': "h' = of_nat (Suc ?H)"
    and r': "r' = r\<lparr>slots := (slots r)[?H mod ?c := ?x]\<rparr>"
    using pop index_of_nat [OF sh, of ?H] mask
    by (auto simp: pop_slot_def Let_def h add.commute split: if_splits)
  have len: "length (slots r') = ?c" "tail (shared r') = tail (shared r)" by (simp_all add: r')
  have at: "slot_at r' Q = slot_at r Q" if "?H < Q" "Q < ?H + ?c" for Q
  proof -
    have "?H < ?H + ?c" using c by linarith
    from slot_at_update [of r' r ?H ?x ?H Q, OF _ _ this] that show ?thesis by (simp add: r')
  qed
  have last: "free_slot r' (?H + ?c)"
    using i by (simp add: free_slot_def r' len)
  have sh': "ring_shape r'"
    using sh i set_update_subset_insert [of "slots r" "?H mod ?c" ?x] nth_mem [OF i]
    by (fastforce simp: ring_shape_def r')
  have prods: "prod_ok be r' (Suc ?H) cs (ps ! v)" if v: "v < length ps" for v
  proof -
    have pv: "prod_ok be r ?H cs (ps ! v)" using data_ok_prod [OF inv v] .
    have nH: "free_slot r Q \<Longrightarrow> ?H \<le> Q \<Longrightarrow> Suc ?H \<le> Q" for Q
      using pub lt small of_nat_u64_inj [of "?H + 1" ?H]
      by (cases "Q = ?H") (auto simp: published_def free_slot_def simp del: of_nat_add of_nat_Suc)
    have keep: "Suc ?H \<le> Q \<Longrightarrow> Q < ?T \<Longrightarrow> slot_at r' Q = slot_at r Q" for Q using at HT by simp
    show ?thesis
    proof (cases "ps ! v")
      case (PCas rec pos)
      with pv obtain P where "record_fits rec" "P \<le> ?T" "pos = of_nat P" "P = ?T \<longrightarrow> ?T < ?H + ?c" by auto
      with PCas len show ?thesis by (auto intro!: exI [of _ P])
    next
      case (PWrite rec pos)
      with pv obtain P where P: "record_fits rec" "?H \<le> P" "P < ?T" "pos = of_nat P" "cs ! P = rec" "free_slot r P"
        by auto
      with PWrite keep nH show ?thesis by (auto simp: free_slot_def intro!: exI [of _ P])
    next
      case (PRelease rec pos)
      with pv obtain P where P: "record_fits rec" "?H \<le> P" "P < ?T" "pos = of_nat P" "cs ! P = rec" "free_slot r P"
        "words_hold be rec (slot_words (slot_at r P))" by auto
      with PRelease keep nH show ?thesis by (auto simp: free_slot_def intro!: exI [of _ P])
    qed (use pv in auto)
  qed
  have slot: "published be r' (cs ! Q) Q \<or> free_slot r' Q \<and> (\<exists>v < length ps. writes_at (ps ! v) = Some (of_nat Q))"
    if "Suc ?H \<le> Q" "Q < ?T" for Q
    using inv that at [of Q] HT unfolding data_ok_def published_def free_slot_def by auto
  have free: "free_slot r' Q" if "?T \<le> Q" "Q < Suc ?H + ?c" for Q
  proof (cases "Q = ?H + ?c")
    case False
    then show ?thesis using inv that at [of Q] lt by (auto simp: data_ok_def free_slot_def)
  qed (use last in simp)
  have "list_all2 (words_hold be) (take (Suc ?H) cs) (rs @ [ws])"
    using inv lt pub by (auto simp: take_Suc_conv_app_nth data_ok_def ws published_def intro!: list_all2_appendI)
  with inv sh' h' lt HT prods slot free len show ?thesis
    unfolding data_ok_def by auto
qed

lemma data_ok_reload:
  assumes inv: "data_ok be r h ps cs rs" and w: "w < length ps" and "writes_at (ps ! w) = None" and "record_fits rec"
  shows "data_ok be r h (ps[w := PLook rec (tail (shared r))]) cs rs"
proof -
  have "tail (shared r) = of_nat (length cs)" using inv by (simp add: data_ok_def)
  then have "prod_ok be r (length rs) cs (PLook rec (tail (shared r)))" using assms(4) by auto
  then show ?thesis using data_ok_move [OF inv w assms(3)] by simp
qed

lemma ring_step_claims: "ring_step be s s' \<Longrightarrow> length (claims s) \<le> length (claims s')"
  by (induction rule: ring_step.induct) auto

lemma data_inv_step:
  "ring_step be s s' \<Longrightarrow> length (claims s') < 2 ^ 62 \<Longrightarrow> data_inv be s \<Longrightarrow> data_inv be s'"
proof (induction rule: ring_step.induct)
  case (p_begin w s rec)
  then show ?case by (auto simp: data_inv_def intro!: data_ok_move)
next
  case (p_load_tail w s rec)
  with data_ok_prod [of be "rg s" "head s" "prods s" "claims s" "reads s" w] show ?case
    by (auto simp: data_inv_def intro: data_ok_reload)
next
  case (p_look w s rec pos)
  then show ?case by (simp add: data_inv_def data_ok_look)
next
  case (p_cas_ok w s rec pos)
  then show ?case by (simp add: data_inv_def data_ok_cas)
next
  case (p_cas_fail w s rec pos)
  with data_ok_prod [of be "rg s" "head s" "prods s" "claims s" "reads s" w] show ?case
    by (auto simp: data_inv_def intro: data_ok_reload)
next
  case (p_write w s rec pos)
  then show ?case by (simp add: data_inv_def data_ok_write)
next
  case (p_release w s rec pos)
  then show ?case by (simp add: data_inv_def data_ok_release)
next
  case (p_swap w s took r')
  then have "slots r' = slots (rg s)" "mask r' = mask (rg s)" "tail (shared r') = tail (shared (rg s))"
    by (auto simp: take_waiter_def split: if_splits)
  from data_ok_ring [OF this] p_swap show ?case by (auto simp: data_inv_def intro!: data_ok_move)
next
  case (p_overflow w s)
  have "slots (note_overflow (rg s)) = slots (rg s)" "mask (note_overflow (rg s)) = mask (rg s)"
    "tail (shared (note_overflow (rg s))) = tail (shared (rg s))" by (simp_all add: note_overflow_def)
  from data_ok_ring [OF this] p_overflow show ?case by (auto simp: data_inv_def intro!: data_ok_move)
next
  case (r_pop s ws r' h')
  then show ?case by (simp add: data_inv_def data_ok_pop)
next
  case (r_arm s)
  then show ?case by (simp add: data_inv_def data_ok_set_waiting)
next
  case (r_disarm s)
  then show ?case by (simp add: data_inv_def data_ok_set_waiting)
qed (auto simp: data_inv_def intro!: data_ok_move)

lemma data_inv_start:
  assumes "pool_size \<le> 2 ^ 60"
  shows "data_inv be (ring_start pool_size n)"
proof -
  let ?r = "Ring_new pool_size"
  note ok = ring_new_ok [OF assms]
  have sh: "ring_shape ?r" using ok(1) by (simp add: ring_ok_def)
  have "tail (shared ?r) = 0" by (simp add: Ring_new_def Let_def)
  moreover have "free_slot ?r P" if "P < length (slots ?r)" for P
    using ok(1) that index_of_nat [OF sh, of P]
    by (auto simp: ring_ok_def ring_cap_def free_slot_def unread_def Ring_new_def Let_def)
  ultimately show ?thesis using sh by (simp add: data_inv_def data_ok_def ring_start_def)
qed

lemma data_inv_reachable:
  "ring_reachable be pool_size n s \<Longrightarrow> pool_size \<le> 2 ^ 60 \<Longrightarrow> length (claims s) < 2 ^ 62 \<Longrightarrow> data_inv be s"
proof (induction rule: ring_reachable.induct)
  case start
  then show ?case using data_inv_start by blast
next
  case (step s s')
  then show ?case using data_inv_step ring_step_claims by (meson le_less_trans)
qed

lemma ring_step_cap: "ring_step be s s' \<Longrightarrow> length (slots (rg s')) = length (slots (rg s))"
  by (induction rule: ring_step.induct)
    (auto simp: claim_def store_record_def release_slot_def note_overflow_def set_waiting_def
      take_waiter_def pop_slot_def Let_def split: if_splits)

lemma ring_reachable_cap:
  "ring_reachable be pool_size n s \<Longrightarrow> length (slots (rg s)) = length (slots (Ring_new pool_size))"
  by (induction rule: ring_reachable.induct) (auto simp: ring_start_def ring_step_cap)

text \<open>With no publish under way, the oldest unread record is ready.\<close>

lemma data_ok_idle_ready:
  assumes inv: "data_ok be r h ps cs rs" and lt: "length rs < length cs" and idle: "set ps \<subseteq> {PIdle}"
  shows "ring_ready r h"
proof -
  have none: "\<not> (\<exists>w < length ps. writes_at (ps ! w) = Some p)" for p
    using idle nth_mem [of _ ps] by fastforce
  have "\<forall>P. length rs \<le> P \<and> P < length cs \<longrightarrow> published be r (cs ! P) P \<or>
      free_slot r P \<and> (\<exists>w < length ps. writes_at (ps ! w) = Some (of_nat P))"
    and sh: "ring_shape r" and h: "h = of_nat (length rs)"
    using inv by (auto simp: data_ok_def)
  with lt none have "seq (slot_at r (length rs)) = of_nat (length rs + 1)"
    unfolding published_def by blast
  with index_of_nat [OF sh, of "length rs"] h show ?thesis
    by (simp add: ring_ready_def add.commute)
qed

subsection \<open>Properties\<close>

text \<open>C5: Concurrent workers never corrupt, lose or duplicate a completion in the ring. In every
  interleaving of any number of publishing workers with the reader, what the reader has taken are the
  claimed records in claim order, word for word; at most as many as the capacity are unread, and the
  capacity is at least the pool size; a worker is told "full" only when that many are unread; and once
  no worker is in the middle of a publish, every unread record is ready for the reader.\<close>

theorem ring_concurrent_safe:
  assumes "ring_reachable be pool_size n s" and "pool_size \<le> 2 ^ 60" and "length (claims s) < 2 ^ 62"
  shows "list_all2 (words_hold be) (take (length (reads s)) (claims s)) (reads s)
    \<and> length (reads s) \<le> length (claims s)
    \<and> length (claims s) \<le> length (reads s) + length (slots (rg s)) \<and> pool_size \<le> length (slots (rg s))
    \<and> (\<forall>w < length (prods s). \<forall>rec pos. prods s ! w = PLook rec pos \<and> look_at (rg s) pos = SlotFull \<longrightarrow>
          length (claims s) = length (reads s) + length (slots (rg s)))
    \<and> (length (reads s) < length (claims s) \<and> set (prods s) \<subseteq> {PIdle} \<longrightarrow> ring_ready (rg s) (head s))"
proof -
  have inv: "data_ok be (rg s) (head s) (prods s) (claims s) (reads s)"
    using data_inv_reachable [OF assms] by (simp add: data_inv_def)
  have "length (claims s) = length (reads s) + length (slots (rg s))"
    if "w < length (prods s)" "prods s ! w = PLook rec pos" "look_at (rg s) pos = SlotFull" for w rec pos
    using data_ok_prod [OF inv that(1)] that look_at_cases [OF inv assms(3)] by auto
  moreover have "length (reads s) < length (claims s) \<Longrightarrow> set (prods s) \<subseteq> {PIdle} \<Longrightarrow> ring_ready (rg s) (head s)"
    by (rule data_ok_idle_ready [OF inv])
  moreover have "pool_size \<le> length (slots (rg s))"
    using ring_new_ok(2) [OF assms(2)] ring_reachable_cap [OF assms(1)] by (simp add: ring_cap_def)
  ultimately show ?thesis using inv by (auto simp: data_ok_def)
qed

text \<open>C6: A completion is never left behind a parked reader. In every interleaving of the publishing
  workers' wake protocol with the reader's arm, re-check and park: when the reader is parked on the
  pipe and no worker is still between its publish and its wake, but a published record is unread, the
  pipe holds an entry, so the parked read returns.\<close>

theorem ring_no_lost_wakeup:
  assumes "ring_reachable be pool_size n s" and "pool_size \<le> 2 ^ 60" and "length (claims s) < 2 ^ 62"
    and "rd s = RParked" and "set (prods s) \<subseteq> {PIdle}" and "length (reads s) < length (claims s)"
  shows "pipe s \<noteq> []"
proof -
  have inv: "data_ok be (rg s) (head s) (prods s) (claims s) (reads s)"
    using data_inv_reachable [OF assms(1-3)] by (simp add: data_inv_def)
  have "ring_ready (rg s) (head s)" by (rule data_ok_idle_ready [OF inv assms(6,5)])
  with park_inv_reachable [OF assms(1)] assms(4,5) show ?thesis
    by (auto simp: park_inv_def answered_def)
qed

text \<open>
  A run for the witnesses: one worker, a reader that arms and parks first, then one publish through
  to the wake token.
\<close>

definition wrec :: bytes where "wrec = u64_to_ne_bytes False 7"

definition parked_sys :: "prod_pc \<Rightarrow> Ring \<Rightarrow> pipe_entry list \<Rightarrow> bytes list \<Rightarrow> ring_sys" where
  "parked_sys p r pi cs = \<lparr>rg = r, head = 0, overflow_seen = 0, prods = [p], rd = RParked,
                          pipe = pi, claims = cs, reads = []\<rparr>"

lemma wrec_fits: "record_fits wrec"
  by (simp add: record_fits_def wrec_def record_consts)

definition wring :: Ring where "wring = set_waiting 1 (Ring_new 2)"

lemma Ring_new_2: "Ring_new 2 = \<lparr>shared = \<lparr>capacity = 2, slot_bytes = 128, waiting = 0, overflow = 0, tail = 0\<rparr>,
    slots = [\<lparr>seq = 0, slot_words = replicate 8 0\<rparr>, \<lparr>seq = 1, slot_words = replicate 8 0\<rparr>], mask = 1\<rparr>"
  by (simp add: Ring_new_def next_power_of_two_def pow2_from.simps record_consts RING_SLOT_BYTES_def
      Let_def upt_rec numeral_2_eq_2)

lemma parked_reachable: "ring_reachable False 2 1 (parked_sys PIdle wring [] [])"
proof -
  let ?a = "(ring_start 2 1)\<lparr>rg := wring, rd := RArmed\<rparr>"
  have "ring_step False (ring_start 2 1) ?a"
    using ring_step.r_arm [of "ring_start 2 1" False] by (simp add: ring_start_def wring_def)
  then have a: "ring_reachable False 2 1 ?a" by (rule ring_reachable.step [OF ring_reachable.start])
  have "\<not> ring_ready wring 0" "\<not> overflow_pending ?a"
    by (simp_all add: ring_ready_def overflow_pending_def wring_def set_waiting_def Ring_new_2
        slot_index_def ring_start_def)
  then have "ring_step False ?a (parked_sys PIdle wring [] [])"
    using ring_step.r_check [of ?a False] by (simp add: ring_start_def parked_sys_def)
  then show ?thesis by (rule ring_reachable.step [OF a])
qed

lemma published_reachable:
  "\<exists>r. ring_reachable False 2 1 (parked_sys PIdle r [Token] [wrec])"
proof -
  let ?s = "parked_sys"
  have step: "ring_reachable False 2 1 x \<Longrightarrow> ring_step False x y \<Longrightarrow> ring_reachable False 2 1 y" for x y
    by (rule ring_reachable.step)
  have "ring_step False (?s PIdle wring [] []) (?s (PStart wrec) wring [] [])"
    using ring_step.p_begin [of 0 "?s PIdle wring [] []" wrec False] wrec_fits by (simp add: parked_sys_def)
  note r1 = step [OF parked_reachable this]
  have tl: "tail (shared wring) = 0" by (simp add: wring_def set_waiting_def Ring_new_2)
  have "ring_step False (?s (PStart wrec) wring [] []) (?s (PLook wrec 0) wring [] [])"
    using ring_step.p_load_tail [of 0 "?s (PStart wrec) wring [] []" wrec False] by (simp add: parked_sys_def tl)
  note r2 = step [OF r1 this]
  have "look_at wring 0 = SlotFree"
    by (simp add: look_at_def wring_def set_waiting_def Ring_new_2 slot_index_def)
  then have "ring_step False (?s (PLook wrec 0) wring [] []) (?s (PCas wrec 0) wring [] [])"
    using ring_step.p_look [of 0 "?s (PLook wrec 0) wring [] []" wrec 0 False] by (simp add: parked_sys_def)
  note r3 = step [OF r2 this]
  have "ring_step False (?s (PCas wrec 0) wring [] []) (?s (PWrite wrec 0) (claim wring 0) [] [wrec])"
    using ring_step.p_cas_ok [of 0 "?s (PCas wrec 0) wring [] []" wrec 0 False] by (simp add: parked_sys_def tl)
  note r4 = step [OF r3 this]
  let ?r5 = "store_record False wrec 0 (claim wring 0)"
  have "ring_step False (?s (PWrite wrec 0) (claim wring 0) [] [wrec]) (?s (PRelease wrec 0) ?r5 [] [wrec])"
    using ring_step.p_write [of 0 "?s (PWrite wrec 0) (claim wring 0) [] [wrec]" wrec 0 False]
    by (simp add: parked_sys_def)
  note r5 = step [OF r4 this]
  let ?r6 = "release_slot 0 ?r5"
  have "ring_step False (?s (PRelease wrec 0) ?r5 [] [wrec]) (?s PPublished ?r6 [] [wrec])"
    using ring_step.p_release [of 0 "?s (PRelease wrec 0) ?r5 [] [wrec]" wrec 0 False]
    by (simp add: parked_sys_def)
  note r6 = step [OF r5 this]
  have wt: "waiting (shared ?r6) = 1" by (simp add: wring_def)
  have "ring_step False (?s PPublished ?r6 [] [wrec]) (?s PSwap ?r6 [] [wrec])"
    using ring_step.p_load_waiting [of 0 "?s PPublished ?r6 [] [wrec]" False] wt by (simp add: parked_sys_def)
  note r7 = step [OF r6 this]
  obtain r8 where r8: "take_waiter ?r6 = (True, r8)" using wt by (simp add: take_waiter_def)
  then have "ring_step False (?s PSwap ?r6 [] [wrec]) (?s PToken r8 [] [wrec])"
    using ring_step.p_swap [of 0 "?s PSwap ?r6 [] [wrec]" True r8 False] by (simp add: parked_sys_def)
  note r8 = step [OF r7 this]
  have "ring_step False (?s PToken r8 [] [wrec]) (?s PIdle r8 [Token] [wrec])"
    using ring_step.p_token [of 0 "?s PToken r8 [] [wrec]" False] by (simp add: parked_sys_def)
  from step [OF r8 this] show ?thesis by blast
qed

theorem ring_concurrent_safe_witness:
  "\<exists>r. ring_reachable False 2 1 (parked_sys PIdle r [Token] [wrec])
     \<and> ring_ready (rg (parked_sys PIdle r [Token] [wrec])) 0"
proof -
  from published_reachable obtain r where r: "ring_reachable False 2 1 (parked_sys PIdle r [Token] [wrec])" by blast
  from ring_concurrent_safe [OF r] r show ?thesis by (auto simp: parked_sys_def)
qed

theorem ring_no_lost_wakeup_witness:
  "\<exists>r. ring_reachable False 2 1 (parked_sys PIdle r [Token] [wrec])
     \<and> pipe (parked_sys PIdle r [Token] [wrec]) \<noteq> []"
proof -
  from published_reachable obtain r where r: "ring_reachable False 2 1 (parked_sys PIdle r [Token] [wrec])" by blast
  from ring_no_lost_wakeup [OF r] r show ?thesis by (auto simp: parked_sys_def)
qed

end
