(* ===== verification/Utf8.thy ===== *)
theory Utf8
  imports Gusset_Base
begin

text \<open>
  What the sources use of Rust's \<open>str\<close>: the validation of \<open>str::from_utf8\<close> with the error it reports, the lossy
  conversion of \<open>String::from_utf8_lossy\<close>, characters, and splitting. The validation is the standard library's, one
  character at a time; it accepts exactly the strings that split into encoded characters.
\<close>

subsection \<open>Validation\<close>

text \<open>One character at the front of the bytes: its width, or the length of the invalid sequence (\<open>None\<close> when the
  bytes end inside the character).\<close>

definition utf8_second3 :: "u8 \<Rightarrow> u8 \<Rightarrow> bool" where
  "utf8_second3 a b \<longleftrightarrow> is_cont b \<and> (a = 0xE0 \<longrightarrow> 0xA0 \<le> b) \<and> (a = 0xED \<longrightarrow> b \<le> 0x9F)"

definition utf8_second4 :: "u8 \<Rightarrow> u8 \<Rightarrow> bool" where
  "utf8_second4 a b \<longleftrightarrow> is_cont b \<and> (a = 0xF0 \<longrightarrow> 0x90 \<le> b) \<and> (a = 0xF4 \<longrightarrow> b \<le> 0x8F)"

fun utf8_conts :: "nat \<Rightarrow> nat \<Rightarrow> bytes \<Rightarrow> nat option + nat" where
  "utf8_conts seen 0 bs = Inr seen"
| "utf8_conts seen (Suc n) [] = Inl None"
| "utf8_conts seen (Suc n) (b # bs) = (if is_cont b then utf8_conts (seen + 1) n bs else Inl (Some seen))"

fun utf8_step :: "bytes \<Rightarrow> nat option + nat" where
  "utf8_step [] = Inl None"
| "utf8_step (a # bs) =
     (if a < 0x80 then Inr 1
      else if 0xC2 \<le> a \<and> a \<le> 0xDF then utf8_conts 1 1 bs
      else if 0xE0 \<le> a \<and> a \<le> 0xEF then
        (case bs of [] \<Rightarrow> Inl None
         | b # cs \<Rightarrow> if utf8_second3 a b then utf8_conts 2 1 cs else Inl (Some 1))
      else if 0xF0 \<le> a \<and> a \<le> 0xF4 then
        (case bs of [] \<Rightarrow> Inl None
         | b # cs \<Rightarrow> if utf8_second4 a b then utf8_conts 2 2 cs else Inl (Some 1))
      else Inl (Some 1))"

lemma utf8_conts_pos: "utf8_conts seen n bs = Inr w \<Longrightarrow> seen \<le> w" "utf8_conts seen n bs = Inl (Some e) \<Longrightarrow> seen \<le> e"
  by (induction seen n bs rule: utf8_conts.induct) (auto split: if_splits)

lemma utf8_step_pos: "utf8_step bs = Inr w \<Longrightarrow> 0 < w" "utf8_step bs = Inl (Some e) \<Longrightarrow> 0 < e"
  by (cases bs; force split: if_splits list.splits dest: utf8_conts_pos)+

text \<open>The whole string: \<open>None\<close> when it is valid, else \<open>Utf8Error\<close>'s \<open>valid_up_to\<close> and \<open>error_len\<close>.\<close>

function utf8_scan :: "nat \<Rightarrow> bytes \<Rightarrow> (nat \<times> nat option) option" where
  "utf8_scan i bs =
     (if bs = [] then None
      else case utf8_step bs of Inl e \<Rightarrow> Some (i, e) | Inr w \<Rightarrow> utf8_scan (i + w) (drop w bs))"
  by pat_completeness auto
termination by (relation "measure (\<lambda>(i, bs). length bs)") (auto dest: utf8_step_pos(1))

declare utf8_scan.simps [simp del]

type_synonym Utf8Error = "nat \<times> nat option"

definition from_utf8 :: "bytes \<Rightarrow> Utf8Error + rstr" where
  "from_utf8 bs = (case utf8_scan 0 bs of None \<Rightarrow> Inr bs | Some e \<Rightarrow> Inl e)"

definition show_utf8_error :: "Utf8Error \<Rightarrow> rstr" where
  "show_utf8_error e =
     (case e of
        (at, Some n) \<Rightarrow> lit ''invalid utf-8 sequence of '' @ show_nat n @ lit '' bytes from index '' @ show_nat at
      | (at, None) \<Rightarrow> lit ''incomplete utf-8 byte sequence from index '' @ show_nat at)"

text \<open>\<open>String::from_utf8_lossy\<close>: every invalid sequence becomes U+FFFD.\<close>

function from_utf8_lossy :: "bytes \<Rightarrow> rstr" where
  "from_utf8_lossy bs =
     (case utf8_scan 0 bs of
        None \<Rightarrow> bs
      | Some (at, None) \<Rightarrow> take at bs @ [0xEF, 0xBF, 0xBD]
      | Some (at, Some n) \<Rightarrow> take at bs @ [0xEF, 0xBF, 0xBD]
          @ (if n = 0 \<or> bs = [] then [] else from_utf8_lossy (drop (at + n) bs)))"
  by pat_completeness auto
termination by (relation "measure length") auto

declare from_utf8_lossy.simps [simp del]

subsection \<open>Characters and splitting\<close>

function utf8_chars :: "rstr \<Rightarrow> rstr list" where
  "utf8_chars bs =
     (if bs = [] then []
      else case utf8_step bs of Inl e \<Rightarrow> [bs] | Inr w \<Rightarrow> take w bs # utf8_chars (drop w bs))"
  by pat_completeness auto
termination by (relation "measure length") (auto dest: utf8_step_pos(1))

declare utf8_chars.simps [simp del]

fun split_by :: "('a \<Rightarrow> bool) \<Rightarrow> 'a list \<Rightarrow> 'a list list" where
  "split_by P [] = [[]]"
| "split_by P (x # xs) = (if P x then [] # split_by P xs
     else (case split_by P xs of [] \<Rightarrow> [[x]] | y # ys \<Rightarrow> (x # y) # ys))"

text \<open>The characters with the Unicode property \<open>White_Space\<close>, as \<open>char::is_whitespace\<close> has it.\<close>

definition is_whitespace :: "rstr \<Rightarrow> bool" where
  "is_whitespace c \<longleftrightarrow>
     (case c of
        [a] \<Rightarrow> 9 \<le> a \<and> a \<le> 13 \<or> a = 32
      | [a, b] \<Rightarrow> a = 0xC2 \<and> (b = 0x85 \<or> b = 0xA0)
      | [a, b, d] \<Rightarrow> a = 0xE1 \<and> b = 0x9A \<and> d = 0x80
          \<or> a = 0xE2 \<and> b = 0x80 \<and> (d \<le> 0x8A \<or> d = 0xA8 \<or> d = 0xA9 \<or> d = 0xAF)
          \<or> a = 0xE2 \<and> b = 0x81 \<and> d = 0x9F
          \<or> a = 0xE3 \<and> b = 0x80 \<and> d = 0x80
      | _ \<Rightarrow> False)"

definition split_whitespace :: "rstr \<Rightarrow> rstr list" where
  "split_whitespace s = map concat (filter (\<lambda>w. w \<noteq> []) (split_by is_whitespace (utf8_chars s)))"

subsection \<open>Lemmas\<close>

lemma lit_eq_iff: "lit s = lit t \<longleftrightarrow> s = t"
proof -
  have "c = c'" if "(of_char c :: u8) = of_char c'" for c c'
  proof -
    have "of_nat (of_char c) = (of_nat (of_char c') :: u8)" using that by (metis of_nat_of_char)
    then have "(of_char c :: nat) mod 256 = of_char c' mod 256" by (simp add: word_of_nat_eq_iff take_bit_eq_mod)
    then show "c = c'" by simp
  qed
  then have "inj (of_char :: char \<Rightarrow> u8)" by (rule injI)
  then show ?thesis by (simp add: lit_def inj_map_eq_map)
qed

lemma utf8_conts_split:
  "utf8_conts seen n bs = Inr w \<longleftrightarrow> w = seen + n \<and> n \<le> length bs \<and> list_all is_cont (take n bs)"
  by (induction seen n bs rule: utf8_conts.induct) auto

lemma utf8_char3: "utf8_char [a, b, c] \<longleftrightarrow> 0xE0 \<le> a \<and> a \<le> 0xEF \<and> utf8_second3 a b \<and> is_cont c"
  by (auto simp: utf8_second3_def word_le_nat_alt word_unat_eq_iff)

lemma utf8_char4: "utf8_char [a, b, c, d] \<longleftrightarrow> 0xF0 \<le> a \<and> a \<le> 0xF4 \<and> utf8_second4 a b \<and> is_cont c \<and> is_cont d"
  by (auto simp: utf8_second4_def word_le_nat_alt word_unat_eq_iff)

lemmas utf8_char_iffs = utf8_char3 utf8_char4

lemma lead_classes:
  "(0xC2 :: u8) \<le> a \<Longrightarrow> \<not> a < 0x80" "(0xE0 :: u8) \<le> a \<Longrightarrow> \<not> a < 0x80 \<and> \<not> a \<le> 0xDF"
  "(0xF0 :: u8) \<le> a \<Longrightarrow> \<not> a < 0x80 \<and> \<not> a \<le> 0xDF \<and> \<not> a \<le> 0xEF"
  by (auto simp: word_le_nat_alt word_less_nat_alt)

text \<open>A step succeeds exactly on an encoded character.\<close>

lemma utf8_step_char:
  assumes "utf8_step bs = Inr w"
  shows "w \<le> length bs \<and> utf8_char (take w bs)"
proof (cases bs)
  case (Cons a t)
  with assms show ?thesis
    by (auto simp: utf8_conts_split utf8_char_iffs numeral_2_eq_2 numeral_3_eq_3 Suc_le_length_iff
        simp del: utf8_char.simps(3,4) split: if_splits list.splits)
qed (use assms in simp)

lemma utf8_char_step:
  assumes "utf8_char c"
  shows "utf8_step (c @ bs) = Inr (length c)"
proof -
  from assms consider a where "c = [a]" | a b where "c = [a, b]" | a b d where "c = [a, b, d]" | a b d e where "c = [a, b, d, e]"
    by (cases c rule: utf8_char.cases) auto
  then show ?thesis
    using assms by cases (auto simp: utf8_conts_split utf8_char_iffs lead_classes numeral_2_eq_2 simp del: utf8_char.simps(3,4))
qed

lemma utf8_char_nonempty [simp]: "\<not> utf8_char []"
  by simp

text \<open>The validation accepts exactly the well-formed strings, and what it found valid before an error is.\<close>

lemma utf8_scan_char: "utf8_char c \<Longrightarrow> utf8_scan i (c @ bs) = utf8_scan (i + length c) bs"
  by (subst utf8_scan.simps) (auto simp: utf8_char_step)

lemma utf8_scan_valid: "valid_utf8 bs \<Longrightarrow> utf8_scan i bs = None"
proof (induction arbitrary: i rule: valid_utf8.induct)
  case valid_Nil
  then show ?case by (simp add: utf8_scan.simps)
qed (simp add: utf8_scan_char)

lemma utf8_scan_None: "utf8_scan i bs = None \<Longrightarrow> valid_utf8 bs"
proof (induction i bs rule: utf8_scan.induct)
  case (1 i bs)
  show ?case
  proof (cases "bs = []")
    case False
    with 1 obtain w where w: "utf8_step bs = Inr w" "utf8_scan (i + w) (drop w bs) = None"
      by (subst (asm) (2) utf8_scan.simps) (auto split: sum.splits)
    with "1.IH" [OF False w(1)] utf8_step_char [OF w(1)] valid_char [of "take w bs" "drop w bs"] show ?thesis by simp
  qed (simp add: valid_Nil)
qed

lemma from_utf8_iff: "from_utf8 bs = Inr s \<longleftrightarrow> s = bs \<and> valid_utf8 bs"
  using utf8_scan_valid utf8_scan_None by (auto simp: from_utf8_def split: option.splits)

lemma from_utf8_valid [simp]: "valid_utf8 bs \<Longrightarrow> from_utf8 bs = Inr bs"
  by (simp add: from_utf8_iff)

lemma utf8_scan_error:
  "utf8_scan i bs = Some (at, e) \<Longrightarrow> i \<le> at \<and> at - i < length bs \<and> valid_utf8 (take (at - i) bs) \<and> utf8_step (drop (at - i) bs) = Inl e"
proof (induction i bs rule: utf8_scan.induct)
  case (1 i bs)
  then have ne: "bs \<noteq> []" by (auto simp: utf8_scan.simps)
  show ?case
  proof (cases "utf8_step bs")
    case (Inl e')
    with "1.prems" ne show ?thesis by (subst (asm) utf8_scan.simps) (auto intro: valid_Nil)
  next
    case (Inr w)
    with "1.prems" ne have "utf8_scan (i + w) (drop w bs) = Some (at, e)"
      by (subst (asm) utf8_scan.simps) simp
    from "1.IH" [OF ne Inr this] have ih: "i + w \<le> at" "at - (i + w) < length (drop w bs)"
      "valid_utf8 (take (at - (i + w)) (drop w bs))" "utf8_step (drop (at - (i + w)) (drop w bs)) = Inl e" by auto
    have "at - i = w + (at - (i + w))" using ih(1) by simp
    then have "take (at - i) bs = take w bs @ take (at - (i + w)) (drop w bs)" by (metis take_add)
    with ih utf8_step_char [OF Inr] valid_char show ?thesis by (auto simp: add.commute)
  qed
qed

lemma utf8_chars_valid: "valid_utf8 bs \<Longrightarrow> concat (utf8_chars bs) = bs \<and> list_all utf8_char (utf8_chars bs)"
proof (induction rule: valid_utf8.induct)
  case (valid_char c bs)
  then have "utf8_chars (c @ bs) = c # utf8_chars bs" by (subst utf8_chars.simps) (auto simp: utf8_char_step)
  with valid_char show ?case by simp
qed (simp add: utf8_chars.simps)

lemma valid_utf8_concat: "list_all utf8_char cs \<Longrightarrow> valid_utf8 (concat cs)"
  by (induction cs) (auto intro: valid_utf8.intros)

lemma from_utf8_lossy_valid: "valid_utf8 (from_utf8_lossy bs)"
proof (induction bs rule: from_utf8_lossy.induct)
  case (1 bs)
  have fffd: "valid_utf8 (0xEF # 0xBF # 0xBD # ys)" if "valid_utf8 ys" for ys
    using valid_char [of "[0xEF, 0xBF, 0xBD]" ys] that by (simp add: is_cont_iff_range)
  show ?case
  proof (cases "utf8_scan 0 bs")
    case None
    then show ?thesis by (subst from_utf8_lossy.simps) (auto dest: utf8_scan_None)
  next
    case (Some x)
    obtain at e where x: "x = (at, e)" by (cases x)
    have v: "valid_utf8 (take at bs)" using utf8_scan_error [OF Some [unfolded x]] by simp
    show ?thesis using Some x v fffd "1.IH" valid_Nil
      by (subst from_utf8_lossy.simps) (auto intro!: valid_utf8_append split: option.splits)
  qed
qed

end
