(* ===== verification/Uniffi.thy ===== *)
theory Uniffi
  imports Adopter Utf8
begin

text \<open>
  The UniFFI example (\<open>examples/uniffi_bindgen_go\<close>): an adopter's engine in Rust that decodes a big-endian wire format
  and runs four functions, and the Go client that encodes the calls and decodes the replies. A field of the wire
  is one encoder and one decoder that hands back the rest (locale \<open>wire_field\<close>). An \<open>f64\<close> is its bit pattern; the
  floating-point unit's operations and the upper case of characters beyond ASCII are arguments.
\<close>

subsection \<open>The wire format in Rust\<close>

type_synonym f64 = "64 word"
type_synonym wire32 = "32 word"

definition be_bytes :: "nat \<Rightarrow> nat \<Rightarrow> bytes" where
  "be_bytes k n = rev (le_nat k n)"

definition be_val :: "bytes \<Rightarrow> nat" where
  "be_val bs = le_val (rev bs)"

text \<open>Rust's \<open>?\<close> on a decoded field.\<close>

definition try_then :: "'e + 'a \<Rightarrow> ('a \<Rightarrow> 'e + 'b) \<Rightarrow> 'e + 'b" where
  "try_then r f = (case r of Inl e \<Rightarrow> Inl e | Inr x \<Rightarrow> f x)"

lemma try_then_simps [simp]: "try_then (Inl e) f = Inl e" "try_then (Inr x) f = f x"
  by (simp_all add: try_then_def)

definition read_u8 :: "bytes \<Rightarrow> rstr + (u8 \<times> bytes)" where
  "read_u8 input = (case input of [] \<Rightarrow> Inl (lit ''underflow reading u8'') | b # rest \<Rightarrow> Inr (b, rest))"

definition read_bool :: "bytes \<Rightarrow> rstr + (bool \<times> bytes)" where
  "read_bool input = try_then (read_u8 input) (\<lambda>(b, rest). Inr (b \<noteq> 0, rest))"

definition read_i32 :: "bytes \<Rightarrow> rstr + (wire32 \<times> bytes)" where
  "read_i32 input =
     (if length input < 4 then Inl (lit ''underflow reading i32'')
      else Inr (of_nat (be_val (take 4 input)), drop 4 input))"

definition read_f64 :: "bytes \<Rightarrow> rstr + (f64 \<times> bytes)" where
  "read_f64 input =
     (if length input < 8 then Inl (lit ''underflow reading f64'')
      else Inr (of_nat (be_val (take 8 input)), drop 8 input))"

text \<open>The length is sign-extended to \<open>usize\<close>: a negative one exceeds every input.\<close>

definition read_string :: "bytes \<Rightarrow> rstr + (rstr \<times> bytes)" where
  "read_string input =
     try_then (read_i32 input) (\<lambda>(n, rest).
       let len = unat (scast n :: u64)
       in if length rest < len then Inl (lit ''underflow reading string bytes'')
          else case from_utf8 (take len rest) of
                 Inl e \<Rightarrow> Inl (lit ''invalid UTF-8 in string: '' @ show_utf8_error e)
               | Inr s \<Rightarrow> Inr (s, drop len rest))"

definition write_u8 :: "u8 \<Rightarrow> bytes" where "write_u8 v = [v]"
definition write_bool :: "bool \<Rightarrow> bytes" where "write_bool v = [if v then 1 else 0]"
definition write_i32 :: "wire32 \<Rightarrow> bytes" where "write_i32 v = be_bytes 4 (unat v)"
definition write_i64 :: "u64 \<Rightarrow> bytes" where "write_i64 v = be_bytes 8 (unat v)"
definition write_f64 :: "f64 \<Rightarrow> bytes" where "write_f64 v = be_bytes 8 (unat v)"
definition write_string :: "rstr \<Rightarrow> bytes" where "write_string s = write_i32 (of_nat (length s)) @ s"

subsection \<open>The engine\<close>

text \<open>What a call meets: the floating-point unit, Unicode's upper case of a character beyond ASCII, what the shared
  counter shows after other workers' increments, the clock when the slow job starts, the time until its first
  turn, the time its turn \<open>k\<close> takes before its check and beyond its sleep, and its cancel flag then, the time
  before it reads the clock for its answer, and the path the compiler recorded for the file.\<close>

record uni_env =
  ue_add :: "f64 \<Rightarrow> f64 \<Rightarrow> f64"
  ue_sub :: "f64 \<Rightarrow> f64 \<Rightarrow> f64"
  ue_mul :: "f64 \<Rightarrow> f64 \<Rightarrow> f64"
  ue_div :: "f64 \<Rightarrow> f64 \<Rightarrow> f64"
  ue_sqrt :: "f64 \<Rightarrow> f64"
  ue_upper :: "rstr \<Rightarrow> rstr"
  ue_others :: "u64 \<Rightarrow> u64"
  ue_start :: instant
  ue_first :: nat
  ue_lag :: "nat \<Rightarrow> nat"
  ue_over :: "nat \<Rightarrow> nat"
  ue_cells :: "nat \<Rightarrow> u64 \<Rightarrow> bool"
  ue_tail :: nat
  ue_file :: rstr

definition FN_CALCULATE :: u8 where "FN_CALCULATE = 1"
definition FN_TRANSFORM_TEXT :: u8 where "FN_TRANSFORM_TEXT = 2"
definition FN_EXECUTE_SLOW_JOB :: u8 where "FN_EXECUTE_SLOW_JOB = 3"
definition FN_TRIGGER_PANIC :: u8 where "FN_TRIGGER_PANIC = 4"
definition STATUS_SUCCESS :: u8 where "STATUS_SUCCESS = 0"
definition STATUS_ERROR :: u8 where "STATUS_ERROR = 1"
definition MATH_ERR_UNKNOWN_OP :: wire32 where "MATH_ERR_UNKNOWN_OP = 1"
definition MATH_ERR_DIVISION_BY_ZERO :: wire32 where "MATH_ERR_DIVISION_BY_ZERO = 2"
definition MATH_ERR_NEGATIVE_ROOT :: wire32 where "MATH_ERR_NEGATIVE_ROOT = 3"

text \<open>\<open>b == 0.0\<close> holds of both zeros; \<open>a < 0.0\<close> of the numbers with the sign set, and not of a NaN.\<close>

definition f64_magnitude :: "f64 \<Rightarrow> f64" where "f64_magnitude w = w AND 0x7FFFFFFFFFFFFFFF"
definition f64_is_zero :: "f64 \<Rightarrow> bool" where "f64_is_zero w \<longleftrightarrow> f64_magnitude w = 0"
definition f64_is_nan :: "f64 \<Rightarrow> bool" where "f64_is_nan w \<longleftrightarrow> 0x7FF0000000000000 < f64_magnitude w"
definition f64_negative :: "f64 \<Rightarrow> bool" where
  "f64_negative w \<longleftrightarrow> w AND 0x8000000000000000 \<noteq> 0 \<and> \<not> f64_is_zero w \<and> \<not> f64_is_nan w"

definition math_ok :: "uni_env \<Rightarrow> f64 \<Rightarrow> u64 \<Rightarrow> bytes \<times> u64" where
  "math_ok env v counter =
     (write_u8 STATUS_SUCCESS @ write_f64 v @ write_i64 (ue_others env (counter + 1)), ue_others env (counter + 1))"

definition math_err :: "wire32 \<Rightarrow> rstr \<Rightarrow> u64 \<Rightarrow> bytes \<times> u64" where
  "math_err code msg counter = (write_u8 STATUS_ERROR @ write_i32 code @ write_string msg, counter)"

definition calculate :: "uni_env \<Rightarrow> rstr \<Rightarrow> f64 \<Rightarrow> f64 \<Rightarrow> u64 \<Rightarrow> bytes \<times> u64" where
  "calculate env op a b counter =
     (if op = lit ''Add'' then math_ok env (ue_add env a b) counter
      else if op = lit ''Subtract'' then math_ok env (ue_sub env a b) counter
      else if op = lit ''Multiply'' then math_ok env (ue_mul env a b) counter
      else if op = lit ''Divide'' then
        (if f64_is_zero b then math_err MATH_ERR_DIVISION_BY_ZERO (lit ''division by zero'') counter
         else math_ok env (ue_div env a b) counter)
      else if op = lit ''Sqrt'' then
        (if f64_negative a then math_err MATH_ERR_NEGATIVE_ROOT (lit ''cannot compute square root of negative number'') counter
         else math_ok env (ue_sqrt env a) counter)
      else math_err MATH_ERR_UNKNOWN_OP (lit ''unsupported operation: '' @ op) counter)"

definition handle_calculate :: "uni_env \<Rightarrow> bytes \<Rightarrow> u64 \<Rightarrow> (rstr + bytes) \<times> u64" where
  "handle_calculate env input counter =
     (case try_then (read_string input) (\<lambda>(op, r1). try_then (read_f64 r1) (\<lambda>(a, r2). try_then (read_f64 r2) (\<lambda>(b, r3). Inr (op, a, b)))) of
        Inl e \<Rightarrow> (Inl e, counter)
      | Inr (op, a, b) \<Rightarrow> (let (out, counter1) = calculate env op a b counter in (Inr out, counter1)))"

definition char_to_uppercase :: "uni_env \<Rightarrow> rstr \<Rightarrow> rstr" where
  "char_to_uppercase env c = (case c of [b] \<Rightarrow> if 97 \<le> b \<and> b \<le> 122 then [b - 32] else [b] | _ \<Rightarrow> ue_upper env c)"

definition str_to_uppercase :: "uni_env \<Rightarrow> rstr \<Rightarrow> rstr" where
  "str_to_uppercase env s = concat (map (char_to_uppercase env) (utf8_chars s))"

definition chars_rev :: "rstr \<Rightarrow> rstr" where
  "chars_rev s = concat (rev (utf8_chars s))"

definition transform :: "uni_env \<Rightarrow> rstr \<Rightarrow> bool \<Rightarrow> bool \<Rightarrow> rstr" where
  "transform env text upper rev1 =
     (let t = (if upper then str_to_uppercase env text else text) in if rev1 then chars_rev t else t)"

definition handle_transform_text :: "uni_env \<Rightarrow> bytes \<Rightarrow> rstr + bytes" where
  "handle_transform_text env input =
     try_then (read_string input) (\<lambda>(text, r1). try_then (read_bool r1) (\<lambda>(upper, r2). try_then (read_bool r2) (\<lambda>(rev1, r3).
       let t = transform env text upper rev1
       in Inr (write_u8 STATUS_SUCCESS @ write_string t @ write_i32 (of_nat (length t))))))"

text \<open>The slow job sleeps in slices of 10 ms and checks before each.\<close>

definition SLOW_SLICE :: nat where "SLOW_SLICE = 10000000"

function slow_loop :: "uni_env \<Rightarrow> JobContext \<Rightarrow> nat \<Rightarrow> nat \<Rightarrow> instant \<Rightarrow> CancelReason + instant" where
  "slow_loop env ctx dur k now =
     (if now - ue_start env < dur then
        (case check (now + ue_lag env k) (ue_cells env k) ctx of
           Inl r \<Rightarrow> Inl r
         | Inr _ \<Rightarrow> slow_loop env ctx dur (k + 1) (now + ue_lag env k + SLOW_SLICE + ue_over env k))
      else Inr now)"
  by pat_completeness auto
termination
  by (relation "measure (\<lambda>(env, ctx, dur, k, now). ue_start env + dur - now)") (auto simp: SLOW_SLICE_def)

declare slow_loop.simps [simp del]

definition delay_ns :: "wire32 \<Rightarrow> nat" where
  "delay_ns w = nat (max (sint w) 0) * 1000000"

definition handle_slow_job :: "uni_env \<Rightarrow> JobContext \<Rightarrow> bytes \<Rightarrow> rstr + bytes" where
  "handle_slow_job env ctx input =
     try_then (read_i32 input) (\<lambda>(delay_ms, r1).
       case slow_loop env ctx (delay_ns delay_ms) 0 (ue_start env + ue_first env) of
         Inl r \<Rightarrow> Inl (cancel_reason_string r)
       | Inr now \<Rightarrow> Inr (write_u8 STATUS_SUCCESS @ write_i64 (of_nat ((now + ue_tail env - ue_start env) div 1000000))
                          @ write_string (lit ''completed'')))"

definition bytes_output :: "rstr + bytes \<Rightarrow> (rstr + JobOutput) outcome" where
  "bytes_output r = Done (map_sum id OutBytes r)"

definition uniffi_dispatch_handler ::
  "uni_env \<Rightarrow> thread \<Rightarrow> JobContext \<Rightarrow> bytes \<Rightarrow> u64 \<times> pstate \<Rightarrow> (rstr + JobOutput) outcome \<times> u64 \<times> pstate" where
  "uniffi_dispatch_handler env th ctx input st =
     (let (counter, p, h) = st
      in case input of
           [] \<Rightarrow> (Done (Inl (lit ''uniffi: empty payload'')), st)
         | fn_id # payload1 \<Rightarrow>
             if fn_id = FN_CALCULATE then
               (let (r, counter1) = handle_calculate env payload1 counter in (bytes_output r, counter1, p, h))
             else if fn_id = FN_TRANSFORM_TEXT then (bytes_output (handle_transform_text env payload1), st)
             else if fn_id = FN_EXECUTE_SLOW_JOB then (bytes_output (handle_slow_job env ctx payload1), st)
             else if fn_id = FN_TRIGGER_PANIC then
               (Raised (PStr (lit ''uniffi engine: deliberate panic to verify Gusset panic firewall'')), counter,
                raise_panic th (ue_file env, 59) p, h)
             else (Done (Inl (lit ''uniffi: unknown function opcode '' @ show_nat (unat fn_id))), st))"

text \<open>The handler as an engine of the pool. The counter is the engine's own: a call meets some value of it.\<close>

definition uniffi_engine :: "uni_env \<Rightarrow> u64 \<Rightarrow> EngineFn" where
  "uniffi_engine env counter th ctx input st =
     (let (r, _, st1) = uniffi_dispatch_handler env th ctx input (counter, st) in (r, st1))"

definition init_uniffi_engine :: "uni_env \<Rightarrow> u64 \<Rightarrow> engines \<Rightarrow> engines" where
  "init_uniffi_engine env counter e = set_engine_handler (uniffi_engine env counter) e"

subsection \<open>The Go client\<close>

text \<open>The client's writer and reader (\<open>rustbuffer.go\<close>); a reader is the bytes it has not consumed.\<close>

datatype client_error = ErrBufferUnderflow | ErrStringUnderflow nat nat | MathError wire32 rstr | TransformError rstr | SlowJobError rstr

definition WriteUint8 :: "u8 \<Rightarrow> bytes" where "WriteUint8 v = [v]"
definition WriteBool :: "bool \<Rightarrow> bytes" where "WriteBool v = (if v then [1] else [0])"
definition WriteInt32 :: "wire32 \<Rightarrow> bytes" where "WriteInt32 v = be_bytes 4 (unat v)"
definition WriteFloat64 :: "f64 \<Rightarrow> bytes" where "WriteFloat64 v = be_bytes 8 (unat v)"
definition WriteString :: "rstr \<Rightarrow> bytes" where "WriteString s = WriteInt32 (of_nat (length s)) @ s"

definition ReadUint8 :: "bytes \<Rightarrow> client_error + (u8 \<times> bytes)" where
  "ReadUint8 r = (if length r < 1 then Inl ErrBufferUnderflow else Inr (r ! 0, drop 1 r))"

definition ReadInt32 :: "bytes \<Rightarrow> client_error + (wire32 \<times> bytes)" where
  "ReadInt32 r = (if length r < 4 then Inl ErrBufferUnderflow else Inr (of_nat (be_val (take 4 r)), drop 4 r))"

definition ReadInt64 :: "bytes \<Rightarrow> client_error + (u64 \<times> bytes)" where
  "ReadInt64 r = (if length r < 8 then Inl ErrBufferUnderflow else Inr (of_nat (be_val (take 8 r)), drop 8 r))"

definition ReadFloat64 :: "bytes \<Rightarrow> client_error + (f64 \<times> bytes)" where
  "ReadFloat64 r = (if length r < 8 then Inl ErrBufferUnderflow else Inr (of_nat (be_val (take 8 r)), drop 8 r))"

definition ReadString :: "bytes \<Rightarrow> client_error + (rstr \<times> bytes)" where
  "ReadString r =
     try_then (ReadInt32 r) (\<lambda>(l, rest).
       if sint l < 0 then Inl ErrBufferUnderflow
       else if length rest < nat (sint l) then Inl (ErrStringUnderflow (nat (sint l)) (length rest))
       else Inr (take (nat (sint l)) rest, drop (nat (sint l)) rest))"

text \<open>Each call's request, and what the client makes of the reply (\<open>client.go\<close>).\<close>

definition Calculate_request :: "rstr \<Rightarrow> f64 \<Rightarrow> f64 \<Rightarrow> bytes" where
  "Calculate_request op a b = WriteUint8 FN_CALCULATE @ WriteString op @ WriteFloat64 a @ WriteFloat64 b"

definition Calculate_reply :: "bytes \<Rightarrow> client_error + (f64 \<times> u64)" where
  "Calculate_reply out =
     try_then (ReadUint8 out) (\<lambda>(status, r1).
       if status = STATUS_ERROR then
         try_then (ReadInt32 r1) (\<lambda>(code, r2). try_then (ReadString r2) (\<lambda>(msg, r3). Inl (MathError code msg)))
       else try_then (ReadFloat64 r1) (\<lambda>(result, r2). try_then (ReadInt64 r2) (\<lambda>(ops_total, r3). Inr (result, ops_total))))"

definition TransformText_request :: "rstr \<Rightarrow> bool \<Rightarrow> bool \<Rightarrow> bytes" where
  "TransformText_request text upper rev1 = WriteUint8 FN_TRANSFORM_TEXT @ WriteString text @ WriteBool upper @ WriteBool rev1"

definition TransformText_reply :: "bytes \<Rightarrow> client_error + (rstr \<times> wire32)" where
  "TransformText_reply out =
     try_then (ReadUint8 out) (\<lambda>(status, r1).
       if status = STATUS_ERROR then try_then (ReadString r1) (\<lambda>(msg, r2). Inl (TransformError msg))
       else try_then (ReadString r1) (\<lambda>(t, r2). try_then (ReadInt32 r2) (\<lambda>(n, r3). Inr (t, n))))"

text \<open>\<open>delay.Milliseconds()\<close> divides the nanoseconds towards zero; the request keeps the low 32 bits.\<close>

definition ExecuteSlowJob_request :: "int \<Rightarrow> bytes" where
  "ExecuteSlowJob_request delay = WriteUint8 FN_EXECUTE_SLOW_JOB @ WriteInt32 (of_int (sgn delay * (\<bar>delay\<bar> div 1000000)))"

definition ExecuteSlowJob_reply :: "bytes \<Rightarrow> client_error + (u64 \<times> rstr)" where
  "ExecuteSlowJob_reply out =
     try_then (ReadUint8 out) (\<lambda>(status, r1).
       if status = STATUS_ERROR then try_then (ReadString r1) (\<lambda>(msg, r2). Inl (SlowJobError msg))
       else try_then (ReadInt64 r1) (\<lambda>(elapsed, r2). try_then (ReadString r2) (\<lambda>(st, r3). Inr (elapsed, st))))"

definition TriggerPanic_request :: bytes where
  "TriggerPanic_request = WriteUint8 FN_TRIGGER_PANIC"

subsection \<open>Fields of the wire\<close>

text \<open>What a decoder promises of an encoder: it reads back every value that fits and hands over exactly the rest; and
  whatever it reads, it only consumes.\<close>

locale wire_field =
  fixes enc :: "'a \<Rightarrow> bytes"
    and dec :: "bytes \<Rightarrow> 'e + ('a \<times> bytes)"
    and fits :: "'a \<Rightarrow> bool"
  assumes dec_enc: "fits x \<Longrightarrow> dec (enc x @ rest) = Inr (x, rest)"
    and dec_consumes: "dec bs = Inr (x, rest) \<Longrightarrow> \<exists>used. bs = used @ rest"
begin

lemma dec_seq: "fits x \<Longrightarrow> try_then (dec (enc x @ rest)) f = f (x, rest)"
  by (simp add: dec_enc)

lemma dec_last: "fits x \<Longrightarrow> try_then (dec (enc x)) f = f (x, [])"
  using dec_enc [of x "[]"] by simp

lemma enc_unambiguous: "fits x \<Longrightarrow> fits y \<Longrightarrow> enc x @ r = enc y @ s \<Longrightarrow> x = y \<and> r = s"
  using dec_enc [of x r] dec_enc [of y s] by (metis Pair_inject sum.inject(2))

end

lemma be_val_bytes [simp]: "be_val (be_bytes k n) = n mod 256 ^ k"
  by (simp add: be_val_def be_bytes_def le_val_le_nat)

lemma length_be_bytes [simp]: "length (be_bytes k n) = k"
  by (simp add: be_bytes_def)

lemma word32_bytes [simp]: "of_nat (unat w mod 4294967296) = (w :: wire32)"
  using u32_bound [of w] by simp

lemma word64_bytes [simp]: "of_nat (unat w mod 18446744073709551616) = (w :: u64)"
  using u64_bound [of w] by simp

lemma len_prefix:
  assumes "n < 2147483648"
  shows "unat (scast (of_nat n :: wire32) :: u64) = n" and "sint (of_nat n :: wire32) = int n"
proof -
  show s: "sint (of_nat n :: wire32) = int n"
    using assms by (simp add: signed_of_nat signed_take_bit_int_eq_self)
  have "unat (of_int (int n) :: u64) = n" using assms by (simp add: unat_of_nat)
  then show "unat (scast (of_nat n :: wire32) :: u64) = n" by (simp add: scast_eq s)
qed

text \<open>Rust reads what Go writes.\<close>

interpretation rust_bool: wire_field WriteBool read_bool "\<lambda>_. True"
  by unfold_locales (auto simp: WriteBool_def read_bool_def read_u8_def split: list.splits)

interpretation rust_i32: wire_field WriteInt32 read_i32 "\<lambda>_. True"
  by unfold_locales (auto simp: WriteInt32_def read_i32_def split: if_splits intro: append_take_drop_id [symmetric])

interpretation rust_f64: wire_field WriteFloat64 read_f64 "\<lambda>_. True"
  by unfold_locales (auto simp: WriteFloat64_def read_f64_def split: if_splits intro: append_take_drop_id [symmetric])

lemma try_then_Inr: "try_then r f = Inr y \<longleftrightarrow> (\<exists>x. r = Inr x \<and> f x = Inr y)"
  by (cases r) simp_all

interpretation rust_string: wire_field WriteString read_string "\<lambda>s. valid_utf8 s \<and> length s < 2147483648"
proof
  show "read_string (WriteString s @ rest) = Inr (s, rest)" if "valid_utf8 s \<and> length s < 2147483648" for s rest
    using that by (simp add: WriteString_def read_string_def rust_i32.dec_seq len_prefix)
  show "\<exists>used. bs = used @ rest" if "read_string bs = Inr (s, rest)" for bs s rest
  proof -
    from that obtain n r1 where r: "read_i32 bs = Inr (n, r1)" "rest = drop (unat (scast n :: u64)) r1"
      by (auto simp: read_string_def try_then_Inr Let_def split: if_splits sum.splits)
    with rust_i32.dec_consumes [OF r(1)] append_take_drop_id [of "unat (scast n :: u64)" r1] show ?thesis by (metis append.assoc)
  qed
qed

text \<open>Go reads what Rust writes.\<close>

interpretation go_u8: wire_field write_u8 ReadUint8 "\<lambda>_. True"
  by unfold_locales (auto simp: write_u8_def ReadUint8_def split: if_splits intro: append_take_drop_id [symmetric])

interpretation go_i32: wire_field write_i32 ReadInt32 "\<lambda>_. True"
  by unfold_locales (auto simp: write_i32_def ReadInt32_def split: if_splits intro: append_take_drop_id [symmetric])

interpretation go_i64: wire_field write_i64 ReadInt64 "\<lambda>_. True"
  by unfold_locales (auto simp: write_i64_def ReadInt64_def split: if_splits intro: append_take_drop_id [symmetric])

interpretation go_f64: wire_field write_f64 ReadFloat64 "\<lambda>_. True"
  by unfold_locales (auto simp: write_f64_def ReadFloat64_def split: if_splits intro: append_take_drop_id [symmetric])

interpretation go_string: wire_field write_string ReadString "\<lambda>s. length s < 2147483648"
proof
  show "ReadString (write_string s @ rest) = Inr (s, rest)" if "length s < 2147483648" for s rest
    using that by (simp add: write_string_def ReadString_def go_i32.dec_seq len_prefix)
  show "\<exists>used. bs = used @ rest" if "ReadString bs = Inr (s, rest)" for bs s rest
  proof -
    from that obtain n r1 where r: "ReadInt32 bs = Inr (n, r1)" "rest = drop (nat (sint n)) r1"
      by (auto simp: ReadString_def try_then_Inr split: if_splits)
    with go_i32.dec_consumes [OF r(1)] append_take_drop_id [of "nat (sint n)" r1] show ?thesis by (metis append.assoc)
  qed
qed

lemmas rust_reads = rust_bool.dec_seq rust_bool.dec_last rust_i32.dec_seq rust_i32.dec_last rust_f64.dec_seq rust_f64.dec_last
  rust_string.dec_seq rust_string.dec_last

lemmas go_reads = go_u8.dec_seq go_i32.dec_seq go_i32.dec_last go_i64.dec_seq go_i64.dec_last go_f64.dec_seq go_f64.dec_last
  go_string.dec_seq go_string.dec_last

subsection \<open>Lemmas: the calls\<close>

text \<open>What a calculation should answer.\<close>

definition calculation :: "uni_env \<Rightarrow> rstr \<Rightarrow> f64 \<Rightarrow> f64 \<Rightarrow> (wire32 \<times> rstr) + f64" where
  "calculation env op a b =
     (if op = lit ''Add'' then Inr (ue_add env a b)
      else if op = lit ''Subtract'' then Inr (ue_sub env a b)
      else if op = lit ''Multiply'' then Inr (ue_mul env a b)
      else if op = lit ''Divide'' then (if f64_is_zero b then Inl (2, lit ''division by zero'') else Inr (ue_div env a b))
      else if op = lit ''Sqrt'' then
        (if f64_negative a then Inl (3, lit ''cannot compute square root of negative number'') else Inr (ue_sqrt env a))
      else Inl (1, lit ''unsupported operation: '' @ op))"

lemma calculate_cases:
  "calculate env op a b counter =
     (case calculation env op a b of Inl (code, msg) \<Rightarrow> math_err code msg counter | Inr v \<Rightarrow> math_ok env v counter)"
  by (simp add: calculate_def calculation_def MATH_ERR_UNKNOWN_OP_def MATH_ERR_DIVISION_BY_ZERO_def MATH_ERR_NEGATIVE_ROOT_def)

lemma calculation_message: "calculation env op a b = Inl (code, msg) \<Longrightarrow> length msg \<le> max 46 (23 + length op)"
  by (auto simp: calculation_def split: if_splits)

lemma reply_ok: "Calculate_reply (fst (math_ok env v counter)) = Inr (v, ue_others env (counter + 1))"
  by (simp add: Calculate_reply_def math_ok_def go_reads STATUS_SUCCESS_def STATUS_ERROR_def)

lemma reply_err: "length msg < 2147483648 \<Longrightarrow> Calculate_reply (fst (math_err code msg counter)) = Inl (MathError code msg)"
  by (simp add: Calculate_reply_def math_err_def go_reads)

lemma request_calculate:
  assumes "valid_utf8 op" and "length op < 2147483648"
  shows "handle_calculate env (WriteString op @ WriteFloat64 a @ WriteFloat64 b) counter =
    (Inr (fst (calculate env op a b counter)), snd (calculate env op a b counter))"
  using assms by (simp add: handle_calculate_def rust_reads case_prod_beta)

lemma request_transform:
  assumes "valid_utf8 text" and "length text < 2147483648"
  shows "handle_transform_text env (WriteString text @ WriteBool upper @ WriteBool rev1) =
    Inr (write_u8 STATUS_SUCCESS @ write_string (transform env text upper rev1) @ write_i32 (of_nat (length (transform env text upper rev1))))"
  using assms by (simp add: handle_transform_text_def rust_reads Let_def)

text \<open>Reversing twice gives the text back, character by character.\<close>

lemma utf8_chars_concat: "list_all utf8_char cs \<Longrightarrow> utf8_chars (concat cs) = cs"
proof (induction cs)
  case (Cons c cs)
  then show ?case by (subst utf8_chars.simps) (auto simp: utf8_char_step)
qed (simp add: utf8_chars.simps)

lemma chars_rev_valid: "valid_utf8 s \<Longrightarrow> valid_utf8 (chars_rev s) \<and> chars_rev (chars_rev s) = s \<and> length (chars_rev s) = length s"
proof -
  assume s: "valid_utf8 s"
  note c = utf8_chars_valid [OF s]
  then have r: "list_all utf8_char (rev (utf8_chars s))" by (simp add: list_all_iff)
  have "length (concat (rev xs)) = length (concat xs)" for xs :: "'b list list" by (induction xs) auto
  with c r show ?thesis by (simp add: chars_rev_def valid_utf8_concat utf8_chars_concat)
qed

text \<open>The clock at the start of each turn of the slow job, and how the job ends: after as many turns as its delay
  takes, each with a check that passed, or at the first check that did not.\<close>

fun slow_time :: "uni_env \<Rightarrow> nat \<Rightarrow> instant" where
  "slow_time env 0 = ue_start env + ue_first env"
| "slow_time env (Suc k) = slow_time env k + ue_lag env k + SLOW_SLICE + ue_over env k"

definition slow_check :: "uni_env \<Rightarrow> JobContext \<Rightarrow> nat \<Rightarrow> CancelReason + unit" where
  "slow_check env ctx k = check (slow_time env k + ue_lag env k) (ue_cells env k) ctx"

lemma slow_loop_ends:
  "\<exists>n \<ge> k. (\<forall>j. k \<le> j \<and> j < n \<longrightarrow> slow_time env j - ue_start env < dur \<and> slow_check env ctx j = Inr ())
     \<and> (case slow_loop env ctx dur k (slow_time env k) of
          Inr t \<Rightarrow> t = slow_time env n \<and> dur \<le> t - ue_start env
        | Inl r \<Rightarrow> slow_time env n - ue_start env < dur \<and> slow_check env ctx n = Inl r)"
proof (induction "ue_start env + dur - slow_time env k" arbitrary: k rule: less_induct)
  case less
  show ?case
  proof (cases "slow_time env k - ue_start env < dur \<and> slow_check env ctx k = Inr ()")
    case True
    have step: "slow_loop env ctx dur k (slow_time env k) = slow_loop env ctx dur (Suc k) (slow_time env (Suc k))"
      using True by (subst slow_loop.simps) (simp add: slow_check_def)
    have "ue_start env + dur - slow_time env (Suc k) < ue_start env + dur - slow_time env k"
      using True by (simp add: SLOW_SLICE_def) arith
    from less [OF this] obtain n where n: "Suc k \<le> n"
      "\<forall>j. Suc k \<le> j \<and> j < n \<longrightarrow> slow_time env j - ue_start env < dur \<and> slow_check env ctx j = Inr ()"
      "case slow_loop env ctx dur (Suc k) (slow_time env (Suc k)) of
          Inr t \<Rightarrow> t = slow_time env n \<and> dur \<le> t - ue_start env
        | Inl r \<Rightarrow> slow_time env n - ue_start env < dur \<and> slow_check env ctx n = Inl r" by blast
    have "\<forall>j. k \<le> j \<and> j < n \<longrightarrow> slow_time env j - ue_start env < dur \<and> slow_check env ctx j = Inr ()"
      using n(2) True by (metis Suc_leI le_neq_implies_less)
    with n(1,3) step show ?thesis by (intro exI [of _ n]) simp
  next
    case False
    then show ?thesis
      by (intro exI [of _ k], subst slow_loop.simps) (auto simp: slow_check_def split: sum.splits)
  qed
qed

lemma slow_time_ge: "ue_start env + n * SLOW_SLICE \<le> slow_time env n"
  by (induction n) auto

text \<open>The slow job always ends: with a reply that shows at least the delay, or with the reason of the first check
  that failed, which is at most one slice and its lag after the cancellation.\<close>

lemma slow_job_ends:
  "\<exists>n \<le> delay_ns w div SLOW_SLICE + 1. (\<forall>j < n. slow_check env ctx j = Inr ())
     \<and> (handle_slow_job env ctx (WriteInt32 w) = Inr (write_u8 STATUS_SUCCESS
            @ write_i64 (of_nat ((slow_time env n + ue_tail env - ue_start env) div 1000000)) @ write_string (lit ''completed''))
          \<and> delay_ns w \<le> slow_time env n - ue_start env
        \<or> (\<exists>r. slow_check env ctx n = Inl r \<and> handle_slow_job env ctx (WriteInt32 w) = Inl (cancel_reason_string r)))"
proof -
  from slow_loop_ends [of 0 env "delay_ns w" ctx] obtain n where n:
    "\<forall>j < n. slow_time env j - ue_start env < delay_ns w \<and> slow_check env ctx j = Inr ()"
    "case slow_loop env ctx (delay_ns w) 0 (slow_time env 0) of
        Inr t \<Rightarrow> t = slow_time env n \<and> delay_ns w \<le> t - ue_start env
      | Inl r \<Rightarrow> slow_time env n - ue_start env < delay_ns w \<and> slow_check env ctx n = Inl r" by auto
  have "n \<le> delay_ns w div SLOW_SLICE + 1"
  proof (cases n)
    case (Suc m)
    have "m * SLOW_SLICE \<le> delay_ns w" using n(1) slow_time_ge [of env m] Suc by (auto dest: spec [of _ m])
    then have "m \<le> delay_ns w div SLOW_SLICE" by (simp add: SLOW_SLICE_def less_eq_div_iff_mult_less_eq)
    with Suc show ?thesis by simp
  qed simp
  moreover have "handle_slow_job env ctx (WriteInt32 w) =
      (case slow_loop env ctx (delay_ns w) 0 (slow_time env 0) of
         Inl r \<Rightarrow> Inl (cancel_reason_string r)
       | Inr now \<Rightarrow> Inr (write_u8 STATUS_SUCCESS @ write_i64 (of_nat ((now + ue_tail env - ue_start env) div 1000000))
                          @ write_string (lit ''completed'')))"
    by (simp add: handle_slow_job_def rust_reads)
  ultimately show ?thesis using n by (intro exI [of _ n]) (auto split: sum.splits)
qed

text \<open>The Go bindings also declare an operation \<open>Power\<close>; the engine does not know it.\<close>

lemma power_unsupported: "calculation env (lit ''Power'') a b = Inl (1, lit ''unsupported operation: '' @ lit ''Power'')"
  by (simp add: calculation_def lit_eq_iff)

subsection \<open>The engine keeps the pool's contract\<close>

lemma uniffi_engine_keeps: "engine_keeps (p, h) (uniffi_engine env counter th ctx input (p, h))"
proof (cases input)
  case Nil
  then show ?thesis by (simp add: uniffi_engine_def uniffi_dispatch_handler_def keeps_core)
next
  case (Cons fn_id rest)
  have out: "bytes_output r \<noteq> Done (Inr (OutAllocated v))" for r v by (cases r) (simp_all add: bytes_output_def)
  have raised: "same_core p (raise_panic th l p)" for l by (simp add: same_core_guard)
  show ?thesis using Cons out raised
    by (simp add: uniffi_engine_def uniffi_dispatch_handler_def keeps_core split: prod.split)
qed

lemma uniffi_contract:
  assumes "env_ok denv" and "sys_alloc_ok sa"
  shows "pool_contract (init_uniffi_engine env counter engines_init) denv sa"
proof -
  have "engine_keeps (p, h) (default_dispatch (init_uniffi_engine env counter engines_init) denv th ctx input (p, h))" for p h th ctx input
    by (rule default_dispatch_keeps [OF assms(1)])
      (auto simp: init_uniffi_engine_def set_engine_handler_def engines_init_def uniffi_engine_keeps)
  from keeps_contract [OF this] assms(2) show ?thesis by (simp add: pool_contract_def)
qed

definition demo_uni_env :: uni_env where
  "demo_uni_env = \<lparr>ue_add = (+), ue_sub = (-), ue_mul = (*), ue_div = (div), ue_sqrt = id, ue_upper = id, ue_others = id, ue_start = 0, ue_first = 0,
     ue_lag = (\<lambda>_. 0), ue_over = (\<lambda>_. 0), ue_cells = (\<lambda>_ _. False), ue_tail = 0, ue_file = lit ''src/lib.rs''\<rparr>"

interpretation uniffi_pool: pool_client "init_uniffi_engine demo_uni_env 0 engines_init" quiet_env bump_alloc
  using uniffi_contract [OF quiet_env_ok bump_alloc_ok] by (simp add: pool_client_iff)

text \<open>Whatever bytes arrive, the handler answers or refuses them; only the function made to panic unwinds.\<close>

lemma uniffi_never_unwinds:
  assumes "uniffi_dispatch_handler env th ctx input (counter, p, h) = (Raised pl, st')"
  shows "\<exists>rest. input = FN_TRIGGER_PANIC # rest"
  using assms by (auto simp: uniffi_dispatch_handler_def bytes_output_def split: list.splits if_splits prod.splits)

subsection \<open>Properties\<close>

text \<open>C38: A typed call through the UniFFI example comes back as what was asked for. The bytes the Go client writes for
  a calculation are decoded by the Rust engine to the same operation and operands, bit for bit, and the reply is
  decoded by the client to the operation's result and the operations total, or to the typed math error with its
  code and message (division by either zero, the root of a negative number, an unknown operation), and the counter
  moves only on a success. A text transform returns the transformed text with its length in bytes, whatever
  characters it holds, and reversing is undone by reversing.\<close>

theorem uniffi_calls_answered:
  assumes "valid_utf8 op" and "length op < 2147483600" and "valid_utf8 text" and "length text < 2147483648"
    and "length (transform env text upper rev1) < 2147483648"
  shows "(\<exists>out. uniffi_dispatch_handler env th ctx (Calculate_request op a b) (counter, st) =
         (Done (Inr (OutBytes out)), (if isl (calculation env op a b) then counter else ue_others env (counter + 1)), st)
       \<and> Calculate_reply out = (case calculation env op a b of
           Inl (code, msg) \<Rightarrow> Inl (MathError code msg) | Inr v \<Rightarrow> Inr (v, ue_others env (counter + 1))))
    \<and> (\<exists>out. uniffi_dispatch_handler env th ctx (TransformText_request text upper rev1) (counter, st) = (Done (Inr (OutBytes out)), counter, st)
       \<and> TransformText_reply out = Inr (transform env text upper rev1, of_nat (length (transform env text upper rev1)))
       \<and> unat (of_nat (length (transform env text upper rev1)) :: wire32) = length (transform env text upper rev1))
    \<and> transform env (transform env text False True) False True = text"
proof -
  let ?t = "transform env text upper rev1"
  have calc: "uniffi_dispatch_handler env th ctx (Calculate_request op a b) (counter, st) =
      (Done (Inr (OutBytes (fst (calculate env op a b counter)))), snd (calculate env op a b counter), st)"
    using request_calculate [OF assms(1), of env a b counter] assms(2)
    by (simp add: uniffi_dispatch_handler_def Calculate_request_def WriteUint8_def bytes_output_def FN_CALCULATE_def split: prod.split)
  have reply: "Calculate_reply (fst (calculate env op a b counter)) = (case calculation env op a b of
      Inl (code, msg) \<Rightarrow> Inl (MathError code msg) | Inr v \<Rightarrow> Inr (v, ue_others env (counter + 1)))"
    using calculation_message [of env op a b] assms(2)
    by (auto simp: calculate_cases reply_ok intro!: reply_err split: sum.split)
  have counter: "snd (calculate env op a b counter) = (if isl (calculation env op a b) then counter else ue_others env (counter + 1))"
    by (auto simp: calculate_cases math_ok_def math_err_def split: sum.split)
  have trans: "uniffi_dispatch_handler env th ctx (TransformText_request text upper rev1) (counter, st) =
      (Done (Inr (OutBytes (write_u8 STATUS_SUCCESS @ write_string ?t @ write_i32 (of_nat (length ?t))))), counter, st)"
    using request_transform [OF assms(3,4), of env upper rev1]
    by (simp add: uniffi_dispatch_handler_def TransformText_request_def WriteUint8_def bytes_output_def FN_CALCULATE_def
        FN_TRANSFORM_TEXT_def split: prod.split)
  have "TransformText_reply (write_u8 STATUS_SUCCESS @ write_string ?t @ write_i32 (of_nat (length ?t))) = Inr (?t, of_nat (length ?t))"
    using assms(5) by (simp add: TransformText_reply_def go_reads STATUS_SUCCESS_def STATUS_ERROR_def)
  moreover have "unat (of_nat (length ?t) :: wire32) = length ?t" using assms(5) by (simp add: unat_of_nat)
  moreover have "transform env (transform env text False True) False True = text"
    using chars_rev_valid [OF assms(3)] by (simp add: transform_def)
  ultimately show ?thesis using calc reply counter trans by (intro conjI exI) (rule refl | simp)+
qed

theorem uniffi_calls_answered_witness:
  "(\<exists>out. fst (uniffi_dispatch_handler demo_uni_env demo_thread (JobContext_new 0 CallHeader_default 1)
       (Calculate_request (lit ''Divide'') 7 0x8000000000000000) (3, ps_p (pool_start 4 True), ps_h (pool_start 4 True))) = Done (Inr (OutBytes out))
     \<and> Calculate_reply out = Inl (MathError 2 (lit ''division by zero'')))
   \<and> (\<exists>out. fst (uniffi_dispatch_handler demo_uni_env demo_thread (JobContext_new 0 CallHeader_default 1)
       (TransformText_request (lit ''abc'') True True) (3, ps_p (pool_start 4 True), ps_h (pool_start 4 True))) = Done (Inr (OutBytes out))
     \<and> TransformText_reply out = Inr (lit ''CBA'', 3))"
proof -
  have v: "valid_utf8 (lit ''Divide'')" "valid_utf8 (lit ''abc'')" by (rule valid_lit; simp)+
  have t: "transform demo_uni_env (lit ''abc'') True True = lit ''CBA''" by code_simp
  have c: "calculation demo_uni_env (lit ''Divide'') 7 0x8000000000000000 = Inl (2, lit ''division by zero'')" by code_simp
  have l: "length (transform demo_uni_env (lit ''abc'') True True) < 2147483648" "length (lit ''Divide'') < 2147483600" "length (lit ''abc'') < 2147483648"
    by (simp_all add: t)
  from uniffi_calls_answered [OF v(1) l(2) v(2) l(3,1), of demo_thread "JobContext_new 0 CallHeader_default 1" 7 "0x8000000000000000" 3 "(ps_p (pool_start 4 True), ps_h (pool_start 4 True))"]
  show ?thesis by (auto simp: t c)
qed

end
