(* ===== verification/Build_Probe.thy ===== *)
theory Build_Probe
  imports Guard Utf8
begin

text \<open>
  The build scripts: \<open>build.rs\<close> of the runtime crate with its probe (\<open>allocator_probe.rs\<close>), and \<open>build.rs\<close> of the example
  crate, which reads the probe's answer. What a script reads and does is explicit: its environment, the files of
  the output directory, the lines it prints for cargo. The compiler, the hash function (whose algorithm the
  standard library leaves open) and the outcome of a file write are arguments.
\<close>

subsection \<open>Environment, files and processes\<close>

type_synonym environ = "rstr \<Rightarrow> bytes option"
type_synonym files = "rstr \<Rightarrow> bytes option"

text \<open>\<open>env::var\<close>: the variable is set and its value is Unicode.\<close>

definition env_var :: "environ \<Rightarrow> string \<Rightarrow> rstr option" where
  "env_var e k = (case e (lit k) of Some v \<Rightarrow> (case from_utf8 v of Inr s \<Rightarrow> Some s | Inl _ \<Rightarrow> None) | None \<Rightarrow> None)"

definition read_to_string :: "rstr \<Rightarrow> files \<Rightarrow> rstr option" where
  "read_to_string path fs = (case fs path of Some v \<Rightarrow> (case from_utf8 v of Inr s \<Rightarrow> Some s | Inl _ \<Rightarrow> None) | None \<Rightarrow> None)"

definition path_join :: "rstr \<Rightarrow> string \<Rightarrow> rstr" where
  "path_join dir name = (if dir = [] \<or> last dir = 47 then dir @ lit name else dir @ [47] @ lit name)"

text \<open>What the system does for a script: how a command line ends (an I/O error, or its success, output and
  diagnostics, given the files it can read), the hash of a cache key's parts, and whether writing a path fails
  (given the new and the old content), and then what it leaves there.\<close>

record build_os =
  os_output :: "rstr list \<Rightarrow> files \<Rightarrow> rstr + (bool \<times> bytes \<times> bytes)"
  os_hash :: "bytes \<Rightarrow> rstr \<Rightarrow> rstr option \<Rightarrow> rstr option \<Rightarrow> bytes option \<Rightarrow> u64"
  os_write_fails :: "rstr \<Rightarrow> bytes \<Rightarrow> bytes option \<Rightarrow> bytes option option"

definition write_file :: "build_os \<Rightarrow> rstr \<Rightarrow> bytes \<Rightarrow> files \<Rightarrow> bool \<times> files" where
  "write_file os path content fs =
     (case os_write_fails os path content (fs path) of None \<Rightarrow> (True, fs(path \<mapsto> content)) | Some left_over \<Rightarrow> (False, fs(path := left_over)))"

subsection \<open>The probe\<close>

definition publish :: "environ \<Rightarrow> bool \<Rightarrow> rstr list" where
  "publish e on =
     (if env_var e ''CARGO_MANIFEST_LINKS'' = Some (lit ''gusset'')
      then [lit ''cargo::metadata=allocator_api='' @ (if on then lit ''1'' else lit ''0'')] else [])"

definition run_probe :: "build_os \<Rightarrow> environ \<Rightarrow> rstr \<Rightarrow> rstr \<Rightarrow> rstr \<Rightarrow> bool \<Rightarrow> files \<Rightarrow> bool \<times> rstr" where
  "run_probe os e rustc out_dir src as_target fs =
     (let program = (case e (lit ''RUSTC_WRAPPER'') of Some w \<Rightarrow> if w \<noteq> [] \<and> as_target then [w, rustc] else [rustc] | None \<Rightarrow> [rustc]);
          flags1 = (if as_target
             then (case env_var e ''CARGO_ENCODED_RUSTFLAGS'' of
                     Some f \<Rightarrow> filter (\<lambda>x. x \<noteq> []) (split_by (\<lambda>b. b = 0x1f) f) | None \<Rightarrow> [])
             else []);
          target = (if as_target
             then (case env_var e ''TARGET'' of Some t \<Rightarrow> [lit ''--target'', t] | None \<Rightarrow> []) else [])
      in case os_output os (program @ flags1
             @ [lit ''--crate-type=lib'', lit ''--edition=2021'', lit ''--emit=metadata'',
                lit ''--crate-name=gusset_allocator_probe'', lit ''--out-dir'', out_dir, lit ''--cap-lints=allow'']
             @ target @ [src]) fs of
           Inr (success, stdout, stderr) \<Rightarrow> (success, from_utf8_lossy stderr)
         | Inl err \<Rightarrow> (False, lit ''could not run rustc: '' @ err))"

definition compute_cache_key :: "build_os \<Rightarrow> environ \<Rightarrow> rstr \<Rightarrow> rstr \<Rightarrow> files \<Rightarrow> u64 option" where
  "compute_cache_key os e rustc code fs =
     (case os_output os [rustc, lit ''-vV''] fs of
        Inl _ \<Rightarrow> None
      | Inr (_, stdout, _) \<Rightarrow>
          Some (os_hash os stdout code (env_var e ''CARGO_ENCODED_RUSTFLAGS'') (env_var e ''TARGET'') (e (lit ''RUSTC_WRAPPER''))))"

definition probe_code :: rstr where
  "probe_code = concat (map (\<lambda>l. 10 # lit l)
    [''        use std::alloc::{Allocator, AllocError, Global, Layout, System};'',
     ''        use std::ptr::NonNull;'',
     ''        #[derive(Clone, Copy)]'',
     ''        pub struct P;'',
     ''        unsafe impl Allocator for P {'',
     ''            fn allocate(&self, l: Layout) -> Result<NonNull<[u8]>, AllocError> { Global.allocate(l) }'',
     ''            fn allocate_zeroed(&self, l: Layout) -> Result<NonNull<[u8]>, AllocError> { Global.allocate_zeroed(l) }'',
     ''            unsafe fn deallocate(&self, p: NonNull<u8>, l: Layout) { unsafe { Global.deallocate(p, l) } }'',
     ''            unsafe fn grow(&self, p: NonNull<u8>, o: Layout, n: Layout) -> Result<NonNull<[u8]>, AllocError> { unsafe { Global.grow(p, o, n) } }'',
     ''            unsafe fn grow_zeroed(&self, p: NonNull<u8>, o: Layout, n: Layout) -> Result<NonNull<[u8]>, AllocError> { unsafe { Global.grow_zeroed(p, o, n) } }'',
     ''            unsafe fn shrink(&self, p: NonNull<u8>, o: Layout, n: Layout) -> Result<NonNull<[u8]>, AllocError> { unsafe { Global.shrink(p, o, n) } }'',
     ''        }'',
     ''        pub fn f() -> usize {'',
     ''            let mut v: Vec<u8, P> = Vec::with_capacity_in(8, P);'',
     ''            let _ = v.try_reserve(8);'',
     ''            let b: Box<u8, P> = Box::new_in(1, P);'',
     ''            let (raw, a) = Box::into_raw_with_allocator(b);'',
     ''            let b = unsafe { Box::from_raw_in(raw, a) };'',
     ''            // BufferAlloc allocates from System as an Allocator.'',
     ''            let s: Vec<u8, System> = Vec::with_capacity_in(8, System);'',
     ''            v.len() + *b as usize + Vec::<u8, P>::new_in(P).capacity() + s.capacity()'',
     ''        }'',
     ''    ''])"

text \<open>The answer kept in the output directory by an earlier run with the same key.\<close>

definition cached_result :: "u64 option \<Rightarrow> rstr \<Rightarrow> files \<Rightarrow> bool option" where
  "cached_result cache_key cache_file fs =
     (case (cache_key, read_to_string cache_file fs) of
        (Some key, Some contents) \<Rightarrow>
          (case split_whitespace contents of
             k # v # _ \<Rightarrow> if k = show_nat (unat key) then Some (v = lit ''1'') else None
           | _ \<Rightarrow> None)
      | _ \<Rightarrow> None)"

definition cache_entry :: "u64 \<Rightarrow> bool \<Rightarrow> rstr" where
  "cache_entry key ok = show_nat (unat key) @ lit '' '' @ (if ok then lit ''1'' else lit ''0'') @ [10]"

text \<open>Both compiles, the target's and the host's, with the diagnostics of what failed.\<close>

definition compile_probe :: "build_os \<Rightarrow> environ \<Rightarrow> rstr \<Rightarrow> rstr \<Rightarrow> rstr \<Rightarrow> files \<Rightarrow> bool \<times> rstr" where
  "compile_probe os e rustc out_dir src fs =
     (let (ok, stderr) = run_probe os e rustc out_dir src True fs
      in if ok then (True, stderr)
         else let (host_ok, host_err) = run_probe os e rustc out_dir src False fs
              in if host_ok then (True, stderr) else (False, stderr @ lit [CHR 0x0A] @ lit ''-- host retry --'' @ lit [CHR 0x0A] @ host_err))"

definition forced_failure :: "rstr \<Rightarrow> rstr" where
  "forced_failure stderr = lit ''GUSSET_ALLOCATOR_API=1 but the allocator probe failed to compile. Rust 1.100+ is required; if this is a cross or -Zbuild-std build, the probe could not find std for the target. Compiler output:''
     @ lit [CHR 0x0A] @ stderr"

definition cfg_on :: rstr where "cfg_on = lit ''cargo::rustc-cfg=gusset_allocator_api''"

text \<open>The probe's end, once an answer is known.\<close>

definition probe_answer ::
  "build_os \<Rightarrow> environ \<Rightarrow> rstr option \<Rightarrow> rstr \<Rightarrow> rstr \<Rightarrow> rstr \<Rightarrow> bool \<Rightarrow> rstr \<Rightarrow> files \<Rightarrow> unit outcome \<times> rstr list" where
  "probe_answer os e forced rustc out_dir src ok stderr fs =
     (if ok then (Done (), [cfg_on] @ publish e True)
      else if forced = Some (lit ''1'') then
        (let stderr1 = (if stderr = [] then snd (run_probe os e rustc out_dir src False fs) else stderr)
         in (Raised (PString (forced_failure stderr1)), []))
      else (Done (), publish e False))"

definition probe_header :: "rstr list" where
  "probe_header = [lit ''cargo::rustc-check-cfg=cfg(gusset_allocator_api)'',
     lit ''cargo::rerun-if-env-changed=GUSSET_ALLOCATOR_API'', lit ''cargo::rerun-if-env-changed=RUSTC'']"

definition probe_allocator_api :: "build_os \<Rightarrow> environ \<Rightarrow> files \<Rightarrow> unit outcome \<times> rstr list \<times> files" where
  "probe_allocator_api os e fs =
     (let forced = env_var e ''GUSSET_ALLOCATOR_API''
      in if forced = Some (lit ''0'') then (Done (), probe_header @ publish e False, fs)
         else case e (lit ''OUT_DIR'') of
           None \<Rightarrow> (Done (), probe_header @ publish e False, fs)
         | Some out_dir \<Rightarrow>
             (let rustc = (case e (lit ''RUSTC'') of Some r \<Rightarrow> r | None \<Rightarrow> lit ''rustc'');
                  src = path_join out_dir ''gusset_allocator_probe.rs'';
                  cache_file = path_join out_dir ''gusset_allocator_probe.cache'';
                  cache_key = compute_cache_key os e rustc probe_code fs
              in case cached_result cache_key cache_file fs of
                   Some cached_ok \<Rightarrow>
                     (let (r, out) = probe_answer os e forced rustc out_dir src cached_ok [] fs in (r, probe_header @ out, fs))
                 | None \<Rightarrow>
                     (let (wrote, fs1) = write_file os src probe_code fs
                      in if \<not> wrote then (Done (), probe_header @ publish e False, fs1)
                         else
                           (let (ok, stderr) = compile_probe os e rustc out_dir src fs1;
                                fs2 = (case cache_key of
                                   Some key \<Rightarrow> snd (write_file os cache_file (cache_entry key ok) fs1)
                                 | None \<Rightarrow> fs1);
                                (r, out) = probe_answer os e forced rustc out_dir src ok stderr fs2
                            in (r, probe_header @ out, fs2)))))"

text \<open>The two build scripts.\<close>

definition panic_abort_msg :: rstr where
  "panic_abort_msg = lit (''gusset requires panic = '' @ [CHR 0x27] @ ''unwind'' @ [CHR 0x27] @ ''. Found panic = '' @ [CHR 0x27] @ ''abort''
     @ [CHR 0x27] @ '', which disables the panic firewall (R2).'')"

definition runtime_build_main :: "build_os \<Rightarrow> environ \<Rightarrow> files \<Rightarrow> unit outcome \<times> rstr list \<times> files" where
  "runtime_build_main os e fs =
     (if env_var e ''CARGO_CFG_PANIC'' = Some (lit ''abort'') then (Raised (PStr panic_abort_msg), [], fs)
      else probe_allocator_api os e fs)"

definition example_build_main :: "environ \<Rightarrow> rstr list" where
  "example_build_main e =
     [lit ''cargo::rustc-check-cfg=cfg(gusset_allocator_api)'', lit ''cargo::rerun-if-env-changed=DEP_GUSSET_ALLOCATOR_API'']
     @ (if env_var e ''DEP_GUSSET_ALLOCATOR_API'' = Some (lit ''1'') then [cfg_on] else [])"

subsection \<open>Lemmas: the cache entry\<close>

definition ascii_space :: "u8 \<Rightarrow> bool" where
  "ascii_space b \<longleftrightarrow> 9 \<le> b \<and> b \<le> 13 \<or> b = 32"

lemma utf8_chars_ascii: "(\<forall>b \<in> set s. b < 0x80) \<Longrightarrow> utf8_chars s = map (\<lambda>b. [b]) s"
  by (induction s) (simp_all add: utf8_chars.simps)

lemma split_by_single: "split_by P (map (\<lambda>b. [b]) s) = map (map (\<lambda>b. [b])) (split_by (\<lambda>b. P [b]) s)"
  by (induction s) (auto split: list.split)

lemma split_whitespace_ascii:
  assumes "\<forall>b \<in> set s. b < 0x80"
  shows "split_whitespace s = filter (\<lambda>w. w \<noteq> []) (split_by ascii_space s)"
proof -
  have "is_whitespace [b] = ascii_space b" for b by (simp add: is_whitespace_def ascii_space_def)
  then show ?thesis using assms
    by (simp add: split_whitespace_def utf8_chars_ascii split_by_single filter_map o_def)
qed

lemma split_by_word: "(\<forall>x \<in> set w. \<not> P x) \<Longrightarrow> split_by P w = [w]"
  by (induction w) auto

lemma split_by_sep: "(\<forall>x \<in> set w. \<not> P x) \<Longrightarrow> P b \<Longrightarrow> split_by P (w @ b # ys) = w # split_by P ys"
  by (induction w) auto

lemma digit_range: "d < 10 \<Longrightarrow> 48 \<le> unat (digit d) \<and> unat (digit d) \<le> 57 \<and> unat (digit d) - 48 = d"
proof -
  assume "d < 10"
  then have "d \<in> {0, 1, 2, 3, 4, 5, 6, 7, 8, 9}" by auto
  then show ?thesis by (auto simp: digit_def)
qed

lemma show_nat_digits: "x \<in> set (show_nat n) \<Longrightarrow> 48 \<le> unat x \<and> unat x \<le> 57"
  unfolding show_nat_def
proof (induction "10 :: nat" n rule: show_base.induct)
  case (1 n)
  from "1.prems" show ?case using digit_range [of n] digit_range [of "n mod 10"] "1.hyps"
    by (subst (asm) show_base.simps) (auto split: if_splits)
qed

definition num_val :: "rstr \<Rightarrow> nat" where
  "num_val s = foldl (\<lambda>a d. 10 * a + (unat d - 48)) 0 s"

lemma num_val_show: "num_val (show_nat n) = n"
  unfolding show_nat_def
proof (induction "10 :: nat" n rule: show_base.induct)
  case (1 n)
  show ?case
  proof (cases "n < 10")
    case True
    then show ?thesis using digit_range [of n] by (subst show_base.simps) (simp add: num_val_def)
  next
    case False
    with "1.hyps" digit_range [of "n mod 10"] show ?thesis by (subst show_base.simps) (simp add: num_val_def)
  qed
qed

lemma show_nat_inj: "show_nat m = show_nat n \<longleftrightarrow> m = n"
  using num_val_show by metis

lemma show_nat_plain: "x \<in> set (show_nat n) \<Longrightarrow> x < 0x80 \<and> \<not> ascii_space x"
  using show_nat_digits [of x n] by (auto simp: ascii_space_def word_less_nat_alt word_le_nat_alt)

text \<open>An entry, or the part of one that a failed write left, reads as the answer that was written or as none.\<close>

lemma cache_entry_parts:
  "split_whitespace (take n (cache_entry key ok)) = [show_nat (unat key), if ok then lit ''1'' else lit ''0'']
    \<or> length (split_whitespace (take n (cache_entry key ok))) < 2"
proof -
  let ?k = "show_nat (unat key)" and ?v = "if ok then 49 else 48 :: u8"
  have e: "cache_entry key ok = ?k @ [32, ?v, 10]" by (simp add: cache_entry_def lit_def)
  have ascii: "\<forall>b \<in> set (take n (cache_entry key ok)). b < 0x80"
    using show_nat_plain by (auto simp: e dest!: in_set_takeD split: if_splits)
  have plain: "\<forall>x \<in> set (take m ?k). \<not> ascii_space x" for m using show_nat_plain in_set_takeD by fast
  have sp: "ascii_space 32" "ascii_space 10" "\<not> ascii_space ?v" by (auto simp: ascii_space_def)
  let ?r = "n - length ?k"
  consider "n \<le> length ?k" | "?r = 1" "length ?k < n" | "?r = 2" "length ?k < n" | "2 < ?r" "length ?k < n" by linarith
  then show ?thesis
  proof cases
    case 1
    then show ?thesis using plain [of n] unfolding split_whitespace_ascii [OF ascii] by (simp add: e split_by_word)
  qed (use plain [of "length ?k"] sp split_whitespace_ascii [OF ascii] in \<open>auto simp: e split_by_sep split_by_word lit_def take_Cons'\<close>)
qed

lemma cached_result_entry:
  assumes "fs c = Some (take n (cache_entry k1 ok1))" and "cached_result (Some k) c fs = Some ok"
  shows "k = k1 \<and> ok = ok1"
  using assms cache_entry_parts [of n k1 ok1]
  by (auto simp: cached_result_def read_to_string_def from_utf8_iff show_nat_inj lit_def word_unat_eq_iff
      split: option.splits sum.splits list.splits if_splits)

subsection \<open>Lemmas: the answer\<close>

text \<open>The files and the compiler of a build in the directory \<open>d\<close>, and the answer a compile gives.\<close>

definition probe_rustc :: "environ \<Rightarrow> rstr" where
  "probe_rustc e = (case e (lit ''RUSTC'') of Some r \<Rightarrow> r | None \<Rightarrow> lit ''rustc'')"

abbreviation probe_src :: "rstr \<Rightarrow> rstr" where
  "probe_src d \<equiv> path_join d ''gusset_allocator_probe.rs''"

abbreviation probe_cache :: "rstr \<Rightarrow> rstr" where
  "probe_cache d \<equiv> path_join d ''gusset_allocator_probe.cache''"

definition verdict :: "build_os \<Rightarrow> environ \<Rightarrow> rstr \<Rightarrow> files \<Rightarrow> bool" where
  "verdict os e d fs = fst (compile_probe os e (probe_rustc e) d (probe_src d) (fs(probe_src d \<mapsto> probe_code)))"

lemma path_join_length: "length (path_join d a) = length (path_join d b) \<longleftrightarrow> length a = length b"
  by (simp add: path_join_def)

lemma probe_src_cache [simp]: "probe_src d \<noteq> probe_cache d" "probe_cache d \<noteq> probe_src d"
  using path_join_length [of d "''gusset_allocator_probe.rs''" "''gusset_allocator_probe.cache''"] by auto

lemma cfg_on_plain [simp]: "cfg_on \<notin> set probe_header" "cfg_on \<notin> set (publish e on)"
  by (auto simp: cfg_on_def probe_header_def publish_def dest: arg_cong [of _ _ length])

text \<open>How the probe ends: it gave up, or it had an answer, from the cache or from a compile of its source.\<close>

lemma probe_cases:
  assumes "probe_allocator_api os e fs = (r, out, fs')"
  obtains (off) "r = Done ()" "out = probe_header @ publish e False" "fs' (probe_cache d) = fs (probe_cache d) \<or> e (lit ''OUT_DIR'') \<noteq> Some d"
      "env_var e ''GUSSET_ALLOCATOR_API'' = Some (lit ''0'') \<or> e (lit ''OUT_DIR'') = None
        \<or> (\<exists>d. e (lit ''OUT_DIR'') = Some d \<and> os_write_fails os (probe_src d) probe_code (fs (probe_src d)) \<noteq> None
             \<and> cached_result (compute_cache_key os e (probe_rustc e) probe_code fs) (probe_cache d) fs = None)"
  | (cached) dir ok where "env_var e ''GUSSET_ALLOCATOR_API'' \<noteq> Some (lit ''0'')" "e (lit ''OUT_DIR'') = Some dir" "fs' = fs"
      "cached_result (compute_cache_key os e (probe_rustc e) probe_code fs) (probe_cache dir) fs = Some ok"
      "\<exists>lines. probe_answer os e (env_var e ''GUSSET_ALLOCATOR_API'') (probe_rustc e) dir (probe_src dir) ok [] fs = (r, lines)
         \<and> out = probe_header @ lines"
  | (compiled) dir stderr where "env_var e ''GUSSET_ALLOCATOR_API'' \<noteq> Some (lit ''0'')" "e (lit ''OUT_DIR'') = Some dir"
      "fs' = (case compute_cache_key os e (probe_rustc e) probe_code fs of
         Some key \<Rightarrow> snd (write_file os (probe_cache dir) (cache_entry key (verdict os e dir fs)) (fs(probe_src dir \<mapsto> probe_code)))
       | None \<Rightarrow> fs(probe_src dir \<mapsto> probe_code))"
      "\<exists>lines. probe_answer os e (env_var e ''GUSSET_ALLOCATOR_API'') (probe_rustc e) dir (probe_src dir) (verdict os e dir fs) stderr fs' = (r, lines)
         \<and> out = probe_header @ lines"
proof (cases "e (lit ''OUT_DIR'')")
  case None
  with assms have "r = Done ()" "out = probe_header @ publish e False" "fs' = fs"
    by (simp_all add: probe_allocator_api_def Let_def split: if_splits)
  with None show thesis by (intro off) simp_all
next
  case (Some dir)
  let ?key = "compute_cache_key os e (probe_rustc e) probe_code fs"
  show thesis
  proof (cases "env_var e ''GUSSET_ALLOCATOR_API'' = Some (lit ''0'')")
    case True
    with assms have "r = Done ()" "out = probe_header @ publish e False" "fs' = fs" by (simp_all add: probe_allocator_api_def Let_def)
    with True show thesis by (intro off) simp_all
  next
    case False
    note run = assms [unfolded probe_allocator_api_def Let_def, folded probe_rustc_def, simplified Some False option.case if_False]
    show thesis
    proof (cases "cached_result ?key (probe_cache dir) fs")
      case (Some ok)
      with run False \<open>e _ = Some dir\<close> show thesis by (intro cached) (auto split: prod.splits)
    next
      case None
      show thesis
      proof (cases "os_write_fails os (probe_src dir) probe_code (fs (probe_src dir))")
        case (Some l)
        with run None \<open>e _ = Some dir\<close> show thesis by (intro off) (auto simp: write_file_def)
      next
        case wrote: None
        obtain ok stderr where c: "compile_probe os e (probe_rustc e) dir (probe_src dir) (fs(probe_src dir \<mapsto> probe_code)) = (ok, stderr)" by force
        then have "ok = verdict os e dir fs" by (simp add: verdict_def)
        with run None wrote c False \<open>e _ = Some dir\<close> show thesis
          by (intro compiled [of dir stderr]) (auto simp: write_file_def split: prod.splits)
      qed
    qed
  qed
qed

text \<open>What cargo hands a dependent: the value of the last \<open>cargo::metadata=allocator_api=\<close> line.\<close>

definition metadata_key :: rstr where "metadata_key = lit ''cargo::metadata=allocator_api=''"

fun metadata_value :: "rstr list \<Rightarrow> rstr option" where
  "metadata_value [] = None"
| "metadata_value (l # ls) =
     (case metadata_value ls of
        Some v \<Rightarrow> Some v
      | None \<Rightarrow> if take (length metadata_key) l = metadata_key then Some (drop (length metadata_key) l) else None)"

lemma metadata_append: "metadata_value (xs @ ys) = (case metadata_value ys of Some v \<Rightarrow> Some v | None \<Rightarrow> metadata_value xs)"
  by (induction xs) (auto split: option.splits)

lemma metadata_plain [simp]:
  "metadata_value probe_header = None" "metadata_value [cfg_on] = None" "take (length metadata_key) cfg_on \<noteq> metadata_key"
  by (simp_all add: probe_header_def cfg_on_def metadata_key_def lit_def)

lemma metadata_publish:
  "metadata_value (publish e on) =
     (if env_var e ''CARGO_MANIFEST_LINKS'' = Some (lit ''gusset'') then Some (if on then lit ''1'' else lit ''0'') else None)"
  by (simp add: publish_def metadata_key_def lit_append)

lemma probe_answer_lines:
  assumes "probe_answer os e forced rustc d src ok stderr fs = (r, lines)"
  shows "cfg_on \<in> set lines \<longleftrightarrow> ok" and "r = Done () \<longleftrightarrow> ok \<or> forced \<noteq> Some (lit ''1'')"
    and "r = Done () \<Longrightarrow> metadata_value lines = metadata_value (publish e ok)"
  using assms by (auto simp: probe_answer_def Let_def metadata_append split: if_splits option.splits)

text \<open>Every normal end prints the configuration line exactly when it publishes a one.\<close>

lemma probe_consistent:
  assumes "probe_allocator_api os e fs = (Done (), out, fs')"
  shows "metadata_value out = metadata_value (publish e (cfg_on \<in> set out))"
  using assms
proof (cases rule: probe_cases [where d = "[]"])
  case off
  then show ?thesis by (simp add: metadata_append split: option.split)
next
  case (cached dir ok)
  then show ?thesis using probe_answer_lines by (fastforce simp: metadata_append split: option.split)
next
  case (compiled dir stderr)
  then show ?thesis using probe_answer_lines by (fastforce simp: metadata_append split: option.split)
qed

lemma runtime_build_normal:
  assumes "runtime_build_main os e fs = (Done (), out, fs')"
  shows "env_var e ''CARGO_CFG_PANIC'' \<noteq> Some (lit ''abort'')" and "probe_allocator_api os e fs = (Done (), out, fs')"
  using assms by (auto simp: runtime_build_main_def split: if_splits)

lemma example_cfg: "cfg_on \<in> set (example_build_main e) \<longleftrightarrow> env_var e ''DEP_GUSSET_ALLOCATOR_API'' = Some (lit ''1'')"
  by (auto simp: example_build_main_def cfg_on_def dest: arg_cong [of _ _ length])

subsection \<open>Lemmas: builds that share a cache\<close>

text \<open>A compile reads, of the output directory, only the file its last argument names, and a version query none; a
  failed write leaves the old content or the front of the new.\<close>

definition reads_last :: "build_os \<Rightarrow> bool" where
  "reads_last os \<longleftrightarrow> (\<forall>argv fs fs'. last argv = lit ''-vV'' \<or> fs (last argv) = fs' (last argv) \<longrightarrow> os_output os argv fs = os_output os argv fs')"

definition tears_only :: "build_os \<Rightarrow> bool" where
  "tears_only os \<longleftrightarrow> (\<forall>path new old rest. os_write_fails os path new old = Some rest \<longrightarrow> rest = old \<or> (\<exists>n. rest = Some (take n new)))"

text \<open>A history of builds in one output directory, and what its builds must agree on: builds whose keys are equal
  have equal compilers, so their compiles give one answer.\<close>

type_synonym build = "build_os \<times> environ"

definition build_ok :: "rstr \<Rightarrow> build \<Rightarrow> bool" where
  "build_ok d b \<longleftrightarrow> (case b of (os, e) \<Rightarrow> e (lit ''OUT_DIR'') = Some d \<and> reads_last os \<and> tears_only os)"

definition build_key :: "build \<Rightarrow> u64 option" where
  "build_key b = (case b of (os, e) \<Rightarrow> compute_cache_key os e (probe_rustc e) probe_code Map.empty)"

definition build_verdict :: "rstr \<Rightarrow> build \<Rightarrow> bool" where
  "build_verdict d b = (case b of (os, e) \<Rightarrow> verdict os e d Map.empty)"

definition keys_tell :: "rstr \<Rightarrow> build set \<Rightarrow> bool" where
  "keys_tell d B \<longleftrightarrow> (\<forall>b \<in> B. \<forall>c \<in> B. build_key b \<noteq> None \<longrightarrow> build_key b = build_key c \<longrightarrow> build_verdict d b = build_verdict d c)"

definition run_builds :: "build list \<Rightarrow> files \<Rightarrow> files" where
  "run_builds bs fs = fold (\<lambda>(os, e) fs. snd (snd (probe_allocator_api os e fs))) bs fs"

lemma reads_lastD:
  "reads_last os \<Longrightarrow> last argv = lit ''-vV'' \<or> fs (last argv) = fs' (last argv) \<Longrightarrow> os_output os argv fs = os_output os argv fs'"
  unfolding reads_last_def by blast

lemma run_probe_reads:
  assumes "reads_last os" and "fs src = fs' src"
  shows "run_probe os e rustc d src t fs = run_probe os e rustc d src t fs'"
proof -
  have "os_output os (a @ b @ c @ g @ [src]) fs = os_output os (a @ b @ c @ g @ [src]) fs'" for a b c g
    by (rule reads_lastD [OF assms(1)]) (simp add: assms(2))
  then show ?thesis by (simp only: run_probe_def Let_def)
qed

lemma verdict_reads:
  assumes "reads_last os"
  shows "verdict os e d fs = build_verdict d (os, e)"
proof -
  have "run_probe os e r d (probe_src d) t (fs(probe_src d \<mapsto> probe_code)) = run_probe os e r d (probe_src d) t [probe_src d \<mapsto> probe_code]" for r t
    by (rule run_probe_reads [OF assms]) simp
  then show ?thesis by (simp only: verdict_def build_verdict_def compile_probe_def prod.case)
qed

lemma key_reads:
  assumes "reads_last os"
  shows "compute_cache_key os e (probe_rustc e) probe_code fs = build_key (os, e)"
proof -
  have "os_output os [probe_rustc e, lit ''-vV''] fs = os_output os [probe_rustc e, lit ''-vV''] Map.empty"
    by (rule reads_lastD [OF assms]) simp
  then show ?thesis by (simp only: compute_cache_key_def build_key_def prod.case)
qed

lemma tears_onlyD:
  "tears_only os \<Longrightarrow> os_write_fails os path new old = Some rest \<Longrightarrow> rest = old \<or> (\<exists>n. rest = Some (take n new))"
  unfolding tears_only_def by blast

text \<open>What the cache says under the key of any of the builds is that build's answer.\<close>

definition cache_true :: "rstr \<Rightarrow> build set \<Rightarrow> files \<Rightarrow> bool" where
  "cache_true d B fs \<longleftrightarrow> (\<forall>b \<in> B. \<forall>ok. cached_result (build_key b) (probe_cache d) fs = Some ok \<longrightarrow> ok = build_verdict d b)"

lemma cached_result_cong: "fs' c = fs c \<Longrightarrow> cached_result k c fs' = cached_result k c fs"
  by (simp add: cached_result_def read_to_string_def)

lemma cache_true_cong: "fs' (probe_cache d) = fs (probe_cache d) \<Longrightarrow> cache_true d B fs \<Longrightarrow> cache_true d B fs'"
  using cached_result_cong [of fs' "probe_cache d" fs] by (simp only: cache_true_def)

lemma cache_true_entry:
  assumes "keys_tell d B" and "b \<in> B" and "build_key b = Some key" and "fs (probe_cache d) = Some (take n (cache_entry key (build_verdict d b)))"
  shows "cache_true d B fs"
  unfolding cache_true_def
proof (intro ballI allI impI)
  fix c ok
  assume c: "c \<in> B" and r: "cached_result (build_key c) (probe_cache d) fs = Some ok"
  then obtain k where k: "build_key c = Some k" by (auto simp: cached_result_def split: option.splits)
  have "k = key \<and> ok = build_verdict d b" 
    by (rule cached_result_entry [where fs = fs and c = "probe_cache d" and n = n]) (use assms(4) r k in simp_all)
  moreover have "build_key b = Some k \<longrightarrow> build_verdict d b = build_verdict d c"
    using assms(1,2) c k unfolding keys_tell_def by fastforce
  ultimately show "ok = build_verdict d c" using assms(3) by simp
qed

lemma cache_true_step:
  assumes tell: "keys_tell d B" and b: "b \<in> B" "build_ok d b" "b = (os, e)" and t: "cache_true d B fs"
    and run: "probe_allocator_api os e fs = (r, out, fs')"
  shows "cache_true d B fs'"
  using run
proof (cases rule: probe_cases [where d = d])
  case off
  with b t show ?thesis by (auto simp: build_ok_def intro: cache_true_cong)
next
  case (cached dir ok)
  with t show ?thesis by simp
next
  case (compiled dir stderr)
  with b have [simp]: "dir = d" and os: "reads_last os" "tears_only os" by (auto simp: build_ok_def)
  let ?fs1 = "fs(probe_src d \<mapsto> probe_code)"
  show ?thesis
  proof (cases "build_key b")
    case None
    with compiled t b show ?thesis by (simp add: key_reads [OF os(1)] cache_true_cong [of _ d fs])
  next
    case (Some key)
    let ?new = "cache_entry key (build_verdict d b)"
    have fs': "fs' = snd (write_file os (probe_cache d) ?new ?fs1)"
      using compiled(3) Some b(3) by (simp add: key_reads [OF os(1)] verdict_reads [OF os(1)])
    show ?thesis
    proof (cases "os_write_fails os (probe_cache d) ?new (?fs1 (probe_cache d))")
      case None
      then have "fs' (probe_cache d) = Some (take (length ?new) ?new)" by (simp add: fs' write_file_def)
      then show ?thesis by (rule cache_true_entry [OF tell b(1) Some])
    next
      case (Some rest)
      then have f: "fs' (probe_cache d) = rest" by (simp add: fs' write_file_def)
      have "rest = fs (probe_cache d) \<or> (\<exists>n. rest = Some (take n ?new))"
        by (rule tears_onlyD [OF os(2)]) (use Some in simp)
      then consider "rest = fs (probe_cache d)" | n where "rest = Some (take n ?new)" by blast
      then show ?thesis
      proof cases
        case 1
        with f t show ?thesis by (auto intro: cache_true_cong)
      next
        case 2
        with f show ?thesis by (intro cache_true_entry [OF tell b(1) \<open>build_key b = Some key\<close>]) simp
      qed
    qed
  qed
qed

lemma run_builds_true:
  assumes "keys_tell d B" and "set bs \<subseteq> B" and "\<forall>b \<in> B. build_ok d b" and "cache_true d B fs"
  shows "cache_true d B (run_builds bs fs)"
  using assms(2,4)
proof (induction bs arbitrary: fs)
  case (Cons b bs)
  obtain os e where b: "b = (os, e)" by (cases b)
  obtain r out fs' where run: "probe_allocator_api os e fs = (r, out, fs')" by (rule prod_cases3)
  have "cache_true d B fs'" using cache_true_step [OF assms(1) _ _ b Cons.prems(2) run] assms(3) Cons.prems(1) by simp
  with Cons run b show ?case by (simp add: run_builds_def)
qed (simp add: run_builds_def)

subsection \<open>Properties\<close>

text \<open>C40: The build scripts agree on whether the allocator API is there. When the runtime crate's build script ends
  normally, it published exactly one answer, and a dependent crate whose script reads that answer through cargo gates
  its code exactly as the runtime crate was compiled, so the variant of the output type that only the API brings
  exists wherever the dependent expects it. A build with \<open>panic = abort\<close> never gets that far;
  \<open>GUSSET_ALLOCATOR_API=0\<close> always turns the API off; and \<open>=1\<close> turns it on or fails the build, except where the probe
  could not be written at all.\<close>

theorem build_answer_agrees:
  assumes "runtime_build_main os e fs = (Done (), out, fs')"
    and "env_var e ''CARGO_MANIFEST_LINKS'' = Some (lit ''gusset'')"
    and "env_var dep ''DEP_GUSSET_ALLOCATOR_API'' = metadata_value out"
  shows "(cfg_on \<in> set (example_build_main dep) \<longleftrightarrow> cfg_on \<in> set out)
    \<and> metadata_value out = Some (if cfg_on \<in> set out then lit ''1'' else lit ''0'')
    \<and> env_var e ''CARGO_CFG_PANIC'' \<noteq> Some (lit ''abort'')
    \<and> (env_var e ''GUSSET_ALLOCATOR_API'' = Some (lit ''0'') \<longrightarrow> cfg_on \<notin> set out)
    \<and> (env_var e ''GUSSET_ALLOCATOR_API'' = Some (lit ''1'') \<longrightarrow> cfg_on \<in> set out
         \<or> (\<forall>d. e (lit ''OUT_DIR'') = Some d \<longrightarrow> os_write_fails os (probe_src d) probe_code (fs (probe_src d)) \<noteq> None))"
proof -
  note run = runtime_build_normal [OF assms(1)]
  have m: "metadata_value out = Some (if cfg_on \<in> set out then lit ''1'' else lit ''0'')"
    using probe_consistent [OF run(2)] assms(2) by (simp add: metadata_publish)
  have agree: "cfg_on \<in> set (example_build_main dep) \<longleftrightarrow> cfg_on \<in> set out"
    using assms(3) m by (auto simp: example_cfg lit_def)
  have f: "lit ''0'' \<noteq> lit ''1''" by (simp add: lit_def)
  have "(env_var e ''GUSSET_ALLOCATOR_API'' = Some (lit ''0'') \<longrightarrow> cfg_on \<notin> set out)
    \<and> (env_var e ''GUSSET_ALLOCATOR_API'' = Some (lit ''1'') \<longrightarrow> cfg_on \<in> set out
         \<or> (\<forall>d. e (lit ''OUT_DIR'') = Some d \<longrightarrow> os_write_fails os (probe_src d) probe_code (fs (probe_src d)) \<noteq> None))"
    using run(2)
  proof (cases rule: probe_cases [where d = "[]"])
    case off
    with f show ?thesis by auto
  next
    case (cached dir ok)
    then show ?thesis using probe_answer_lines by fastforce
  next
    case (compiled dir stderr)
    then show ?thesis using probe_answer_lines by fastforce
  qed
  with m agree run(1) show ?thesis by blast
qed

text \<open>A toolchain that accepts the probe for the host but cannot compile it for the target.\<close>

definition demo_build_os :: build_os where
  "demo_build_os = \<lparr>os_output = (\<lambda>argv fs. Inr (lit ''--target'' \<notin> set argv, lit ''rustc 1.100'', lit ''no std'')),
     os_hash = (\<lambda>v c f t w. 77), os_write_fails = (\<lambda>path new old. None)\<rparr>"

definition demo_environ :: environ where
  "demo_environ = [lit ''OUT_DIR'' \<mapsto> lit ''/out'', lit ''TARGET'' \<mapsto> lit ''custom'', lit ''CARGO_MANIFEST_LINKS'' \<mapsto> lit ''gusset'']"

lemma demo_vars:
  "env_var demo_environ ''CARGO_MANIFEST_LINKS'' = Some (lit ''gusset'')" "env_var demo_environ ''TARGET'' = Some (lit ''custom'')"
  "env_var demo_environ ''GUSSET_ALLOCATOR_API'' = None" "env_var demo_environ ''CARGO_CFG_PANIC'' = None"
  "env_var demo_environ ''CARGO_ENCODED_RUSTFLAGS'' = None" "demo_environ (lit ''RUSTC_WRAPPER'') = None"
  "demo_environ (lit ''OUT_DIR'') = Some (lit ''/out'')" "demo_environ (lit ''RUSTC'') = None"
proof -
  have "valid_utf8 (lit ''gusset'')" "valid_utf8 (lit ''custom'')" by (rule valid_lit; simp)+
  then show "env_var demo_environ ''CARGO_MANIFEST_LINKS'' = Some (lit ''gusset'')" "env_var demo_environ ''TARGET'' = Some (lit ''custom'')"
    by (simp_all add: env_var_def demo_environ_def lit_def)
qed (simp_all add: env_var_def demo_environ_def lit_def)

lemma demo_probe: "run_probe demo_build_os demo_environ r d s t fs = (\<not> t \<and> lit ''--target'' \<noteq> r \<and> lit ''--target'' \<noteq> d \<and> lit ''--target'' \<noteq> s, from_utf8_lossy (lit ''no std''))"
  by (cases t) (auto simp: run_probe_def demo_vars demo_build_os_def lit_eq_iff)

lemma demo_verdict: "verdict demo_build_os demo_environ (lit ''/out'') fs"
  by (simp add: verdict_def compile_probe_def demo_probe probe_rustc_def demo_vars) (simp add: path_join_def lit_def)

lemma demo_build_run:
  "\<exists>fs'. probe_allocator_api demo_build_os demo_environ Map.empty = (Done (), probe_header @ [cfg_on] @ publish demo_environ True, fs')"
proof -
  obtain r out fs' where run: "probe_allocator_api demo_build_os demo_environ Map.empty = (r, out, fs')" by (rule prod_cases3)
  then show ?thesis
  proof (cases rule: probe_cases [where d = "[]"])
    case off
    then show ?thesis by (auto simp: demo_vars demo_build_os_def)
  next
    case (cached dir ok)
    then show ?thesis by (simp add: cached_result_def read_to_string_def split: option.splits)
  next
    case (compiled dir stderr)
    with demo_verdict run show ?thesis by (auto simp: demo_vars probe_answer_def)
  qed
qed

theorem build_answer_agrees_witness:
  "\<exists>out fs'. runtime_build_main demo_build_os demo_environ Map.empty = (Done (), out, fs')
     \<and> cfg_on \<in> set (example_build_main [lit ''DEP_GUSSET_ALLOCATOR_API'' \<mapsto> lit ''1'']) \<and> cfg_on \<in> set out"
proof -
  let ?out = "probe_header @ [cfg_on] @ publish demo_environ True" and ?dep = "[lit ''DEP_GUSSET_ALLOCATOR_API'' \<mapsto> lit ''1'']"
  from demo_build_run obtain fs' where run: "runtime_build_main demo_build_os demo_environ Map.empty = (Done (), ?out, fs')"
    by (auto simp: runtime_build_main_def demo_vars)
  have m: "metadata_value ?out = Some (lit ''1'')" by (simp add: metadata_append metadata_publish demo_vars)
  have "valid_utf8 (lit ''1'')" by (rule valid_lit) simp
  then have "env_var ?dep ''DEP_GUSSET_ALLOCATOR_API'' = metadata_value ?out" using m by (simp add: env_var_def)
  from build_answer_agrees [OF run demo_vars(1) this] run show ?thesis by auto
qed



text \<open>The limit of the guarantee: \<open>GUSSET_ALLOCATOR_API=1\<close> is documented to make a failed probe an error, yet a build
  that has no output directory ends normally with the API off.\<close>

lemma forced_probe_falls_back:
  assumes "env_var e ''GUSSET_ALLOCATOR_API'' = Some (lit ''1'')" and "e (lit ''OUT_DIR'') = None"
  shows "probe_allocator_api os e fs = (Done (), probe_header @ publish e False, fs)"
  using assms by (simp add: probe_allocator_api_def lit_def)

lemma forced_write_falls_back:
  assumes "env_var e ''GUSSET_ALLOCATOR_API'' = Some (lit ''1'')" and "e (lit ''OUT_DIR'') = Some d"
    and "fs (probe_cache d) = None" and "os_write_fails os (probe_src d) probe_code (fs (probe_src d)) = Some rest"
  shows "probe_allocator_api os e fs = (Done (), probe_header @ publish e False, fs(probe_src d := rest))"
  using assms
  by (simp add: probe_allocator_api_def Let_def write_file_def cached_result_def read_to_string_def lit_eq_iff split: option.split)

end
